(* ===== verification/Prelude.thy ===== *)
theory Prelude
  imports Main "HOL-Library.Word" "HOL-Library.AList" "HOL-Library.Multiset"
begin

text \<open>
  Shared types, result values and generic lemmas of the development.

  \<^item> C++ integer types that may wrap are words (\<open>u32\<close>, \<open>u64\<close>); hashes and account
    identifiers are words of their width; \<open>Blob\<close> is a byte string.
  \<^item> A \<^verbatim>\<open>std::unordered_map\<close>, \<^verbatim>\<open>hash_map\<close> or \<^verbatim>\<open>flat_map\<close> is an association list with
    distinct keys, updated with \<open>AList.update\<close> and \<open>AList.delete\<close>; its order stands for the
    container's (unspecified) iteration order, so a theorem over all such lists holds for every
    iteration order. A \<^verbatim>\<open>std::unordered_set\<close> is a distinct list.
  \<^item> \<open>ter\<close> is the subset of the transaction result codes of \<^verbatim>\<open>include/xrpl/protocol/TER.h\<close> that
    the modelled code returns.
\<close>

section \<open>Types\<close>

type_synonym u8 = "8 word"
type_synonym u32 = "32 word"
type_synonym u64 = "64 word"
type_synonym uint256 = "256 word"
type_synonym AccountID = "160 word"
type_synonym NodeID = "160 word"
type_synonym Blob = "u8 list"
type_synonym PublicKey = "u8 list"

datatype ter =
    tesSUCCESS
  | telNETWORK_ID_MAKES_TX_NON_CANONICAL
  | telREQUIRES_NETWORK_ID
  | telWRONG_NETWORK
  | temMALFORMED
  | temBAD_FEE
  | temBAD_SIGNATURE
  | temBAD_SEQUENCE
  | temBAD_SIGNER
  | temBAD_SRC_ACCOUNT
  | temINVALID
  | temINVALID_FLAG
  | temINVALID_ACCOUNT_ID
  | temDISABLED
  | temUNKNOWN
  | tefALREADY
  | tefFAILURE
  | tefINTERNAL
  | tefEXCEPTION
  | tefINVARIANT_FAILED
  | tecDIR_FULL
  | tecOVERSIZE
  | tecINVARIANT_FAILED

section \<open>Named collections\<close>

named_theorems step_defs \<open>definitions of the operations that change a component's state\<close>
named_theorems inv_intros \<open>lemmas that an operation keeps its component's invariant\<close>

section \<open>Association lists\<close>

abbreviation keys :: "('k \<times> 'v) list \<Rightarrow> 'k set" where
  "keys al \<equiv> fst ` set al"

abbreviation distinct_keys :: "('k \<times> 'v) list \<Rightarrow> bool" where
  "distinct_keys al \<equiv> distinct (map fst al)"

lemma map_of_update [simp]: "map_of (AList.update k v al) = (map_of al)(k \<mapsto> v)"
  by (rule update_conv')

lemma map_of_delete [simp]: "map_of (AList.delete k al) = (map_of al)(k := None)"
  by (rule delete_conv')

lemma distinct_keys_update [simp, intro]:
  "distinct_keys al \<Longrightarrow> distinct_keys (AList.update k v al)"
  by (rule distinct_update)

lemma distinct_keys_delete [simp, intro]:
  "distinct_keys al \<Longrightarrow> distinct_keys (AList.delete k al)"
  by (rule distinct_delete)

lemma keys_update [simp]: "keys (AList.update k v al) = insert k (keys al)"
  by (induction al) auto

lemma keys_delete [simp]: "keys (AList.delete k al) = keys al - {k}"
  by (induction al) auto

lemma map_of_eq_None: "map_of al k = None \<longleftrightarrow> k \<notin> keys al"
  by (rule map_of_eq_None_iff)

lemma in_set_map_of: "distinct_keys al \<Longrightarrow> (k, v) \<in> set al \<longleftrightarrow> map_of al k = Some v"
  by simp

lemma length_keys: "distinct_keys al \<Longrightarrow> length al = card (keys al)"
  using distinct_card [of "map fst al"] by simp

lemma delete_notin: "k \<notin> keys al \<Longrightarrow> AList.delete k al = al"
  by (induction al) auto

lemma set_update_subset: "set (AList.update k v al) \<subseteq> insert (k, v) (set al)"
  by (induction al) auto

lemma set_delete_subset: "set (AList.delete k al) \<subseteq> set al"
  by (induction al) auto

text \<open>Changing the values of an association list.\<close>

lemma fst_comp_map_value [simp]: "fst \<circ> (\<lambda>(k, v). (k, f k v)) = fst"
  by (simp add: fun_eq_iff)

lemma keys_map_value [simp]: "keys (map (\<lambda>(k, v). (k, f k v)) al) = keys al"
  by (force simp: image_iff)

text \<open>\<^verbatim>\<open>++m[k]\<close> on a \<^verbatim>\<open>std::map\<close> of counters, kept in ascending order of its keys.\<close>

fun increment_at :: "'k :: linorder \<Rightarrow> ('k \<times> nat) list \<Rightarrow> ('k \<times> nat) list" where
  "increment_at k [] = [(k, 1)]"
| "increment_at k ((k', c) # m) =
     (if k < k' then (k, 1) # (k', c) # m
      else if k = k' then (k', c + 1) # m
      else (k', c) # increment_at k m)"

lemma keys_increment_at: "set (map fst (increment_at k m)) = insert k (set (map fst m))"
  by (induction k m rule: increment_at.induct) auto

lemma map_of_increment_at:
  "sorted_wrt (<) (map fst m) \<Longrightarrow>
   (case map_of (increment_at k m) x of None \<Rightarrow> 0 | Some c \<Rightarrow> c)
     = (case map_of m x of None \<Rightarrow> 0 | Some c \<Rightarrow> c) + (if x = k then 1 else 0)"
proof (induction k m rule: increment_at.induct)
  case (2 k k' c m)
  have "map_of m k = None" if "k \<le> k'"
    using "2.prems" that by (force simp: map_of_eq_None_iff)
  then show ?case using 2 by auto
qed simp

lemma sorted_increment_at: "sorted_wrt (<) (map fst m) \<Longrightarrow> sorted_wrt (<) (map fst (increment_at k m))"
proof (induction k m rule: increment_at.induct)
  case (2 k k' c m)
  then show ?case using keys_increment_at [of k m] by (auto simp del: set_map)
qed simp

text \<open>A sorted map of counters counts a bag.\<close>

definition tallies :: "('k :: linorder \<times> nat) list \<Rightarrow> 'k multiset \<Rightarrow> bool" where
  "tallies m M \<longleftrightarrow> sorted_wrt (<) (map fst m) \<and> (\<forall>k. (case map_of m k of None \<Rightarrow> 0 | Some c \<Rightarrow> c) = count M k)
     \<and> (\<forall>(k, c) \<in> set m. 0 < c)"

lemma tallies_empty [simp]: "tallies [] {#}"
  by (simp add: tallies_def)

lemma tallies_increment:
  assumes "tallies m M"
  shows "tallies (increment_at k m) (add_mset k M)"
proof -
  have "\<forall>(k, c) \<in> set (increment_at k m). 0 < c" if "\<forall>(k, c) \<in> set m. 0 < c"
    using that by (induction k m rule: increment_at.induct) auto
  then show ?thesis
    using assms sorted_increment_at [of m k] map_of_increment_at [of m k] by (simp add: tallies_def)
qed

lemma tallies_fold: "tallies m M \<Longrightarrow> tallies (fold increment_at ks m) (mset ks + M)"
proof (induction ks arbitrary: m M)
  case (Cons k ks)
  then show ?case using Cons.IH [OF tallies_increment [OF Cons.prems, of k]] by simp
qed simp

lemma tallies_entry: "tallies m M \<Longrightarrow> (k, c) \<in> set m \<Longrightarrow> c = count M k"
proof -
  assume m: "tallies m M" and k: "(k, c) \<in> set m"
  then have "distinct_keys m" by (simp add: tallies_def strict_sorted_iff)
  then have "map_of m k = Some c" using k by simp
  moreover have "(case map_of m k of None \<Rightarrow> 0 | Some c \<Rightarrow> c) = count M k" using m by (simp add: tallies_def)
  ultimately show "c = count M k" by simp
qed

end
