(* ===== verification/Consensus_Parms.thy ===== *)
theory Consensus_Parms
  imports Prelude
begin

text \<open>
  The parameters of the consensus algorithm, \<^verbatim>\<open>src/xrpld/consensus/ConsensusParms.h\<close>:
  the record \<open>ConsensusParms\<close> with the values the struct is initialised with
  (\<open>consensusParms\<close>; durations in seconds or milliseconds as the struct declares them), the
  avalanche states and the function \<open>getNeededWeight\<close> that decides which share of yes votes a
  disputed transaction needs.

  The lemmas show that the table is complete (\<^verbatim>\<open>at()\<close> never throws), that the assertion on
  the cut-off times holds, and that needed weight and state only grow.
\<close>

section \<open>Data\<close>

datatype AvalancheState = av_init | av_mid | av_late | av_stuck

record AvalancheCutoff =
  consensusTime :: int
  consensusPct :: nat
  next_state :: AvalancheState

record ConsensusParms =
  validationVALID_WALL :: int
  validationVALID_LOCAL :: int
  validationVALID_EARLY :: int
  proposeFRESHNESS :: int
  proposeINTERVAL :: int
  minCONSENSUS_PCT :: nat
  ledgerIDLE_INTERVAL :: int
  ledgerMIN_CONSENSUS :: int
  ledgerMAX_CONSENSUS :: int
  ledgerMIN_CLOSE :: int
  ledgerGRANULARITY :: int
  ledgerABANDON_CONSENSUS_FACTOR :: nat
  ledgerABANDON_CONSENSUS :: int
  avMIN_CONSENSUS_TIME :: int
  avalancheCutoffs :: "AvalancheState \<Rightarrow> AvalancheCutoff option"
  avCT_CONSENSUS_PCT :: nat
  avMIN_ROUNDS :: nat
  avSTALLED_ROUNDS :: nat

fun default_cutoffs :: "AvalancheState \<Rightarrow> AvalancheCutoff option" where
  "default_cutoffs av_init = Some \<lparr>consensusTime = 0, consensusPct = 50, next_state = av_mid\<rparr>"
| "default_cutoffs av_mid = Some \<lparr>consensusTime = 50, consensusPct = 65, next_state = av_late\<rparr>"
| "default_cutoffs av_late = Some \<lparr>consensusTime = 85, consensusPct = 70, next_state = av_stuck\<rparr>"
| "default_cutoffs av_stuck = Some \<lparr>consensusTime = 200, consensusPct = 95, next_state = av_stuck\<rparr>"

definition consensusParms :: ConsensusParms where
  "consensusParms = \<lparr>
     validationVALID_WALL = 5 * 60,
     validationVALID_LOCAL = 3 * 60,
     validationVALID_EARLY = 3 * 60,
     proposeFRESHNESS = 20,
     proposeINTERVAL = 12,
     minCONSENSUS_PCT = 67,
     ledgerIDLE_INTERVAL = 15000,
     ledgerMIN_CONSENSUS = 1950,
     ledgerMAX_CONSENSUS = 15000,
     ledgerMIN_CLOSE = 2000,
     ledgerGRANULARITY = 1000,
     ledgerABANDON_CONSENSUS_FACTOR = 10,
     ledgerABANDON_CONSENSUS = 120000,
     avMIN_CONSENSUS_TIME = 5000,
     avalancheCutoffs = default_cutoffs,
     avCT_CONSENSUS_PCT = 75,
     avMIN_ROUNDS = 2,
     avSTALLED_ROUNDS = 4\<rparr>"

section \<open>The needed weight\<close>

text \<open>\<open>None\<close> is the exception of \<^verbatim>\<open>std::map::at\<close> on a state without an entry.\<close>

definition getNeededWeight ::
  "ConsensusParms \<Rightarrow> AvalancheState \<Rightarrow> int \<Rightarrow> nat \<Rightarrow> nat \<Rightarrow> (nat \<times> AvalancheState option) option" where
  "getNeededWeight p currentState percentTime currentRounds minimumRounds =
     (case avalancheCutoffs p currentState of
        None \<Rightarrow> None
      | Some currentCutoff \<Rightarrow>
          if next_state currentCutoff \<noteq> currentState \<and> minimumRounds \<le> currentRounds then
            (case avalancheCutoffs p (next_state currentCutoff) of
               None \<Rightarrow> None
             | Some nextCutoff \<Rightarrow>
                 if consensusTime nextCutoff \<le> percentTime
                 then Some (consensusPct nextCutoff, Some (next_state currentCutoff))
                 else Some (consensusPct currentCutoff, None))
          else Some (consensusPct currentCutoff, None))"

section \<open>The avalanche states in order\<close>

fun av_rank :: "AvalancheState \<Rightarrow> nat" where
  "av_rank av_init = 0"
| "av_rank av_mid = 1"
| "av_rank av_late = 2"
| "av_rank av_stuck = 3"

lemma av_rank_inj: "av_rank a = av_rank b \<Longrightarrow> a = b"
  by (cases a; cases b) simp_all

instantiation AvalancheState :: linorder
begin

definition less_eq_AvalancheState :: "AvalancheState \<Rightarrow> AvalancheState \<Rightarrow> bool" where
  "less_eq_AvalancheState a b \<longleftrightarrow> av_rank a \<le> av_rank b"

definition less_AvalancheState :: "AvalancheState \<Rightarrow> AvalancheState \<Rightarrow> bool" where
  "less_AvalancheState a b \<longleftrightarrow> av_rank a < av_rank b"

instance
  by standard
    (auto simp: less_eq_AvalancheState_def less_AvalancheState_def intro: av_rank_inj)

end

lemmas av_order_defs = less_eq_AvalancheState_def less_AvalancheState_def

lemma cutoffs_default [simp]: "avalancheCutoffs consensusParms = default_cutoffs"
  by (simp add: consensusParms_def)

lemma parms_default [simp]:
  "minCONSENSUS_PCT consensusParms = 67"
  "ledgerMIN_CONSENSUS consensusParms = 1950"
  "ledgerMAX_CONSENSUS consensusParms = 15000"
  "ledgerMIN_CLOSE consensusParms = 2000"
  "ledgerABANDON_CONSENSUS_FACTOR consensusParms = 10"
  "ledgerABANDON_CONSENSUS consensusParms = 120000"
  "avMIN_ROUNDS consensusParms = 2"
  "avSTALLED_ROUNDS consensusParms = 4"
  by (simp_all add: consensusParms_def)

text \<open>The weight a state requires, read off the table.\<close>

definition state_pct :: "AvalancheState \<Rightarrow> nat" where
  "state_pct s = (case s of av_init \<Rightarrow> 50 | av_mid \<Rightarrow> 65 | av_late \<Rightarrow> 70 | av_stuck \<Rightarrow> 95)"

lemma state_pct_mono: "a \<le> b \<Longrightarrow> state_pct a \<le> state_pct b"
  by (cases a; cases b) (simp_all add: state_pct_def av_order_defs)

lemma getNeededWeight_default:
  "\<exists>pct ns. getNeededWeight consensusParms s t r m = Some (pct, ns)
     \<and> pct = state_pct (case ns of None \<Rightarrow> s | Some s' \<Rightarrow> s')
     \<and> (\<forall>s'. ns = Some s' \<longrightarrow> s < s' \<and> m \<le> r)"
  by (cases s) (simp_all add: getNeededWeight_def state_pct_def av_order_defs)

text \<open>The assertion in \<^verbatim>\<open>getNeededWeight\<close>: the cut-off times do not decrease along the table.\<close>

lemma cutoff_times_ordered:
  assumes "default_cutoffs s = Some c" and "default_cutoffs (next_state c) = Some c'"
  shows "consensusTime c \<le> consensusTime c'"
  using assms by (cases s) auto

end
