(* ===== verification/Disputed_Tx.thy ===== *)
theory Disputed_Tx
  imports Consensus_Parms "HOL-Library.Signed_Division"
begin

text \<open>
  A transaction in dispute during consensus, \<^verbatim>\<open>src/xrpld/consensus/DisputedTx.h\<close>: the peers'
  votes with their running totals, our vote, and the avalanche state. \<open>votes\<close> is the
  \<^verbatim>\<open>flat_map\<close> from peers to votes; the counters \<open>yays\<close> and \<open>nays\<close> are C++ \<^verbatim>\<open>int\<close>s bounded by
  the number of peers. Logging and \<^verbatim>\<open>getJson\<close> are left out. The exception of
  \<^verbatim>\<open>avalancheCutoffs.at\<close> is the result \<open>None\<close>.

  The lemmas show that the counters always equal the votes recorded, for every sequence of
  operations, how a vote follows from the counters, that the avalanche state never moves back,
  and what a stalled dispute means.
\<close>

section \<open>State and operations\<close>

record ('tx, 'node) DisputedTx =
  yays :: int
  nays :: int
  ourVote :: bool
  disputed_tx :: 'tx
  votes :: "('node \<times> bool) list"
  currentVoteCounter :: nat
  avalancheState :: AvalancheState
  avalancheCounter :: nat

definition new_DisputedTx :: "'tx \<Rightarrow> bool \<Rightarrow> ('tx, 'node) DisputedTx" where
  "new_DisputedTx tx vote = \<lparr>yays = 0, nays = 0, ourVote = vote, disputed_tx = tx, votes = [],
     currentVoteCounter = 0, avalancheState = av_init, avalancheCounter = 0\<rparr>"

definition setOurVote :: "bool \<Rightarrow> ('tx, 'node) DisputedTx \<Rightarrow> ('tx, 'node) DisputedTx" where
  "setOurVote v d = d\<lparr>ourVote := v\<rparr>"

definition setVote ::
  "'node \<Rightarrow> bool \<Rightarrow> ('tx, 'node) DisputedTx \<Rightarrow> bool \<times> ('tx, 'node) DisputedTx" where
  "setVote peer votesYes d =
     (case map_of (votes d) peer of
        None \<Rightarrow>
          (True,
           if votesYes
           then d\<lparr>votes := AList.update peer votesYes (votes d), yays := yays d + 1\<rparr>
           else d\<lparr>votes := AList.update peer votesYes (votes d), nays := nays d + 1\<rparr>)
      | Some v \<Rightarrow>
          if votesYes \<and> \<not> v then
            (True, d\<lparr>nays := nays d - 1, yays := yays d + 1,
                     votes := AList.update peer True (votes d)\<rparr>)
          else if \<not> votesYes \<and> v then
            (True, d\<lparr>nays := nays d + 1, yays := yays d - 1,
                     votes := AList.update peer False (votes d)\<rparr>)
          else (False, d))"

definition unVote :: "'node \<Rightarrow> ('tx, 'node) DisputedTx \<Rightarrow> ('tx, 'node) DisputedTx" where
  "unVote peer d =
     (case map_of (votes d) peer of
        None \<Rightarrow> d
      | Some v \<Rightarrow>
          (if v then d\<lparr>yays := yays d - 1, votes := AList.delete peer (votes d)\<rparr>
           else d\<lparr>nays := nays d - 1, votes := AList.delete peer (votes d)\<rparr>))"

text \<open>
  A comparison of an \<^verbatim>\<open>int\<close> with a \<^verbatim>\<open>size_t\<close> converts the \<^verbatim>\<open>int\<close> to 64 unsigned bits.
\<close>

definition size_t_of :: "int \<Rightarrow> int" where
  "size_t_of i = uint (word_of_int i :: u64)"

text \<open>The position the peers' votes lead to, given the percentage required of us.\<close>

definition newPosition :: "nat \<Rightarrow> bool \<Rightarrow> ('tx, 'node) DisputedTx \<Rightarrow> bool" where
  "newPosition requiredPct proposing d =
     (if proposing
      then int requiredPct <
             size_t_of ((yays d * 100 + (if ourVote d then 100 else 0)) sdiv (nays d + yays d + 1))
      else nays d < yays d)"

text \<open>
  The first part of \<^verbatim>\<open>updateVote\<close>: count this round, look up the percentage needed, and move to
  the next avalanche state when it is due.
\<close>

definition advanceAvalanche ::
  "int \<Rightarrow> ConsensusParms \<Rightarrow> ('tx, 'node) DisputedTx \<Rightarrow> (nat \<times> ('tx, 'node) DisputedTx) option" where
  "advanceAvalanche percentTime p d =
     (let counter = avalancheCounter d + 1 in
      case getNeededWeight p (avalancheState d) percentTime counter (avMIN_ROUNDS p) of
        None \<Rightarrow> None
      | Some (requiredPct, None) \<Rightarrow> Some (requiredPct, d\<lparr>avalancheCounter := counter\<rparr>)
      | Some (requiredPct, Some s) \<Rightarrow>
          Some (requiredPct, d\<lparr>avalancheState := s, avalancheCounter := 0\<rparr>))"

text \<open>Its last part: keep our vote and count the round, or change it and restart the count.\<close>

definition settleVote :: "bool \<Rightarrow> ('tx, 'node) DisputedTx \<Rightarrow> bool \<times> ('tx, 'node) DisputedTx" where
  "settleVote np d =
     (if np = ourVote d then (False, d\<lparr>currentVoteCounter := currentVoteCounter d + 1\<rparr>)
      else (True, d\<lparr>currentVoteCounter := 0, ourVote := np\<rparr>))"

definition updateVote ::
  "int \<Rightarrow> bool \<Rightarrow> ConsensusParms \<Rightarrow> ('tx, 'node) DisputedTx
     \<Rightarrow> (bool \<times> ('tx, 'node) DisputedTx) option" where
  "updateVote percentTime proposing p d =
     (if ourVote d \<and> nays d = 0 then Some (False, d)
      else if \<not> ourVote d \<and> yays d = 0 then Some (False, d)
      else case advanceAvalanche percentTime p d of
             None \<Rightarrow> None
           | Some (requiredPct, d1) \<Rightarrow> Some (settleVote (newPosition requiredPct proposing d1) d1))"

definition stalled ::
  "ConsensusParms \<Rightarrow> bool \<Rightarrow> int \<Rightarrow> ('tx, 'node) DisputedTx \<Rightarrow> bool option" where
  "stalled p proposing peersUnchanged d =
     (case avalancheCutoffs p (avalancheState d) of
        None \<Rightarrow> None
      | Some currentCutoff \<Rightarrow>
     (case avalancheCutoffs p (next_state currentCutoff) of
        None \<Rightarrow> None
      | Some nextCutoff \<Rightarrow>
          if consensusTime currentCutoff < consensusTime nextCutoff
             \<or> avalancheCounter d < avMIN_ROUNDS p
          then Some False
          else if proposing \<and> currentVoteCounter d < avMIN_ROUNDS p then Some False
          else if size_t_of peersUnchanged < int (avSTALLED_ROUNDS p)
                  \<and> proposing \<and> currentVoteCounter d < avSTALLED_ROUNDS p
          then Some False
          else
            let support = (yays d + (if proposing \<and> ourVote d then 1 else 0)) * 100;
                total = nays d + yays d + (if proposing then 1 else 0)
            in if total = 0 then Some False
               else let weight = support sdiv total
                    in Some (int (minCONSENSUS_PCT p) < size_t_of weight
                             \<or> size_t_of weight < size_t_of (100 - int (minCONSENSUS_PCT p)))))"

text \<open>Every life of a dispute: it is created, then its operations run in any order.\<close>

inductive dispute_reach :: "('tx, 'node) DisputedTx \<Rightarrow> bool" where
  new: "dispute_reach (new_DisputedTx tx v)"
| ours: "dispute_reach d \<Longrightarrow> dispute_reach (setOurVote v d)"
| vote: "dispute_reach d \<Longrightarrow> dispute_reach (snd (setVote peer v d))"
| unvote: "dispute_reach d \<Longrightarrow> dispute_reach (unVote peer d)"
| update: "dispute_reach d \<Longrightarrow> updateVote t proposing p d = Some r \<Longrightarrow> dispute_reach (snd r)"

text \<open>Rounds of \<open>updateVote\<close> with no other operation between them.\<close>

fun update_rounds ::
  "nat \<Rightarrow> int \<Rightarrow> bool \<Rightarrow> ConsensusParms \<Rightarrow> ('tx, 'node) DisputedTx \<Rightarrow> ('tx, 'node) DisputedTx option" where
  "update_rounds 0 t proposing p d = Some d"
| "update_rounds (Suc n) t proposing p d =
     (case updateVote t proposing p d of
        None \<Rightarrow> None
      | Some r \<Rightarrow> update_rounds n t proposing p (snd r))"

section \<open>The counters are the votes\<close>

definition count_votes :: "bool \<Rightarrow> ('node \<times> bool) list \<Rightarrow> int" where
  "count_votes b vs = int (length (filter (\<lambda>(_, v). v = b) vs))"

definition dispute_inv :: "('tx, 'node) DisputedTx \<Rightarrow> bool" where
  "dispute_inv d \<longleftrightarrow>
     distinct_keys (votes d)
     \<and> yays d = count_votes True (votes d)
     \<and> nays d = count_votes False (votes d)"

lemma count_votes_nonneg [simp]: "0 \<le> count_votes b vs"
  by (simp add: count_votes_def)

lemma count_votes_total: "count_votes True vs + count_votes False vs = int (length vs)"
  using sum_length_filter_compl [of "\<lambda>(_, v). v = True" vs]
  by (simp add: count_votes_def case_prod_unfold)

lemma count_votes_simps [simp]:
  "count_votes b [] = 0"
  "count_votes b ((k, v) # vs) = (if v = b then 1 else 0) + count_votes b vs"
  by (simp_all add: count_votes_def)

lemma count_votes_update:
  "distinct_keys vs \<Longrightarrow> count_votes b (AList.update k v vs) =
     count_votes b vs + (if v = b then 1 else 0) - (if map_of vs k = Some b then 1 else 0)"
proof (induction vs)
  case (Cons kv vs)
  then show ?case by (cases kv) (auto simp: map_of_eq_None_iff dest: map_of_SomeD)
qed simp

lemma count_votes_delete:
  "distinct_keys vs \<Longrightarrow> count_votes b (AList.delete k vs) =
     count_votes b vs - (if map_of vs k = Some b then 1 else 0)"
proof (induction vs)
  case (Cons kv vs)
  then show ?case by (cases kv) (auto simp: delete_notin dest: map_of_SomeD)
qed simp

lemma dispute_inv_new: "dispute_inv (new_DisputedTx tx v)"
  by (simp add: dispute_inv_def new_DisputedTx_def)

lemma dispute_inv_setOurVote [inv_intros]: "dispute_inv d \<Longrightarrow> dispute_inv (setOurVote v d)"
  by (simp add: dispute_inv_def setOurVote_def)

lemma dispute_inv_setVote [inv_intros]: "dispute_inv d \<Longrightarrow> dispute_inv (snd (setVote peer v d))"
  by (auto simp: dispute_inv_def setVote_def count_votes_update split: option.splits)

lemma dispute_inv_unVote [inv_intros]: "dispute_inv d \<Longrightarrow> dispute_inv (unVote peer d)"
  by (auto simp: dispute_inv_def unVote_def count_votes_delete split: option.splits)

text \<open>\<open>updateVote\<close> reads the votes and never writes them.\<close>

lemma advanceAvalanche_frame:
  assumes "advanceAvalanche t p d = Some (pct, d')"
  shows "votes d' = votes d" "yays d' = yays d" "nays d' = nays d" "ourVote d' = ourVote d"
    "disputed_tx d' = disputed_tx d" "currentVoteCounter d' = currentVoteCounter d"
  using assms by (auto simp: advanceAvalanche_def Let_def split: option.splits)

lemma settleVote_frame [simp]:
  "votes (snd (settleVote np d)) = votes d" "yays (snd (settleVote np d)) = yays d"
  "nays (snd (settleVote np d)) = nays d" "ourVote (snd (settleVote np d)) = np"
  "avalancheState (snd (settleVote np d)) = avalancheState d"
  "avalancheCounter (snd (settleVote np d)) = avalancheCounter d"
  "disputed_tx (snd (settleVote np d)) = disputed_tx d"
  "fst (settleVote np d) \<longleftrightarrow> np \<noteq> ourVote d"
  by (simp_all add: settleVote_def)

lemma updateVote_frame:
  assumes "updateVote t pr p d = Some r"
  shows "votes (snd r) = votes d" "yays (snd r) = yays d" "nays (snd r) = nays d"
    "disputed_tx (snd r) = disputed_tx d"
  using assms
  by (auto simp: updateVote_def advanceAvalanche_frame split: if_splits option.splits)

lemma dispute_inv_updateVote [inv_intros]:
  "dispute_inv d \<Longrightarrow> updateVote t pr p d = Some r \<Longrightarrow> dispute_inv (snd r)"
  using updateVote_frame [of t pr p d r] by (simp add: dispute_inv_def)

lemma dispute_reach_inv: "dispute_reach d \<Longrightarrow> dispute_inv d"
  by (induction rule: dispute_reach.induct) (auto intro: inv_intros dispute_inv_new)

lemma count_votes_card:
  assumes "distinct_keys vs"
  shows "count_votes b vs = int (card {n. map_of vs n = Some b})"
proof -
  have "{n. map_of vs n = Some b} = fst ` set (filter (\<lambda>(_, v). v = b) vs)"
    using assms by (force simp: image_iff)
  moreover have "inj_on fst (set (filter (\<lambda>(_, v). v = b) vs))"
    by (auto intro: inj_onI)
  moreover have "distinct (filter (\<lambda>(_, v). v = b) vs)"
    using assms by (simp add: distinct_map)
  ultimately show ?thesis
    using distinct_card [of "filter (\<lambda>(_, v). v = b) vs"]
    by (simp add: count_votes_def card_image)
qed

lemma dispute_inv_nonneg: "dispute_inv d \<Longrightarrow> 0 \<le> yays d \<and> 0 \<le> nays d"
  by (simp add: dispute_inv_def)

section \<open>Percentages\<close>

lemma size_t_of_id [simp]: "0 \<le> i \<Longrightarrow> i < 2 ^ 64 \<Longrightarrow> size_t_of i = i"
  by (simp add: size_t_of_def uint_word_of_int)

lemma sdiv_pct:
  assumes "0 \<le> a" and "0 < (b :: int)" and "a \<le> b"
  shows "size_t_of ((a * 100) sdiv b) = a * 100 div b"
    and "0 \<le> a * 100 div b" and "a * 100 div b \<le> 100"
proof -
  have "a * 100 div b \<le> b * 100 div b"
    using assms by (intro zdiv_mono1) auto
  then show le: "a * 100 div b \<le> 100"
    using assms by simp
  show ge: "0 \<le> a * 100 div b"
    using assms by (simp add: pos_imp_zdiv_nonneg_iff)
  have "(a * 100) sdiv b = a * 100 div b"
    using assms by (cases "a = 0") (simp_all add: signed_divide_int_def)
  then show "size_t_of ((a * 100) sdiv b) = a * 100 div b"
    using le ge by simp
qed

lemma pct_less:
  assumes "0 < (b :: int)"
  shows "k < a div b \<longleftrightarrow> (k + 1) * b \<le> a"
proof
  assume "k < a div b"
  then have "(k + 1) * b \<le> a div b * b"
    using assms by (intro mult_right_mono) auto
  also have "\<dots> \<le> a"
    using assms by (metis div_mult_mod_eq le_add_same_cancel1 pos_mod_sign)
  finally show "(k + 1) * b \<le> a" .
next
  assume "(k + 1) * b \<le> a"
  then have "(k + 1) * b div b \<le> a div b"
    using assms by (rule zdiv_mono1)
  then show "k < a div b"
    using assms by simp
qed

lemma pct_outside:
  assumes "0 < (b :: int)"
  shows "67 < a * 100 div b \<or> a * 100 div b < 33 \<longleftrightarrow> 68 * b \<le> 100 * a \<or> 100 * a < 33 * b"
proof -
  have "a * 100 div b < 33 \<longleftrightarrow> \<not> 32 < a * 100 div b"
    by linarith
  then show ?thesis
    using pct_less [OF assms, of 67 "a * 100"] pct_less [OF assms, of 32 "a * 100"]
    by (auto simp: mult.commute [of 100 a])
qed

lemma newPosition_proposing:
  assumes "dispute_inv d"
  shows "newPosition pct True d \<longleftrightarrow>
    (int pct + 1) * (nays d + yays d + 1) \<le> 100 * (yays d + (if ourVote d then 1 else 0))"
proof -
  note nn = dispute_inv_nonneg [OF assms]
  let ?a = "yays d + (if ourVote d then 1 else 0)"
  have "size_t_of ((?a * 100) sdiv (nays d + yays d + 1)) = ?a * 100 div (nays d + yays d + 1)"
    using nn by (intro sdiv_pct) auto
  moreover have "yays d * 100 + (if ourVote d then 100 else 0) = ?a * 100"
    by simp
  ultimately show ?thesis
    using nn by (simp add: newPosition_def pct_less mult.commute)
qed

section \<open>The avalanche\<close>

lemma advanceAvalanche_default:
  "\<exists>d'. advanceAvalanche t consensusParms d = Some (state_pct (avalancheState d'), d')
     \<and> avalancheState d \<le> avalancheState d'"
proof -
  obtain pct ns where "getNeededWeight consensusParms (avalancheState d) t
      (Suc (avalancheCounter d)) 2 = Some (pct, ns)"
    and "pct = state_pct (case ns of None \<Rightarrow> avalancheState d | Some s' \<Rightarrow> s')"
    and "\<forall>s'. ns = Some s' \<longrightarrow> avalancheState d < s'"
    using getNeededWeight_default by blast
  then show ?thesis
    by (cases ns) (auto simp: advanceAvalanche_def)
qed

lemma updateVote_idle:
  "ourVote d \<and> nays d = 0 \<or> \<not> ourVote d \<and> yays d = 0 \<Longrightarrow> updateVote t pr p d = Some (False, d)"
  by (auto simp: updateVote_def)

lemma updateVote_default:
  "(\<exists>changed d'. updateVote t pr consensusParms d = Some (changed, d')
     \<and> changed = (ourVote d' \<noteq> ourVote d) \<and> avalancheState d \<le> avalancheState d'
     \<and> (if ourVote d \<and> nays d = 0 \<or> \<not> ourVote d \<and> yays d = 0 then d' = d
        else ourVote d' = newPosition (state_pct (avalancheState d')) pr d))"
proof (cases "ourVote d \<and> nays d = 0 \<or> \<not> ourVote d \<and> yays d = 0")
  case False
  obtain d1 where d1: "advanceAvalanche t consensusParms d = Some (state_pct (avalancheState d1), d1)"
    "avalancheState d \<le> avalancheState d1"
    using advanceAvalanche_default by blast
  let ?r = "settleVote (newPosition (state_pct (avalancheState d1)) pr d1) d1"
  have "newPosition pct pr d1 = newPosition pct pr d" for pct
    by (simp add: newPosition_def advanceAvalanche_frame [OF d1(1)])
  then show ?thesis
    using False d1 advanceAvalanche_frame [OF d1(1)]
    by (intro exI [of _ "fst ?r"] exI [of _ "snd ?r"]) (auto simp: updateVote_def prod_eq_iff)
qed (auto simp: updateVote_idle)

text \<open>Progress through the avalanche states: two rounds per state until the last one.\<close>

definition av_progress :: "('tx, 'node) DisputedTx \<Rightarrow> nat" where
  "av_progress d = 2 * av_rank (avalancheState d)
     + (if avalancheState d = av_stuck then 0 else min 1 (avalancheCounter d))"

lemma av_progress_stuck: "6 \<le> av_progress d \<longleftrightarrow> avalancheState d = av_stuck"
  by (cases "avalancheState d") (auto simp: av_progress_def)

lemma updateVote_progress:
  assumes "0 < yays d" and "0 < nays d" and "200 \<le> t"
    and "updateVote t pr consensusParms d = Some r"
  shows "min 6 (Suc (av_progress d)) \<le> av_progress (snd r)"
proof -
  obtain d1 pct where d1: "advanceAvalanche t consensusParms d = Some (pct, d1)"
    and r: "r = settleVote (newPosition pct pr d1) d1"
    using assms by (auto simp: updateVote_def split: option.splits if_splits)
  have "av_progress (snd r) = av_progress d1"
    by (simp add: r av_progress_def)
  moreover have "min 6 (Suc (av_progress d)) \<le> av_progress d1"
    using d1 assms(3)
    by (cases "avalancheState d"; cases "avalancheCounter d")
       (auto simp: advanceAvalanche_def getNeededWeight_def av_progress_def split: if_splits)
  ultimately show ?thesis by simp
qed

lemma update_rounds_progress:
  assumes "0 < yays d" and "0 < nays d" and "200 \<le> t"
  shows "\<exists>d'. update_rounds n t pr consensusParms d = Some d' \<and> min 6 (av_progress d + n) \<le> av_progress d'"
  using assms(1,2)
proof (induction n arbitrary: d)
  case (Suc n)
  obtain r where r: "updateVote t pr consensusParms d = Some r"
    using updateVote_default by blast
  note step = updateVote_progress [OF Suc.prems assms(3) r] and frame = updateVote_frame [OF r]
  obtain d' where "update_rounds n t pr consensusParms (snd r) = Some d'"
    "min 6 (av_progress (snd r) + n) \<le> av_progress d'"
    using Suc.IH [of "snd r"] Suc.prems frame by auto
  then show ?case
    using step r by auto
qed simp

section \<open>Properties\<close>

text \<open>
  After any sequence of operations on a dispute, \<open>yays\<close> is the number of peers whose
  recorded vote is yes and \<open>nays\<close> the number of peers whose recorded vote is no: the running
  totals never drift from the vote map, whatever peers vote, change their vote, repeat it or leave.
\<close>

theorem dispute_counters_exact:
  assumes "dispute_reach d"
  shows "yays d = int (card {n. map_of (votes d) n = Some True})
    \<and> nays d = int (card {n. map_of (votes d) n = Some False})
    \<and> yays d + nays d = int (length (votes d))"
  using dispute_reach_inv [OF assms] count_votes_total [of "votes d"]
  by (auto simp: dispute_inv_def count_votes_card)

text \<open>
  With the built-in consensus parameters \<^verbatim>\<open>updateVote\<close> never throws and reports a change exactly
  when our vote changed; the avalanche state never moves back; and when the vote is contested and we
  are proposing, our new vote is yes exactly if strictly more than the percentage of the
  state reached (50, 65, 70 or 95) of all voters, ourselves included, vote yes.
\<close>

theorem updateVote_threshold:
  assumes "dispute_inv d"
  shows "\<exists>changed d'. updateVote t proposing consensusParms d = Some (changed, d')
    \<and> changed = (ourVote d' \<noteq> ourVote d)
    \<and> avalancheState d \<le> avalancheState d'
    \<and> (if ourVote d \<and> nays d = 0 \<or> \<not> ourVote d \<and> yays d = 0 then d' = d
       else if proposing then
         ourVote d' \<longleftrightarrow> (int (state_pct (avalancheState d')) + 1) * (nays d + yays d + 1)
                          \<le> 100 * (yays d + (if ourVote d then 1 else 0))
       else ourVote d' \<longleftrightarrow> nays d < yays d)"
  using updateVote_default [of t proposing d] newPosition_proposing [OF assms]
  by (cases proposing) (fastforce simp: newPosition_def)+

text \<open>
  A contested dispute does not stay below the final avalanche state: once the round has
  lasted twice the previous one, six rounds of \<^verbatim>\<open>updateVote\<close> bring it to \<^verbatim>\<open>stuck\<close>, whatever our votes
  were in between.
\<close>

theorem dispute_reaches_stuck:
  assumes "0 < yays d" and "0 < nays d" and "200 \<le> percentTime"
  shows "\<exists>d'. update_rounds 6 percentTime proposing consensusParms d = Some d'
    \<and> avalancheState d' = av_stuck"
  using update_rounds_progress [OF assms, of 6 proposing] av_progress_stuck by fastforce

lemma stalled_default:
  assumes "stalled consensusParms proposing peersUnchanged d = Some True"
  shows "avalancheState d = av_stuck" "2 \<le> avalancheCounter d"
    "proposing \<Longrightarrow> 2 \<le> currentVoteCounter d"
    "proposing \<Longrightarrow> 4 \<le> size_t_of peersUnchanged \<or> 4 \<le> currentVoteCounter d"
    "nays d + yays d + (if proposing then 1 else 0) \<noteq> 0"
    "let w = size_t_of ((yays d + (if proposing \<and> ourVote d then 1 else 0)) * 100
               sdiv (nays d + yays d + (if proposing then 1 else 0)))
     in 67 < w \<or> w < 33"
  using assms
  by (cases "avalancheState d"; auto simp: stalled_def Let_def split: if_splits)+

text \<open>
  A dispute is reported stalled only in the final avalanche state, after at least two rounds
  there, after our own vote stood for two rounds if we are proposing (four, if peers are still
  moving), and only if the votes are lopsided: at least 68% of all voters say yes, or fewer than
  33% do. So a stall never hides an evenly split transaction.
\<close>

theorem stalled_means_lopsided:
  assumes "dispute_inv d" and "stalled consensusParms proposing peersUnchanged d = Some True"
  shows "avalancheState d = av_stuck \<and> 2 \<le> avalancheCounter d
    \<and> (proposing \<longrightarrow> 2 \<le> currentVoteCounter d
          \<and> (4 \<le> size_t_of peersUnchanged \<or> 4 \<le> currentVoteCounter d))
    \<and> (let yes = yays d + (if proposing \<and> ourVote d then 1 else 0);
           total = nays d + yays d + (if proposing then 1 else 0)
       in 0 < total \<and> (68 * total \<le> 100 * yes \<or> 100 * yes < 33 * total))"
proof -
  note st = stalled_default [OF assms(2)]
  let ?yes = "yays d + (if proposing \<and> ourVote d then 1 else 0)"
  let ?total = "nays d + yays d + (if proposing then 1 else 0)"
  have nn: "0 \<le> yays d" "0 \<le> nays d"
    using dispute_inv_nonneg [OF assms(1)] by simp_all
  then have "0 \<le> ?total" by simp
  with st(5) have pos: "0 < ?total" by linarith
  have "size_t_of (?yes * 100 sdiv ?total) = ?yes * 100 div ?total"
    using nn pos by (intro sdiv_pct) auto
  then have w: "67 < ?yes * 100 div ?total \<or> ?yes * 100 div ?total < 33"
    using st(6) by (simp add: Let_def)
  then have "68 * ?total \<le> 100 * ?yes \<or> 100 * ?yes < 33 * ?total"
    by (rule pct_outside [OF pos, THEN iffD1])
  with st(1-4) pos show ?thesis
    unfolding Let_def by blast
qed

text \<open>
  Recording a vote: \<^verbatim>\<open>setVote\<close> leaves every other peer's vote alone, reports whether the peer's
  vote changed, and repeating the same vote changes nothing; \<^verbatim>\<open>unVote\<close> of a peer that had no vote
  before restores the totals and every recorded vote.
\<close>

theorem setVote_unVote:
  "map_of (votes (snd (setVote peer v d))) = (map_of (votes d))(peer \<mapsto> v)
   \<and> fst (setVote peer v d) = (map_of (votes d) peer \<noteq> Some v)
   \<and> setVote peer v (snd (setVote peer v d)) = (False, snd (setVote peer v d))
   \<and> (map_of (votes d) peer = None \<longrightarrow>
        yays (unVote peer (snd (setVote peer v d))) = yays d
        \<and> nays (unVote peer (snd (setVote peer v d))) = nays d
        \<and> map_of (votes (unVote peer (snd (setVote peer v d)))) = map_of (votes d))"
  by (cases v; cases "map_of (votes d) peer")
     (auto simp: setVote_def unVote_def fun_upd_idem fun_eq_iff split: if_splits)

end
