(* ===== verification/Consensus_Decision.thy ===== *)
theory Consensus_Decision
  imports Disputed_Tx
begin

text \<open>
  The decisions of a consensus round, \<^verbatim>\<open>src/xrpld/consensus/Consensus.cpp\<close>: when to close the open
  ledger (\<open>shouldCloseLedger\<close>), when a set of agreeing peers is enough (\<open>checkConsensusReached\<close>)
  and what state a round is in (\<open>checkConsensus\<close>). Counts of peers (\<^verbatim>\<open>size_t\<close>) are \<open>nat\<close>s and
  durations in milliseconds are \<open>int\<close>s; halving a duration truncates as C++ does. Logging is
  left out.

  The lemmas show what each verdict implies, that a round is bounded in time, and that two
  agreements on the same validator set overlap.
\<close>

section \<open>Definitions\<close>

datatype ConsensusState = No | MovedOn | Expired | Yes

definition shouldCloseLedger ::
  "bool \<Rightarrow> nat \<Rightarrow> nat \<Rightarrow> nat \<Rightarrow> int \<Rightarrow> int \<Rightarrow> int \<Rightarrow> int \<Rightarrow> ConsensusParms \<Rightarrow> bool" where
  "shouldCloseLedger anyTransactions prevProposers proposersClosed proposersValidated
     prevRoundTime timeSincePrevClose openTime idleInterval parms =
     (if prevRoundTime < - 1000 \<or> 600000 < prevRoundTime \<or> 600000 < timeSincePrevClose then True
      else if prevProposers div 2 < proposersClosed + proposersValidated then True
      else if \<not> anyTransactions then idleInterval \<le> timeSincePrevClose
      else if openTime < ledgerMIN_CLOSE parms then False
      else if openTime < prevRoundTime sdiv 2 then False
      else True)"

definition checkConsensusReached :: "nat \<Rightarrow> nat \<Rightarrow> bool \<Rightarrow> nat \<Rightarrow> bool \<Rightarrow> bool \<Rightarrow> bool" where
  "checkConsensusReached agreeing peers count_self minConsensusPct reachedMax is_stalled =
     (if peers = 0 then (if reachedMax then True else False)
      else if is_stalled then True
      else let agreeing' = (if count_self then agreeing + 1 else agreeing);
               peers' = (if count_self then peers + 1 else peers);
               currentPercentage = agreeing' * 100 div peers'
           in minConsensusPct \<le> currentPercentage)"

text \<open>\<^verbatim>\<open>std::clamp\<close>.\<close>

definition clamp :: "int \<Rightarrow> int \<Rightarrow> int \<Rightarrow> int" where
  "clamp v lo hi = (if v < lo then lo else if hi < v then hi else v)"

definition checkConsensus ::
  "nat \<Rightarrow> nat \<Rightarrow> nat \<Rightarrow> nat \<Rightarrow> int \<Rightarrow> int \<Rightarrow> bool \<Rightarrow> ConsensusParms \<Rightarrow> bool \<Rightarrow> ConsensusState" where
  "checkConsensus prevProposers currentProposers currentAgree currentFinished
     previousAgreeTime currentAgreeTime is_stalled parms proposing =
     (if currentAgreeTime \<le> ledgerMIN_CONSENSUS parms then No
      else if currentProposers < prevProposers * 3 div 4
              \<and> currentAgreeTime < previousAgreeTime + ledgerMIN_CONSENSUS parms then No
      else if checkConsensusReached currentAgree currentProposers proposing (minCONSENSUS_PCT parms)
                (ledgerMAX_CONSENSUS parms < currentAgreeTime) is_stalled then Yes
      else if checkConsensusReached currentFinished currentProposers False (minCONSENSUS_PCT parms)
                (ledgerMAX_CONSENSUS parms < currentAgreeTime) False then MovedOn
      else let maxAgreeTime = previousAgreeTime * int (ledgerABANDON_CONSENSUS_FACTOR parms)
           in if clamp maxAgreeTime (ledgerMAX_CONSENSUS parms) (ledgerABANDON_CONSENSUS parms)
                   < currentAgreeTime
              then Expired else No)"

section \<open>Lemmas\<close>

lemma pct_div_nat:
  assumes "0 < (t :: nat)"
  shows "p \<le> a * 100 div t \<longleftrightarrow> p * t \<le> a * 100"
  using assms by (simp add: less_eq_div_iff_mult_less_eq)

lemma checkConsensusReached_iff:
  "checkConsensusReached agreeing peers self pct reachedMax st \<longleftrightarrow>
     (if peers = 0 then reachedMax
      else st \<or> pct * (peers + (if self then 1 else 0)) \<le> 100 * (agreeing + (if self then 1 else 0)))"
  by (auto simp: checkConsensusReached_def Let_def pct_div_nat mult.commute [of 100])

lemma clamp_upper: "lo \<le> hi \<Longrightarrow> clamp v lo hi \<le> hi"
  by (simp add: clamp_def)

text \<open>Two subsets of a finite set overlap in at least the sum of their sizes beyond the whole.\<close>

lemma card_Int_lower:
  assumes "finite U" and "A \<subseteq> U" and "B \<subseteq> U"
  shows "card A + card B \<le> card U + card (A \<inter> B)"
proof -
  have "card A + card B = card (A \<union> B) + card (A \<inter> B)"
    using assms by (intro card_Un_Int) (auto intro: finite_subset)
  moreover have "card (A \<union> B) \<le> card U"
    using assms by (intro card_mono) auto
  ultimately show ?thesis by simp
qed

section \<open>Properties\<close>

text \<open>
  What it takes to declare consensus with the built-in parameters: at least 1950 ms have
  passed; most of the previous proposers are back or the round outlasted the previous one; and either
  at least 67% of the proposers (counting ourselves if we propose) hold our position, or every
  dispute has stalled, or nobody else proposed for more than 15 s. Conversely these are sufficient.
\<close>

theorem checkConsensus_Yes_iff:
  "checkConsensus prevProposers currentProposers currentAgree currentFinished prevTime time st
     consensusParms proposing = Yes \<longleftrightarrow>
   1950 < time
   \<and> (prevProposers * 3 div 4 \<le> currentProposers \<or> prevTime + 1950 \<le> time)
   \<and> (if currentProposers = 0 then 15000 < time
      else st \<or> 67 * (currentProposers + (if proposing then 1 else 0))
                   \<le> 100 * (currentAgree + (if proposing then 1 else 0)))"
  by (auto simp: checkConsensus_def checkConsensusReached_iff Let_def)

text \<open>
  A round is bounded in time: once more than 120 s have passed, and at least 1950 ms more
  than the previous round took, \<^verbatim>\<open>checkConsensus\<close> never answers "no consensus yet" again, whatever
  the peers do.
\<close>

theorem checkConsensus_bounded:
  assumes "120000 < time" and "prevTime + 1950 \<le> time"
  shows "checkConsensus prevProposers currentProposers currentAgree currentFinished prevTime time st
     consensusParms proposing \<noteq> No"
proof -
  have "clamp (prevTime * 10) 15000 120000 < time"
    using clamp_upper [of 15000 120000 "prevTime * 10"] assms by linarith
  then show ?thesis
    using assms by (simp add: checkConsensus_def Let_def)
qed

text \<open>
  C30. Agreements overlap. If two positions \<open>A\<close> and \<open>B\<close> (sets of validators among \<open>U\<close>) each pass the
  threshold check on the same validator set, without the escape for stalled or lonely rounds, then
  they share at least 34% of the validators; so if fewer than 34% are faulty, an honest validator
  holds both positions, and two conflicting transaction sets cannot both reach consensus.
\<close>

theorem agreements_share_honest_validator:
  assumes "finite U" and "A \<subseteq> U" and "B \<subseteq> U" and "U \<noteq> {}"
    and "checkConsensusReached (card A) (card U) False (minCONSENSUS_PCT consensusParms) maxA False"
    and "checkConsensusReached (card B) (card U) False (minCONSENSUS_PCT consensusParms) maxB False"
    and "100 * card F < 34 * card U" and "finite F"
  shows "34 * card U \<le> 100 * card (A \<inter> B) \<and> (\<exists>v. v \<in> A \<and> v \<in> B \<and> v \<notin> F)"
proof -
  have "card U \<noteq> 0"
    using assms(1,4) by simp
  then have "67 * card U \<le> 100 * card A" "67 * card U \<le> 100 * card B"
    using assms(5,6) by (simp_all add: checkConsensusReached_iff)
  then have overlap: "34 * card U \<le> 100 * card (A \<inter> B)"
    using card_Int_lower [OF assms(1-3)] by linarith
  then have "card F < card (A \<inter> B)"
    using assms(7) by linarith
  then have "\<not> A \<inter> B \<subseteq> F"
    using card_mono [OF assms(8)] by (meson leD)
  with overlap show ?thesis by blast
qed

theorem agreements_share_honest_validator_witness:
  "\<exists>v. v \<in> {1, 2, 3 :: nat} \<and> v \<in> {2, 3, 4} \<and> v \<notin> {2 :: nat}"
  using agreements_share_honest_validator
    [of "{1, 2, 3, 4 :: nat}" "{1, 2, 3}" "{2, 3, 4}" False False "{2}"]
  by (simp add: checkConsensusReached_iff)

text \<open>
  When the open ledger closes. On plausible clocks and with the built-in parameters: as soon as more than half as
  many peers as proposed last time have closed or validated; else, without transactions, exactly
  when the idle interval is over; else exactly when the ledger was open for 2 s and for half
  the previous round.
\<close>

theorem shouldCloseLedger_iff:
  assumes "- 1000 \<le> prevRoundTime" and "prevRoundTime \<le> 600000" and "timeSincePrevClose \<le> 600000"
  shows "shouldCloseLedger anyTx prevProposers closed validated prevRoundTime timeSincePrevClose
      openTime idleInterval consensusParms \<longleftrightarrow>
    prevProposers < 2 * (closed + validated)
    \<or> (if anyTx then 2000 \<le> openTime \<and> prevRoundTime \<le> 2 * openTime + 1
       else idleInterval \<le> timeSincePrevClose)"
proof -
  have "prevProposers div 2 < closed + validated \<longleftrightarrow> prevProposers < 2 * (closed + validated)"
    by presburger
  moreover have "2000 \<le> openTime \<Longrightarrow> prevRoundTime sdiv 2 \<le> openTime \<longleftrightarrow> prevRoundTime \<le> 2 * openTime + 1"
    by (cases "0 \<le> prevRoundTime") (auto simp: signed_divide_int_def sgn_if)
  ultimately show ?thesis
    using assms by (auto simp: shouldCloseLedger_def)
qed

end
