(* ===== verification/Ledger_Timing.thy ===== *)
theory Ledger_Timing
  imports Prelude
begin

text \<open>
  Ledger close times, \<^verbatim>\<open>src/xrpld/consensus/LedgerTiming.h\<close>. A \<^verbatim>\<open>NetClock\<close> time point and
  its durations count seconds in a 32-bit unsigned integer, so both are \<open>u32\<close> and addition
  wraps; the zero time point means "no close time".

  The lemmas show that the resolution never leaves the table of possible resolutions and moves
  by at most one bin, that rounding gives the nearest multiple, and that effective close times
  strictly increase from ledger to ledger.
\<close>

section \<open>Definitions\<close>

definition ledgerPossibleTimeResolutions :: "u32 list" where
  "ledgerPossibleTimeResolutions = [10, 20, 30, 60, 90, 120]"

definition ledgerDefaultTimeResolution :: u32 where
  "ledgerDefaultTimeResolution = ledgerPossibleTimeResolutions ! 2"

definition ledgerGenesisTimeResolution :: u32 where
  "ledgerGenesisTimeResolution = ledgerPossibleTimeResolutions ! 0"

definition increaseLedgerTimeResolutionEvery :: u32 where
  "increaseLedgerTimeResolutionEvery = 8"

definition decreaseLedgerTimeResolutionEvery :: u32 where
  "decreaseLedgerTimeResolutionEvery = 1"

text \<open>\<^verbatim>\<open>std::find\<close>: the position of the first match, the length of the list if there is none.\<close>

fun find_index :: "'a \<Rightarrow> 'a list \<Rightarrow> nat" where
  "find_index x [] = 0"
| "find_index x (y # ys) = (if y = x then 0 else Suc (find_index x ys))"

definition getNextLedgerTimeResolution :: "u32 \<Rightarrow> bool \<Rightarrow> u32 \<Rightarrow> u32" where
  "getNextLedgerTimeResolution previousResolution previousAgree ledgerSeq =
     (let tab = ledgerPossibleTimeResolutions;
          iter = find_index previousResolution tab
      in if iter = length tab then previousResolution
         else if \<not> previousAgree \<and> ledgerSeq mod decreaseLedgerTimeResolutionEvery = 0
                 \<and> Suc iter \<noteq> length tab
         then tab ! Suc iter
         else if previousAgree \<and> ledgerSeq mod increaseLedgerTimeResolutionEvery = 0 \<and> iter \<noteq> 0
         then tab ! (iter - 1)
         else previousResolution)"

definition roundCloseTime :: "u32 \<Rightarrow> u32 \<Rightarrow> u32" where
  "roundCloseTime closeTime closeResolution =
     (if closeTime = 0 then closeTime
      else let t = closeTime + closeResolution div 2 in t - t mod closeResolution)"

definition effCloseTime :: "u32 \<Rightarrow> u32 \<Rightarrow> u32 \<Rightarrow> u32" where
  "effCloseTime closeTime resolution priorCloseTime =
     (if closeTime = 0 then closeTime
      else max (roundCloseTime closeTime resolution) (priorCloseTime + 1))"

text \<open>The resolutions of a chain of ledgers: each ledger's agreement and sequence decide the next.\<close>

fun resolution_run :: "u32 \<Rightarrow> (bool \<times> u32) list \<Rightarrow> u32" where
  "resolution_run r [] = r"
| "resolution_run r ((agree, seq) # ls) = resolution_run (getNextLedgerTimeResolution r agree seq) ls"

section \<open>Lemmas\<close>

abbreviation valid_resolution :: "u32 \<Rightarrow> bool" where
  "valid_resolution r \<equiv> r \<in> set ledgerPossibleTimeResolutions"

lemma find_index_in: "x \<in> set xs \<Longrightarrow> find_index x xs < length xs \<and> xs ! find_index x xs = x"
  by (induction xs) auto

lemma find_index_nth: "distinct xs \<Longrightarrow> i < length xs \<Longrightarrow> find_index (xs ! i) xs = i"
  by (induction xs arbitrary: i) (auto simp: nth_Cons split: nat.splits)

lemma next_resolution_valid [inv_intros]:
  assumes "valid_resolution r"
  shows "valid_resolution (getNextLedgerTimeResolution r agree seq)"
proof -
  have "find_index r ledgerPossibleTimeResolutions < length ledgerPossibleTimeResolutions"
    using find_index_in [OF assms] by blast
  then show ?thesis
    using assms by (auto simp: getNextLedgerTimeResolution_def Let_def)
qed

lemma resolution_run_valid:
  "valid_resolution r \<Longrightarrow> valid_resolution (resolution_run r ls)"
  by (induction r ls rule: resolution_run.induct) (auto intro: next_resolution_valid)

lemma distinct_resolutions: "distinct ledgerPossibleTimeResolutions"
  by (simp add: ledgerPossibleTimeResolutions_def)

lemma length_resolutions [simp]: "length ledgerPossibleTimeResolutions = 6"
  by (simp add: ledgerPossibleTimeResolutions_def)

lemma next_resolution_bin:
  assumes "i < length ledgerPossibleTimeResolutions"
  shows "getNextLedgerTimeResolution (ledgerPossibleTimeResolutions ! i) agree seq =
    ledgerPossibleTimeResolutions !
      (if \<not> agree then min (Suc i) 5
       else if seq mod 8 = 0 then i - 1 else i)"
  using assms
  by (auto simp: getNextLedgerTimeResolution_def Let_def find_index_nth [OF distinct_resolutions]
      increaseLedgerTimeResolutionEvery_def decreaseLedgerTimeResolutionEvery_def min_def
      intro!: arg_cong [where f = "nth ledgerPossibleTimeResolutions"])

lemma unat_roundCloseTime:
  assumes "t \<noteq> 0" and "0 < r" and "unat t + unat r div 2 < 2 ^ 32"
  shows "unat (roundCloseTime t r) =
    (unat t + unat r div 2) - (unat t + unat r div 2) mod unat r"
proof -
  have s: "unat (t + r div 2) = unat t + unat r div 2"
    using assms(3) by (simp add: unat_add_lem [THEN iffD1] unat_div)
  have "unat ((t + r div 2) mod r) = unat (t + r div 2) mod unat r"
    by (simp add: unat_mod)
  moreover have "(t + r div 2) mod r \<le> t + r div 2"
    by (simp add: word_le_nat_alt unat_mod)
  ultimately show ?thesis
    using assms(1) s by (simp add: roundCloseTime_def Let_def unat_sub)
qed

lemma nearest_multiple:
  fixes t r m :: int
  assumes "0 < r"
  defines "s \<equiv> t + r div 2"
  defines "u \<equiv> s - s mod r"
  shows "r dvd u" and "2 * \<bar>u - t\<bar> \<le> r" and "r dvd m \<Longrightarrow> \<bar>u - t\<bar> \<le> \<bar>m - t\<bar>"
proof -
  show d: "r dvd u"
    by (simp add: u_def flip: minus_mod_eq_mult_div)
  have m: "0 \<le> s mod r" "s mod r < r"
    using assms(1) by simp_all
  have ut: "u - t = r div 2 - s mod r"
    by (simp add: u_def s_def)
  show b: "2 * \<bar>u - t\<bar> \<le> r"
    using m ut minus_mod_eq_mult_div [of r 2] by (simp add: abs_if) linarith
  show "\<bar>u - t\<bar> \<le> \<bar>m - t\<bar>" if "r dvd m"
  proof (cases "m = u")
    case False
    from d that have "r dvd m - u" by simp
    with False have "r \<le> \<bar>m - u\<bar>"
      using zdvd_imp_le [of r "\<bar>m - u\<bar>"] assms(1) by auto
    moreover have "\<bar>m - u\<bar> \<le> \<bar>m - t\<bar> + \<bar>u - t\<bar>"
      by (simp add: abs_if)
    moreover have "a \<le> c" if "r \<le> e" "e \<le> c + a" "2 * a \<le> r" for a c e :: int
      using that by linarith
    ultimately show ?thesis using b by blast
  qed simp
qed

section \<open>Properties\<close>

text \<open>
  Whatever the agreement and the sequence numbers of the ledgers of a chain, the close time
  resolution stays one of the possible resolutions, and one step moves it by at most one bin:
  to the next coarser bin (if there is one) after a disagreement, to the next finer bin (if there
  is one) after an agreement on every eighth ledger.
\<close>

theorem resolution_stays_in_table:
  assumes "valid_resolution r"
  shows "valid_resolution (resolution_run r ls)
    \<and> (\<exists>i j. i < 6 \<and> j < 6 \<and> r = ledgerPossibleTimeResolutions ! i
      \<and> getNextLedgerTimeResolution r agree seq = ledgerPossibleTimeResolutions ! j
      \<and> j = (if \<not> agree then min (i + 1) 5 else if seq mod 8 = 0 then i - 1 else i))"
proof -
  from assms obtain i where "i < 6" "r = ledgerPossibleTimeResolutions ! i"
    by (metis in_set_conv_nth length_resolutions)
  then show ?thesis
    using resolution_run_valid [OF assms]
    by (intro conjI exI [of _ i]
          exI [of _ "if \<not> agree then min (i + 1) 5 else if seq mod 8 = 0 then i - 1 else i"])
       (auto simp: next_resolution_bin)
qed

text \<open>
  \<^verbatim>\<open>roundCloseTime\<close> returns the multiple of the resolution nearest to the close time, provided
  adding half the resolution does not overflow the 32-bit clock: the result is a multiple, it is at
  most half a resolution away, and no other multiple is closer.
\<close>

theorem roundCloseTime_nearest:
  assumes "t \<noteq> 0" and "0 < r" and "unat t + unat r div 2 < 2 ^ 32"
  shows "unat r dvd unat (roundCloseTime t r)
    \<and> 2 * \<bar>int (unat (roundCloseTime t r)) - int (unat t)\<bar> \<le> int (unat r)
    \<and> (\<forall>m. unat r dvd m \<longrightarrow>
         \<bar>int (unat (roundCloseTime t r)) - int (unat t)\<bar> \<le> \<bar>int m - int (unat t)\<bar>)"
proof -
  have "0 < unat r"
    using assms(2) by (simp add: word_less_nat_alt)
  then have pos: "0 < int (unat r)"
    by (simp only: of_nat_0_less_iff)
  have e: "int (unat (roundCloseTime t r)) =
      (int (unat t) + int (unat r) div 2) - (int (unat t) + int (unat r) div 2) mod int (unat r)"
    unfolding unat_roundCloseTime [OF assms]
    by (simp add: of_nat_diff zdiv_int zmod_int)
  show ?thesis
    using nearest_multiple [OF pos, where t = "int (unat t)"] unfolding e [symmetric]
    by (auto simp flip: int_dvd_int_iff)
qed

text \<open>
  The effective close time of a ledger that has one is later than the close time of the ledger
  before it (unless that one already is the last representable second), whatever the resolution.
\<close>

theorem effCloseTime_increases:
  assumes "closeTime \<noteq> 0" and "priorCloseTime \<noteq> - 1"
  shows "priorCloseTime < effCloseTime closeTime resolution priorCloseTime"
proof -
  have "1 + priorCloseTime \<noteq> 0"
    using assms(2) by (metis add.commute eq_neg_iff_add_eq_0)
  then have "priorCloseTime < priorCloseTime + 1"
    by (simp add: word_less_nat_alt unatSuc add.commute [of priorCloseTime])
  then show ?thesis
    using assms(1) by (simp add: effCloseTime_def less_max_iff_disj)
qed

end
