(* ===== verification/Consensus_Round.thy ===== *)
theory Consensus_Round
  imports Consensus_Decision Ledger_Timing "HOL-Library.Log_Nat"
begin

text \<open>
  The state machine of a consensus round (\<^verbatim>\<open>src/xrpld/consensus/Consensus.h\<close>) with the proposals and results it
  works on (\<^verbatim>\<open>ConsensusProposal.h\<close>, \<^verbatim>\<open>ConsensusTypes.h\<close>), on the types of the server (\<^verbatim>\<open>RCLConsensus\<close>).

  \<^item> A transaction stands for its identifier, a transaction set for the set of its identifiers. The hash of a set is the
    function \<open>setID\<close> of the adaptor. \<^verbatim>\<open>RCLTxSet::compare\<close> lists at most 65536 differences; the model covers sets
    that differ in fewer.
  \<^item> The queries of the adaptor (ledgers, transaction sets, counts of proposers, clocks) are the fields of a record: their
    answers during one operation. Its notifications (proposals, shared sets, mode changes, acceptance) are events
    appended to the state.
  \<^item> Network times are 32-bit words as in the code; the steady clock is an \<open>int\<close> of nanoseconds and stands still
    during one operation.
  \<^item> \<open>None\<close> stands for a failed look-up of an avalanche state (an exception), and for running out of the bound on the
    recursion of \<^verbatim>\<open>timerEntry\<close> through \<^verbatim>\<open>startRoundInternal\<close>.
\<close>

section \<open>Types\<close>

datatype ConsensusMode = cm_proposing | cm_observing | cm_wrongLedger | cm_switchedLedger

datatype ConsensusPhase = cp_open | cp_establish | cp_accepted

type_synonym TxID = uint256
type_synonym TxSet = "TxID set"

record ConsensusProposal =
  pr_previousLedger :: uint256
  pr_position :: uint256
  pr_closeTime :: u32
  pr_time :: u32
  pr_proposeSeq :: u32
  pr_nodeID :: NodeID

definition seqJoin :: u32 where
  "seqJoin = 0"

definition seqLeave :: u32 where
  "seqLeave = 0xffffffff"

definition isInitial :: "ConsensusProposal \<Rightarrow> bool" where
  "isInitial p \<longleftrightarrow> pr_proposeSeq p = seqJoin"

definition isBowOut :: "ConsensusProposal \<Rightarrow> bool" where
  "isBowOut p \<longleftrightarrow> pr_proposeSeq p = seqLeave"

definition isStale :: "u32 \<Rightarrow> ConsensusProposal \<Rightarrow> bool" where
  "isStale cutoff p \<longleftrightarrow> pr_time p \<le> cutoff"

definition changePosition :: "uint256 \<Rightarrow> u32 \<Rightarrow> u32 \<Rightarrow> ConsensusProposal \<Rightarrow> ConsensusProposal" where
  "changePosition newPos newCloseTime now p =
     (let p = p\<lparr>pr_position := newPos, pr_closeTime := newCloseTime, pr_time := now\<rparr>
      in if pr_proposeSeq p \<noteq> seqLeave then p\<lparr>pr_proposeSeq := pr_proposeSeq p + 1\<rparr> else p)"

definition bowOut :: "u32 \<Rightarrow> ConsensusProposal \<Rightarrow> ConsensusProposal" where
  "bowOut now p = p\<lparr>pr_time := now, pr_proposeSeq := seqLeave\<rparr>"

record ConsensusTimer =
  tm_start :: int
  tm_dur :: int

definition timer_reset :: "int \<Rightarrow> ConsensusTimer" where
  "timer_reset tp = \<lparr>tm_start = tp, tm_dur = 0\<rparr>"

definition timer_tick :: "int \<Rightarrow> ConsensusTimer \<Rightarrow> ConsensusTimer" where
  "timer_tick tp t = t\<lparr>tm_dur := (tp - tm_start t) sdiv 1000000\<rparr>"

definition timer_tick_fixed :: "int \<Rightarrow> ConsensusTimer \<Rightarrow> ConsensusTimer" where
  "timer_tick_fixed fixed t = t\<lparr>tm_dur := tm_dur t + fixed\<rparr>"

record CxLedger =
  cl_id :: uint256
  cl_seq :: u32
  cl_closeTimeResolution :: u32
  cl_closeAgree :: bool
  cl_closeTime :: u32
  cl_parentCloseTime :: u32

record ConsensusCloseTimes =
  ct_peers :: "(u32 \<times> nat) list"
  ct_self :: u32

record ConsensusResult =
  rs_txns :: TxSet
  rs_position :: ConsensusProposal
  rs_disputes :: "(TxID \<times> (TxID, NodeID) DisputedTx) list"
  rs_compares :: "uint256 list"
  rs_roundTime :: ConsensusTimer
  rs_state :: ConsensusState
  rs_proposers :: nat

definition new_ConsensusResult :: "TxSet \<Rightarrow> ConsensusProposal \<Rightarrow> ConsensusResult" where
  "new_ConsensusResult s p = \<lparr>rs_txns = s, rs_position = p, rs_disputes = [], rs_compares = [],
     rs_roundTime = timer_reset 0, rs_state = No, rs_proposers = 0\<rparr>"

datatype ConsensusEvent =
    ev_modeChange ConsensusMode ConsensusMode
  | ev_propose ConsensusProposal
  | ev_sharePosition ConsensusProposal
  | ev_shareTx TxID
  | ev_shareSet TxSet
  | ev_operatingMode nat
  | ev_accept ConsensusResult CxLedger u32 ConsensusCloseTimes ConsensusMode bool
  | ev_forceAccept ConsensusResult CxLedger u32 ConsensusCloseTimes ConsensusMode

record Adaptor =
  ad_parms :: ConsensusParms
  ad_clock :: int
  setID :: "TxSet \<Rightarrow> uint256"
  acquireLedger :: "uint256 \<Rightarrow> CxLedger option"
  acquireTxSet :: "uint256 \<Rightarrow> TxSet option"
  hasOpenTransactions :: bool
  proposersValidated :: "uint256 \<Rightarrow> nat"
  proposersFinished :: "CxLedger \<Rightarrow> uint256 \<Rightarrow> nat"
  getPrevLedger :: "uint256 \<Rightarrow> CxLedger \<Rightarrow> ConsensusMode \<Rightarrow> uint256"
  onClose :: "CxLedger \<Rightarrow> u32 \<Rightarrow> ConsensusMode \<Rightarrow> TxSet \<times> ConsensusProposal"
  getValidLedgerIndex :: u32
  getQuorumKeys :: "nat \<times> PublicKey list"
  ad_laggards :: "u32 \<Rightarrow> PublicKey list \<Rightarrow> nat \<times> PublicKey list"
  ad_validator :: bool
  haveValidated :: bool
  ad_validating :: bool

record Consensus =
  cs_phase :: ConsensusPhase
  cs_mode :: ConsensusMode
  cs_firstRound :: bool
  cs_haveCloseTimeConsensus :: bool
  cs_convergePercent :: int
  cs_openTime :: ConsensusTimer
  cs_closeResolution :: u32
  cs_closeTimeAvalancheState :: AvalancheState
  cs_prevRoundTime :: int
  cs_now :: u32
  cs_prevCloseTime :: u32
  cs_prevLedgerID :: uint256
  cs_previousLedger :: CxLedger
  cs_acquired :: "(uint256 \<times> TxSet) list"
  cs_result :: "ConsensusResult option"
  cs_rawCloseTimes :: ConsensusCloseTimes
  cs_peerUnchangedCounter :: nat
  cs_establishCounter :: nat
  cs_currPeerPositions :: "(NodeID \<times> ConsensusProposal) list"
  cs_recentPeerPositions :: "(NodeID \<times> ConsensusProposal list) list"
  cs_prevProposers :: nat
  cs_deadNodes :: "NodeID list"
  cs_events :: "ConsensusEvent list"

definition new_Consensus :: "CxLedger \<Rightarrow> Consensus" where
  "new_Consensus seed = \<lparr>cs_phase = cp_accepted, cs_mode = cm_observing, cs_firstRound = True,
     cs_haveCloseTimeConsensus = False, cs_convergePercent = 0, cs_openTime = timer_reset 0,
     cs_closeResolution = ledgerDefaultTimeResolution, cs_closeTimeAvalancheState = av_init, cs_prevRoundTime = 0,
     cs_now = 0, cs_prevCloseTime = 0, cs_prevLedgerID = 0, cs_previousLedger = seed, cs_acquired = [],
     cs_result = None, cs_rawCloseTimes = \<lparr>ct_peers = [], ct_self = 0\<rparr>, cs_peerUnchangedCounter = 0,
     cs_establishCounter = 0, cs_currPeerPositions = [], cs_recentPeerPositions = [], cs_prevProposers = 0,
     cs_deadNodes = [], cs_events = []\<rparr>"

section \<open>Events and modes\<close>

definition emit :: "ConsensusEvent \<Rightarrow> Consensus \<Rightarrow> Consensus" where
  "emit e c = c\<lparr>cs_events := cs_events c @ [e]\<rparr>"

definition set_mode :: "ConsensusMode \<Rightarrow> Consensus \<Rightarrow> Consensus" where
  "set_mode m c = (emit (ev_modeChange (cs_mode c) m) c)\<lparr>cs_mode := m\<rparr>"

definition asCloseTime :: "Consensus \<Rightarrow> u32 \<Rightarrow> u32" where
  "asCloseTime c raw = roundCloseTime raw (cs_closeResolution c)"

definition leaveConsensus :: "Consensus \<Rightarrow> Consensus" where
  "leaveConsensus c =
     (if cs_mode c = cm_proposing
      then let c1 = (case cs_result c of
                       Some r \<Rightarrow>
                         if \<not> isBowOut (rs_position r)
                         then let p = bowOut (cs_now c) (rs_position r)
                              in emit (ev_propose p) (c\<lparr>cs_result := Some (r\<lparr>rs_position := p\<rparr>)\<rparr>)
                         else c
                     | None \<Rightarrow> c)
           in set_mode cm_observing c1
      else c)"

section \<open>Disputes\<close>

text \<open>The votes of the peers whose sets are known, on a new dispute; the flag tells whether any was new.\<close>

definition peer_votes ::
  "(uint256 \<times> TxSet) list \<Rightarrow> (NodeID \<times> ConsensusProposal) list \<Rightarrow> TxID \<Rightarrow> (TxID, NodeID) DisputedTx
     \<Rightarrow> bool \<times> (TxID, NodeID) DisputedTx" where
  "peer_votes acquired peers txID dtx =
     fold (\<lambda>(nodeId, peerProp) (changed, d).
             case map_of acquired (pr_position peerProp) of
               None \<Rightarrow> (changed, d)
             | Some s \<Rightarrow> (let (v, d') = setVote nodeId (txID \<in> s) d in (changed \<or> v, d')))
       peers (False, dtx)"

definition dispute_step :: "TxID \<Rightarrow> ConsensusResult \<times> Consensus \<Rightarrow> ConsensusResult \<times> Consensus" where
  "dispute_step txID = (\<lambda>(r, c).
     if txID \<in> keys (rs_disputes r) then (r, c)
     else let (changed, dtx) = peer_votes (cs_acquired c) (cs_currPeerPositions c) txID
                                 (new_DisputedTx txID (txID \<in> rs_txns r));
              c1 = (if changed then c\<lparr>cs_peerUnchangedCounter := 0\<rparr> else c)
          in (r\<lparr>rs_disputes := rs_disputes r @ [(txID, dtx)]\<rparr>, emit (ev_shareTx txID) c1))"

definition createDisputes :: "Adaptor \<Rightarrow> TxSet \<Rightarrow> ConsensusResult \<Rightarrow> Consensus \<Rightarrow> ConsensusResult \<times> Consensus" where
  "createDisputes ad o' r c =
     (if setID ad o' \<in> set (rs_compares r) then (r, c)
      else let r1 = r\<lparr>rs_compares := setID ad o' # rs_compares r\<rparr>
           in if setID ad (rs_txns r1) = setID ad o' then (r1, c)
              else fold dispute_step (sorted_list_of_set (rs_txns r1 - o' \<union> (o' - rs_txns r1))) (r1, c))"

definition updateDisputes ::
  "Adaptor \<Rightarrow> NodeID \<Rightarrow> TxSet \<Rightarrow> ConsensusResult \<Rightarrow> Consensus \<Rightarrow> ConsensusResult \<times> Consensus" where
  "updateDisputes ad node other r c =
     (let (r1, c1) = (if setID ad other \<notin> set (rs_compares r) then createDisputes ad other r c else (r, c));
          voted = map (\<lambda>(txID, d). (txID, setVote node (disputed_tx d \<in> other) d)) (rs_disputes r1)
      in (r1\<lparr>rs_disputes := map (\<lambda>(txID, _, d). (txID, d)) voted\<rparr>,
          if list_ex (\<lambda>(_, changed, _). changed) voted then c1\<lparr>cs_peerUnchangedCounter := 0\<rparr> else c1))"

text \<open>Dispute the positions of the given peers that propose the set \<open>s\<close>.\<close>

definition update_proposers ::
  "Adaptor \<Rightarrow> TxSet \<Rightarrow> (NodeID \<times> ConsensusProposal) list \<Rightarrow> ConsensusResult \<times> Consensus
     \<Rightarrow> ConsensusResult \<times> Consensus" where
  "update_proposers ad s peers rc =
     fold (\<lambda>(nodeId, p) (r, c). if pr_position p = setID ad s then updateDisputes ad nodeId s r c else (r, c)) peers rc"

definition store_result :: "ConsensusResult \<times> Consensus \<Rightarrow> Consensus" where
  "store_result rc = (snd rc)\<lparr>cs_result := Some (fst rc)\<rparr>"

definition gotTxSet :: "Adaptor \<Rightarrow> u32 \<Rightarrow> TxSet \<Rightarrow> Consensus \<Rightarrow> Consensus" where
  "gotTxSet ad now txSet c =
     (if cs_phase c = cp_accepted then c
      else let c = c\<lparr>cs_now := now\<rparr>
           in if setID ad txSet \<in> keys (cs_acquired c) then c
              else let c = c\<lparr>cs_acquired := (setID ad txSet, txSet) # cs_acquired c\<rparr>
                   in case cs_result c of
                        None \<Rightarrow> c
                      | Some r \<Rightarrow> store_result (update_proposers ad txSet (cs_currPeerPositions c) (r, c)))"

section \<open>Proposals of peers\<close>

text \<open>The last two parts of \<^verbatim>\<open>peerProposalInternal\<close>: a peer leaves the round, or its new position is recorded.\<close>

definition peer_bows_out :: "NodeID \<Rightarrow> Consensus \<Rightarrow> Consensus" where
  "peer_bows_out peerID c =
     c\<lparr>cs_result := map_option (\<lambda>r. r\<lparr>rs_disputes := map (\<lambda>(i, d). (i, unVote peerID d)) (rs_disputes r)\<rparr>) (cs_result c),
       cs_currPeerPositions := AList.delete peerID (cs_currPeerPositions c),
       cs_deadNodes := peerID # cs_deadNodes c\<rparr>"

definition record_position :: "Adaptor \<Rightarrow> ConsensusProposal \<Rightarrow> Consensus \<Rightarrow> Consensus" where
  "record_position ad p c =
     (let c = c\<lparr>cs_currPeerPositions := AList.update (pr_nodeID p) p (cs_currPeerPositions c)\<rparr>;
          c = (if isInitial p
               then c\<lparr>cs_rawCloseTimes := (cs_rawCloseTimes c)
                        \<lparr>ct_peers := increment_at (pr_closeTime p) (ct_peers (cs_rawCloseTimes c))\<rparr>\<rparr>
               else c)
      in case map_of (cs_acquired c) (pr_position p) of
           None \<Rightarrow> (case acquireTxSet ad (pr_position p) of
                      Some s \<Rightarrow> gotTxSet ad (cs_now c) s c
                    | None \<Rightarrow> c)
         | Some s \<Rightarrow> (case cs_result c of
                       Some r \<Rightarrow> store_result (updateDisputes ad (pr_nodeID p) s r c)
                     | None \<Rightarrow> c))"

definition peerProposalInternal :: "Adaptor \<Rightarrow> u32 \<Rightarrow> ConsensusProposal \<Rightarrow> Consensus \<Rightarrow> bool \<times> Consensus" where
  "peerProposalInternal ad now p c =
     (if cs_phase c = cp_accepted then (False, c)
      else let c = c\<lparr>cs_now := now\<rparr>; peerID = pr_nodeID p in
        if pr_previousLedger p \<noteq> cs_prevLedgerID c then (False, c)
        else if peerID \<in> set (cs_deadNodes c) then (False, c)
        else if (case map_of (cs_currPeerPositions c) peerID of
                   Some old \<Rightarrow> pr_proposeSeq p \<le> pr_proposeSeq old | None \<Rightarrow> False) then (False, c)
        else if isBowOut p then (True, peer_bows_out peerID c)
        else (True, record_position ad p c))"

definition peerProposal :: "Adaptor \<Rightarrow> u32 \<Rightarrow> ConsensusProposal \<Rightarrow> Consensus \<Rightarrow> bool \<times> Consensus" where
  "peerProposal ad now p c =
     (let props = (case map_of (cs_recentPeerPositions c) (pr_nodeID p) of None \<Rightarrow> [] | Some ps \<Rightarrow> ps);
          props = (if 10 \<le> length props then tl props else props)
      in peerProposalInternal ad now p
           (c\<lparr>cs_recentPeerPositions := AList.update (pr_nodeID p) (props @ [p]) (cs_recentPeerPositions c)\<rparr>))"

definition playbackProposals :: "Adaptor \<Rightarrow> Consensus \<Rightarrow> Consensus" where
  "playbackProposals ad c =
     fold (\<lambda>p c. if pr_previousLedger p = cs_prevLedgerID c
                 then let (relay, c') = peerProposalInternal ad (cs_now c) p c
                      in if relay then emit (ev_sharePosition p) c' else c'
                 else c)
       (concat (map snd (cs_recentPeerPositions c))) c"

section \<open>The phases\<close>

definition closeLedger :: "Adaptor \<Rightarrow> Consensus \<Rightarrow> Consensus" where
  "closeLedger ad c =
     (let rct = (cs_rawCloseTimes c)\<lparr>ct_self := cs_now c\<rparr>;
          c = c\<lparr>cs_phase := cp_establish, cs_rawCloseTimes := rct, cs_peerUnchangedCounter := 0, cs_establishCounter := 0\<rparr>;
          (txns, position) = onClose ad (cs_previousLedger c) (cs_now c) (cs_mode c);
          r = (new_ConsensusResult txns position)\<lparr>rs_roundTime := timer_reset (ad_clock ad)\<rparr>;
          c = (if setID ad txns \<in> keys (cs_acquired c) then c
               else emit (ev_shareSet txns) (c\<lparr>cs_acquired := (setID ad txns, txns) # cs_acquired c\<rparr>));
          c = (if cs_mode c = cm_proposing then emit (ev_propose position) c else c)
      in store_result
           (fold (\<lambda>(_, p) (r, c). case map_of (cs_acquired c) (pr_position p) of
                                    Some s \<Rightarrow> createDisputes ad s r c
                                  | None \<Rightarrow> (r, c))
              (cs_currPeerPositions c) (r, c)))"

definition phaseOpen :: "Adaptor \<Rightarrow> Consensus \<Rightarrow> Consensus" where
  "phaseOpen ad c =
     (let c = c\<lparr>cs_openTime := timer_tick (ad_clock ad) (cs_openTime c)\<rparr>;
          prev = cs_previousLedger c;
          previousCloseCorrect = (cs_mode c \<noteq> cm_wrongLedger \<and> cl_closeAgree prev
             \<and> uint (cl_closeTime prev) \<noteq> uint (cl_parentCloseTime prev) + 1);
          lastCloseTime = (if previousCloseCorrect then cl_closeTime prev else cs_prevCloseTime c);
          sinceClose = (uint (cs_now c) - uint lastCloseTime) * 1000;
          idleInterval = max (ledgerIDLE_INTERVAL (ad_parms ad)) (uint (2 * cl_closeTimeResolution prev) * 1000)
      in if shouldCloseLedger (hasOpenTransactions ad) (cs_prevProposers c) (length (cs_currPeerPositions c))
              (proposersValidated ad (cs_prevLedgerID c)) (cs_prevRoundTime c) sinceClose (tm_dur (cs_openTime c))
              idleInterval (ad_parms ad)
         then closeLedger ad c else c)"

text \<open>
  Single precision numbers, for the ratios of \<^verbatim>\<open>shouldPause\<close>: the nearest number with 24 significant bits, to even
  on a tie. The values occurring are zero or at least \<open>2\<^sup>-\<^sup>6\<^sup>4\<close>, so no exponent underflows.
\<close>

definition round_even :: "rat \<Rightarrow> int" where
  "round_even x =
     (let f = \<lfloor>x\<rfloor>; d = x - of_int f
      in if d < 1 / 2 then f else if 1 / 2 < d then f + 1 else if even f then f else f + 1)"

definition float32 :: "rat \<Rightarrow> rat" where
  "float32 x =
     (if x = 0 then 0
      else let (a, b) = quotient_of \<bar>x\<bar>;
               e0 = int (floorlog 2 (nat a)) - int (floorlog 2 (nat b));
               e = (if \<bar>x\<bar> < 2 powi e0 then e0 - 1 else e0);
               ulp = 2 powi (e - 23)
           in of_int (round_even (x / ulp)) * ulp)"

definition maxPausePhase :: nat where
  "maxPausePhase = 4"

definition shouldPause :: "Adaptor \<Rightarrow> ConsensusResult \<Rightarrow> Consensus \<Rightarrow> bool" where
  "shouldPause ad r c =
     (let seq = cl_seq (cs_previousLedger c);
          ahead = seq - min (getValidLedgerIndex ad) seq;
          (quorum, trustedKeys) = getQuorumKeys ad;
          totalValidators = length trustedKeys;
          (laggards, trustedKeys) = ad_laggards ad seq trustedKeys;
          offline = length trustedKeys
      in if ahead = 0 \<or> laggards = 0 \<or> totalValidators = 0 \<or> \<not> ad_validator ad \<or> \<not> haveValidated ad
            \<or> ledgerMAX_CONSENSUS (ad_parms ad) < tm_dur (rs_roundTime r)
         then False
         else let phase = unat (ahead - 1) mod (maxPausePhase + 1) in
              if phase = 0
              then uint (of_nat totalValidators - of_nat quorum :: u64) < int (laggards + offline)
              else if phase = maxPausePhase then True
              else let nonLaggards = float32 (of_nat (unat (of_nat totalValidators - of_nat (laggards + offline) :: u64)));
                       total = float32 (of_nat totalValidators);
                       quorumRatio = float32 (float32 (of_nat quorum) / total);
                       allowedDissent = float32 (1 - quorumRatio);
                       phaseFactor = float32 (of_nat phase / of_nat maxPausePhase)
                   in float32 (nonLaggards / total)
                        < float32 (quorumRatio + float32 (allowedDissent * phaseFactor)))"

definition participantsNeeded :: "nat \<Rightarrow> nat \<Rightarrow> nat" where
  "participantsNeeded participants percent =
     (let result = (participants * percent + percent div 2) div 100 in if result = 0 then 1 else result)"

text \<open>\<^verbatim>\<open>updateOurPositions\<close>, first part: drop stale peers, and collect the close times of the others.\<close>

definition drop_stale ::
  "u32 \<Rightarrow> (NodeID \<times> ConsensusProposal) list \<Rightarrow> ConsensusResult
     \<Rightarrow> (NodeID \<times> ConsensusProposal) list \<times> ConsensusResult" where
  "drop_stale cutoff peers r =
     (filter (\<lambda>(_, p). \<not> isStale cutoff p) peers,
      fold (\<lambda>(_, p) r. if isStale cutoff p
                       then r\<lparr>rs_disputes := map (\<lambda>(i, d). (i, unVote (pr_nodeID p) d)) (rs_disputes r)\<rparr> else r)
        peers r)"

definition close_time_votes :: "Consensus \<Rightarrow> (NodeID \<times> ConsensusProposal) list \<Rightarrow> (u32 \<times> nat) list" where
  "close_time_votes c peers = fold (\<lambda>(_, p). increment_at (asCloseTime c (pr_closeTime p))) peers []"

text \<open>Second part: the votes on the disputes, and our set if one of them changed.\<close>

fun vote_disputes ::
  "ConsensusParms \<Rightarrow> int \<Rightarrow> bool \<Rightarrow> TxSet \<Rightarrow> TxSet option \<Rightarrow> (TxID \<times> (TxID, NodeID) DisputedTx) list
     \<Rightarrow> ((TxID \<times> (TxID, NodeID) DisputedTx) list \<times> TxSet option) option" where
  "vote_disputes parms percent proposing txns mutableSet [] = Some ([], mutableSet)"
| "vote_disputes parms percent proposing txns mutableSet ((txID, d) # ds) =
     (case updateVote percent proposing parms d of
        None \<Rightarrow> None
      | Some (changed, d') \<Rightarrow>
          let mutableSet' =
                (if changed
                 then let s = (case mutableSet of None \<Rightarrow> txns | Some s \<Rightarrow> s)
                      in Some (if ourVote d' then insert (disputed_tx d') s else s - {txID})
                 else mutableSet)
          in map_option (\<lambda>(ds', s). ((txID, d') # ds', s)) (vote_disputes parms percent proposing txns mutableSet' ds))"

text \<open>Third part: the close time with the most votes above the threshold, and whether there is consensus on it.\<close>

fun pick_close_time :: "nat \<Rightarrow> nat \<Rightarrow> u32 \<times> bool \<Rightarrow> (u32 \<times> nat) list \<Rightarrow> u32 \<times> bool" where
  "pick_close_time threshVote threshConsensus (t0, have) [] = (t0, have)"
| "pick_close_time threshVote threshConsensus (t0, have) ((t, v) # tally) =
     (if threshVote \<le> v
      then pick_close_time v threshConsensus (t, have \<or> threshConsensus \<le> v) tally
      else pick_close_time threshVote threshConsensus (t0, have) tally)"

definition close_time_consensus ::
  "ConsensusParms \<Rightarrow> (u32 \<times> nat) list \<Rightarrow> ConsensusResult \<Rightarrow> Consensus \<Rightarrow> (u32 \<times> bool \<times> AvalancheState) option" where
  "close_time_consensus parms peerVotes r c =
     (if cs_currPeerPositions c = []
      then Some (asCloseTime c (pr_closeTime (rs_position r)), True, cs_closeTimeAvalancheState c)
      else case getNeededWeight parms (cs_closeTimeAvalancheState c) (cs_convergePercent c) 0 0 of
             None \<Rightarrow> None
           | Some (neededWeight, newState) \<Rightarrow>
               let av = (case newState of Some s \<Rightarrow> s | None \<Rightarrow> cs_closeTimeAvalancheState c);
                   proposing = (cs_mode c = cm_proposing);
                   tally = (if proposing then increment_at (asCloseTime c (pr_closeTime (rs_position r))) peerVotes
                            else peerVotes);
                   participants = length (cs_currPeerPositions c) + (if proposing then 1 else 0);
                   (t, have) = pick_close_time (participantsNeeded participants neededWeight)
                                 (participantsNeeded participants (avCT_CONSENSUS_PCT parms)) (0, False) tally
               in Some (t, have, av))"

text \<open>Last part: take the new set and close time as our position, and tell the others.\<close>

definition adopt_position ::
  "Adaptor \<Rightarrow> TxSet \<Rightarrow> u32 \<Rightarrow> ConsensusResult \<Rightarrow> Consensus \<Rightarrow> ConsensusResult \<times> Consensus" where
  "adopt_position ad txns consensusCloseTime r c =
     (let newID = setID ad txns;
          r = r\<lparr>rs_txns := txns, rs_position := changePosition newID consensusCloseTime (cs_now c) (rs_position r)\<rparr>;
          (r, c) = (if newID \<in> keys (cs_acquired c) then (r, c)
                    else let c = c\<lparr>cs_acquired := (newID, txns) # cs_acquired c\<rparr>;
                             c = (if \<not> isBowOut (rs_position r) then emit (ev_shareSet txns) c else c)
                         in update_proposers ad txns (cs_currPeerPositions c) (r, c));
          c = (if \<not> isBowOut (rs_position r) \<and> cs_mode c = cm_proposing then emit (ev_propose (rs_position r)) c else c)
      in (r, c))"

definition updateOurPositions :: "Adaptor \<Rightarrow> ConsensusResult \<Rightarrow> Consensus \<Rightarrow> (ConsensusResult \<times> Consensus) option" where
  "updateOurPositions ad r c =
     (let parms = ad_parms ad;
          peerCutoff = cs_now c - word_of_int (proposeFRESHNESS parms);
          ourCutoff = cs_now c - word_of_int (proposeINTERVAL parms);
          (peers, r) = drop_stale peerCutoff (cs_currPeerPositions c) r;
          peerVotes = close_time_votes c peers;
          c = c\<lparr>cs_currPeerPositions := peers\<rparr>
      in case vote_disputes parms (cs_convergePercent c) (cs_mode c = cm_proposing) (rs_txns r) None (rs_disputes r) of
           None \<Rightarrow> None
         | Some (disputes, newSet) \<Rightarrow>
             let r = r\<lparr>rs_disputes := disputes\<rparr> in
             case close_time_consensus parms peerVotes r c of
               None \<Rightarrow> None
             | Some (consensusCloseTime, have, av) \<Rightarrow>
                 let c = c\<lparr>cs_haveCloseTimeConsensus := have, cs_closeTimeAvalancheState := av\<rparr>;
                     newSet = (if newSet = None
                                  \<and> (consensusCloseTime \<noteq> asCloseTime c (pr_closeTime (rs_position r))
                                     \<or> isStale ourCutoff (rs_position r))
                               then Some (rs_txns r) else newSet)
                 in case newSet of
                      None \<Rightarrow> Some (r, c)
                    | Some txns \<Rightarrow> Some (adopt_position ad txns consensusCloseTime r c))"

text \<open>\<^verbatim>\<open>std::ranges::all_of\<close> over the disputes, which stops at the first that is not stalled.\<close>

fun all_stalled :: "ConsensusParms \<Rightarrow> bool \<Rightarrow> int \<Rightarrow> (TxID \<times> (TxID, NodeID) DisputedTx) list \<Rightarrow> bool option" where
  "all_stalled parms proposing unchanged [] = Some True"
| "all_stalled parms proposing unchanged ((_, d) # ds) =
     (case stalled parms proposing unchanged d of
        None \<Rightarrow> None
      | Some False \<Rightarrow> Some False
      | Some True \<Rightarrow> all_stalled parms proposing unchanged ds)"

definition minimumCounter :: "ConsensusParms \<Rightarrow> nat" where
  "minimumCounter parms =
     length (filter (\<lambda>s. avalancheCutoffs parms s \<noteq> None) [av_init, av_mid, av_late, av_stuck]) * avMIN_ROUNDS parms"

definition haveConsensus :: "Adaptor \<Rightarrow> ConsensusResult \<Rightarrow> Consensus \<Rightarrow> (bool \<times> Consensus) option" where
  "haveConsensus ad r c =
     (let parms = ad_parms ad;
          proposing = (cs_mode c = cm_proposing);
          agree = length (filter (\<lambda>(_, p). pr_position p = pr_position (rs_position r)) (cs_currPeerPositions c));
          disagree = length (filter (\<lambda>(_, p). pr_position p \<noteq> pr_position (rs_position r)) (cs_currPeerPositions c));
          currentFinished = proposersFinished ad (cs_previousLedger c) (cs_prevLedgerID c)
      in case (if cs_haveCloseTimeConsensus c \<and> rs_disputes r \<noteq> []
               then all_stalled parms proposing (int (cs_peerUnchangedCounter c)) (rs_disputes r)
               else Some False) of
           None \<Rightarrow> None
         | Some is_stalled \<Rightarrow>
             let st = checkConsensus (cs_prevProposers c) (agree + disagree) agree currentFinished (cs_prevRoundTime c)
                        (tm_dur (rs_roundTime r)) is_stalled parms proposing;
                 c = c\<lparr>cs_result := Some (r\<lparr>rs_state := st\<rparr>)\<rparr>
             in if st = No then Some (False, c)
                else if st = Expired
                then (if cs_establishCounter c < minimumCounter parms then Some (False, c)
                      else Some (True, leaveConsensus c))
                else Some (True, c))"

text \<open>The end of \<^verbatim>\<open>phaseEstablish\<close>: the round is over and its result goes to the adaptor.\<close>

definition accept_round :: "Adaptor \<Rightarrow> Consensus \<Rightarrow> Consensus" where
  "accept_round ad c =
     (let n = length (cs_currPeerPositions c);
          r = the (cs_result c);
          c = (emit (ev_operatingMode n) c)
                \<lparr>cs_prevProposers := n, cs_prevRoundTime := tm_dur (rs_roundTime r), cs_phase := cp_accepted\<rparr>
      in emit (ev_accept r (cs_previousLedger c) (cs_closeResolution c) (cs_rawCloseTimes c) (cs_mode c) (ad_validating ad)) c)"

definition phaseEstablish :: "Adaptor \<Rightarrow> Consensus \<Rightarrow> Consensus option" where
  "phaseEstablish ad c =
     (case cs_result c of
        None \<Rightarrow> None
      | Some r \<Rightarrow>
          let parms = ad_parms ad;
              r = r\<lparr>rs_roundTime := timer_tick (ad_clock ad) (rs_roundTime r),
                    rs_proposers := length (cs_currPeerPositions c)\<rparr>;
              c = c\<lparr>cs_peerUnchangedCounter := cs_peerUnchangedCounter c + 1,
                    cs_establishCounter := cs_establishCounter c + 1,
                    cs_convergePercent := (tm_dur (rs_roundTime r) * 100)
                      sdiv max (cs_prevRoundTime c) (avMIN_CONSENSUS_TIME parms),
                    cs_result := Some r\<rparr>
          in if tm_dur (rs_roundTime r) < ledgerMIN_CONSENSUS parms then Some c
             else case updateOurPositions ad r c of
                    None \<Rightarrow> None
                  | Some (r, c) \<Rightarrow>
                      let c = c\<lparr>cs_result := Some r\<rparr> in
                      if shouldPause ad r c then Some c
                      else case haveConsensus ad r c of
                             None \<Rightarrow> None
                           | Some (False, c) \<Rightarrow> Some c
                           | Some (True, c) \<Rightarrow>
                               if \<not> cs_haveCloseTimeConsensus c then Some c
                               else Some (accept_round ad c))"

section \<open>Rounds\<close>

text \<open>\<open>timer\<close> is the call of \<^verbatim>\<open>timerEntry\<close> with the stored time.\<close>

definition startRoundInternal ::
  "(Consensus \<Rightarrow> Consensus option) \<Rightarrow> Adaptor \<Rightarrow> u32 \<Rightarrow> uint256 \<Rightarrow> CxLedger \<Rightarrow> ConsensusMode \<Rightarrow> Consensus
     \<Rightarrow> Consensus option" where
  "startRoundInternal timer ad now prevLedgerID prevLedger mode c =
     (let c = set_mode mode (c\<lparr>cs_phase := cp_open\<rparr>);
          c = c\<lparr>cs_now := now, cs_prevLedgerID := prevLedgerID, cs_previousLedger := prevLedger, cs_result := None,
                cs_convergePercent := 0, cs_closeTimeAvalancheState := av_init, cs_haveCloseTimeConsensus := False,
                cs_openTime := timer_reset (ad_clock ad), cs_currPeerPositions := [], cs_acquired := [],
                cs_rawCloseTimes := \<lparr>ct_peers = [], ct_self = 0\<rparr>, cs_deadNodes := [],
                cs_closeResolution := getNextLedgerTimeResolution (cl_closeTimeResolution prevLedger)
                  (cl_closeAgree prevLedger) (cl_seq prevLedger + 1)\<rparr>;
          c = playbackProposals ad c
      in if cs_prevProposers c div 2 < length (cs_currPeerPositions c) then timer c else Some c)"

definition handleWrongLedger ::
  "(Consensus \<Rightarrow> Consensus option) \<Rightarrow> Adaptor \<Rightarrow> uint256 \<Rightarrow> Consensus \<Rightarrow> Consensus option" where
  "handleWrongLedger timer ad lgrId c =
     (let c = leaveConsensus c;
          c = (if cs_prevLedgerID c \<noteq> lgrId
               then playbackProposals ad
                      (c\<lparr>cs_prevLedgerID := lgrId,
                         cs_result := map_option (\<lambda>r. r\<lparr>rs_disputes := [], rs_compares := []\<rparr>) (cs_result c),
                         cs_currPeerPositions := [],
                         cs_rawCloseTimes := (cs_rawCloseTimes c)\<lparr>ct_peers := []\<rparr>,
                         cs_deadNodes := []\<rparr>)
               else c)
      in if cl_id (cs_previousLedger c) = cs_prevLedgerID c then Some c
         else case acquireLedger ad (cs_prevLedgerID c) of
                Some newLedger \<Rightarrow> startRoundInternal timer ad (cs_now c) lgrId newLedger cm_switchedLedger c
              | None \<Rightarrow> Some (set_mode cm_wrongLedger c))"

definition checkLedger :: "(Consensus \<Rightarrow> Consensus option) \<Rightarrow> Adaptor \<Rightarrow> Consensus \<Rightarrow> Consensus option" where
  "checkLedger timer ad c =
     (let netLgr = getPrevLedger ad (cs_prevLedgerID c) (cs_previousLedger c) (cs_mode c)
      in if netLgr \<noteq> cs_prevLedgerID c then handleWrongLedger timer ad netLgr c
         else if cl_id (cs_previousLedger c) \<noteq> cs_prevLedgerID c then handleWrongLedger timer ad netLgr c
         else Some c)"

fun timerEntry :: "nat \<Rightarrow> Adaptor \<Rightarrow> u32 \<Rightarrow> Consensus \<Rightarrow> Consensus option" where
  "timerEntry 0 ad now c = None"
| "timerEntry (Suc n) ad now c =
     (if cs_phase c = cp_accepted then Some c
      else case checkLedger (\<lambda>c. timerEntry n ad (cs_now c) c) ad (c\<lparr>cs_now := now\<rparr>) of
             None \<Rightarrow> None
           | Some c \<Rightarrow>
               if cs_phase c = cp_open then Some (phaseOpen ad c)
               else if cs_phase c = cp_establish then phaseEstablish ad c
               else Some c)"

definition startRound ::
  "nat \<Rightarrow> Adaptor \<Rightarrow> u32 \<Rightarrow> uint256 \<Rightarrow> CxLedger \<Rightarrow> NodeID list \<Rightarrow> bool \<Rightarrow> Consensus \<Rightarrow> Consensus option" where
  "startRound n ad now prevLedgerID prevLedger nowUntrusted proposing c =
     (let c = (if cs_firstRound c
               then c\<lparr>cs_prevRoundTime := ledgerIDLE_INTERVAL (ad_parms ad), cs_prevCloseTime := cl_closeTime prevLedger,
                      cs_firstRound := False\<rparr>
               else c\<lparr>cs_prevCloseTime := ct_self (cs_rawCloseTimes c)\<rparr>);
          c = c\<lparr>cs_recentPeerPositions := fold AList.delete nowUntrusted (cs_recentPeerPositions c)\<rparr>;
          startMode = (if proposing then cm_proposing else cm_observing);
          (prevLedger, startMode) =
            (if cl_id prevLedger \<noteq> prevLedgerID
             then (case acquireLedger ad prevLedgerID of
                     Some newLedger \<Rightarrow> (newLedger, startMode)
                   | None \<Rightarrow> (prevLedger, cm_wrongLedger))
             else (prevLedger, startMode))
      in startRoundInternal (\<lambda>c. timerEntry n ad (cs_now c) c) ad now prevLedgerID prevLedger startMode c)"

definition simulate :: "Adaptor \<Rightarrow> u32 \<Rightarrow> int option \<Rightarrow> Consensus \<Rightarrow> Consensus" where
  "simulate ad now consensusDelay c =
     (let c = closeLedger ad (c\<lparr>cs_now := now\<rparr>);
          r = the (cs_result c);
          n = length (cs_currPeerPositions c);
          r = r\<lparr>rs_roundTime := timer_tick_fixed (case consensusDelay of Some d \<Rightarrow> d | None \<Rightarrow> 100) (rs_roundTime r),
                rs_proposers := n\<rparr>;
          c = c\<lparr>cs_result := Some r, cs_prevProposers := n, cs_prevRoundTime := tm_dur (rs_roundTime r),
                cs_phase := cp_accepted\<rparr>
      in emit (ev_forceAccept r (cs_previousLedger c) (cs_closeResolution c) (cs_rawCloseTimes c) (cs_mode c)) c)"

end
