(* ===== verification/Consensus_Disputes.thy ===== *)
theory Consensus_Disputes
  imports Consensus_Round
begin

text \<open>
  The bookkeeping of disputes during a round: which transactions are in dispute, and whose votes are recorded.

  \<open>h\<close> is the hash of transaction sets, \<open>B\<close> a finite set of transactions that holds every set of the run. \<open>result_inv\<close> says
  of a result that its disputes are keyed by their transaction, agree with our own set, count only the votes of
  current peers, hold the exact vote of every peer in \<open>P\<close> whose set is known, and cover every difference to a set we compared
  with. The lemmas show that creating and updating disputes keeps it, for the loops as well as for their bodies.
\<close>

section \<open>Operations that touch nothing else\<close>

definition quiet :: "Consensus \<Rightarrow> Consensus \<Rightarrow> bool" where
  "quiet c c' \<longleftrightarrow> (\<exists>k txs. c' = c\<lparr>cs_peerUnchangedCounter := k, cs_events := cs_events c @ map ev_shareTx txs\<rparr>)"

lemma quiet_refl [simp, intro]: "quiet c c"
proof -
  have "c = c\<lparr>cs_peerUnchangedCounter := cs_peerUnchangedCounter c, cs_events := cs_events c @ map ev_shareTx []\<rparr>"
    by simp
  then show ?thesis unfolding quiet_def by blast
qed

lemma quiet_trans [trans]:
  assumes "quiet c c'" and "quiet c' c''"
  shows "quiet c c''"
proof -
  obtain k txs k' txs' where
    "c' = c\<lparr>cs_peerUnchangedCounter := k, cs_events := cs_events c @ map ev_shareTx txs\<rparr>"
    "c'' = c'\<lparr>cs_peerUnchangedCounter := k', cs_events := cs_events c' @ map ev_shareTx txs'\<rparr>"
    using assms unfolding quiet_def by blast
  then have "c'' = c\<lparr>cs_peerUnchangedCounter := k', cs_events := cs_events c @ map ev_shareTx (txs @ txs')\<rparr>"
    by simp
  then show ?thesis unfolding quiet_def by blast
qed

lemma quiet_counter [intro]: "quiet c (c\<lparr>cs_peerUnchangedCounter := k\<rparr>)"
  unfolding quiet_def by (intro exI [of _ k] exI [of _ "[]"]) simp

lemma quiet_shareTx [intro]: "quiet c (emit (ev_shareTx t) c)"
  unfolding quiet_def emit_def by (intro exI [of _ "cs_peerUnchangedCounter c"] exI [of _ "[t]"]) simp

lemma quiet_frame:
  assumes "quiet c c'"
  shows "cs_acquired c' = cs_acquired c" "cs_currPeerPositions c' = cs_currPeerPositions c"
    "cs_phase c' = cs_phase c" "cs_mode c' = cs_mode c" "cs_result c' = cs_result c" "cs_now c' = cs_now c"
    "cs_prevLedgerID c' = cs_prevLedgerID c" "cs_deadNodes c' = cs_deadNodes c" "cs_previousLedger c' = cs_previousLedger c"
    "cs_haveCloseTimeConsensus c' = cs_haveCloseTimeConsensus c" "cs_establishCounter c' = cs_establishCounter c"
    "cs_prevRoundTime c' = cs_prevRoundTime c" "cs_prevProposers c' = cs_prevProposers c"
    "cs_closeResolution c' = cs_closeResolution c" "cs_recentPeerPositions c' = cs_recentPeerPositions c"
  using assms unfolding quiet_def by auto

text \<open>Results that differ in their disputes only.\<close>

definition same_stance :: "ConsensusResult \<Rightarrow> ConsensusResult \<Rightarrow> bool" where
  "same_stance r r' \<longleftrightarrow> r' = r\<lparr>rs_disputes := rs_disputes r', rs_compares := rs_compares r'\<rparr>"

lemma same_stance_refl [simp, intro]: "same_stance r r"
  by (simp add: same_stance_def)

lemma same_stance_upd [simp, intro]:
  "same_stance r (r\<lparr>rs_disputes := ds\<rparr>)" "same_stance r (r\<lparr>rs_compares := cs\<rparr>)"
  by (simp_all add: same_stance_def)

lemma same_stance_iff:
  "same_stance r r' \<longleftrightarrow> rs_txns r' = rs_txns r \<and> rs_position r' = rs_position r \<and> rs_roundTime r' = rs_roundTime r
     \<and> rs_state r' = rs_state r \<and> rs_proposers r' = rs_proposers r"
  unfolding same_stance_def by (cases r; cases r') auto

lemma same_stance_trans [trans]: "same_stance r r' \<Longrightarrow> same_stance r' r'' \<Longrightarrow> same_stance r r''"
  by (simp add: same_stance_iff)

section \<open>Votes\<close>

lemma setVote_frame [simp]:
  "map_of (votes (snd (setVote n v d))) = (map_of (votes d))(n \<mapsto> v)"
  "disputed_tx (snd (setVote n v d)) = disputed_tx d"
  "ourVote (snd (setVote n v d)) = ourVote d"
  by (auto simp: setVote_def fun_upd_idem split: option.split)

lemma unVote_frame [simp]:
  "map_of (votes (unVote n d)) = (map_of (votes d))(n := None)"
  "disputed_tx (unVote n d) = disputed_tx d"
  "ourVote (unVote n d) = ourVote d"
  by (auto simp: unVote_def fun_upd_idem split: option.split)

lemma fold_unVote:
  "map_of (votes (fold unVote ns d)) = (\<lambda>k. if k \<in> set ns then None else map_of (votes d) k)"
  "disputed_tx (fold unVote ns d) = disputed_tx d"
  "ourVote (fold unVote ns d) = ourVote d"
  "dispute_inv d \<Longrightarrow> dispute_inv (fold unVote ns d)"
  by (induction ns arbitrary: d) (auto simp: fun_eq_iff dispute_inv_unVote)

text \<open>The dispute \<open>d\<close> of transaction \<open>i\<close>, given the nodes \<open>ns\<close> that may vote and our own set.\<close>

definition dispute_wf :: "TxSet \<Rightarrow> NodeID set \<Rightarrow> TxSet \<Rightarrow> TxID \<Rightarrow> (TxID, NodeID) DisputedTx \<Rightarrow> bool" where
  "dispute_wf B ns txns i d \<longleftrightarrow>
     disputed_tx d = i \<and> i \<in> B \<and> dispute_inv d \<and> (ourVote d \<longleftrightarrow> i \<in> txns) \<and> dom (map_of (votes d)) \<subseteq> ns"

text \<open>Every peer of \<open>P\<close> whose set is known votes for the transaction exactly if the set holds it.\<close>

definition votes_exact ::
  "(uint256 \<times> TxSet) list \<Rightarrow> (NodeID \<times> ConsensusProposal) set \<Rightarrow> TxID \<Rightarrow> (TxID, NodeID) DisputedTx \<Rightarrow> bool" where
  "votes_exact acq P i d \<longleftrightarrow>
     (\<forall>n p s. (n, p) \<in> P \<longrightarrow> map_of acq (pr_position p) = Some s \<longrightarrow> map_of (votes d) n = Some (i \<in> s))"

lemma votes_exact_setVote:
  assumes "votes_exact acq P i d" and "P \<subseteq> set peers" and "distinct_keys peers" and "(n, p) \<in> set peers"
    and "map_of acq (pr_position p) = Some s"
  shows "votes_exact acq (insert (n, p) P) i (snd (setVote n (i \<in> s) d))"
  unfolding votes_exact_def
proof (intro allI impI)
  fix n' p' s'
  assume m: "(n', p') \<in> insert (n, p) P" and s': "map_of acq (pr_position p') = Some s'"
  have in': "(n', p') \<in> set peers"
    using m assms(2,4) by auto
  show "map_of (votes (snd (setVote n (i \<in> s) d))) n' = Some (i \<in> s')"
  proof (cases "n' = n")
    case True
    then have "p' = p"
      using in' assms(3,4) by (metis eq_key_imp_eq_value)
    then show ?thesis using True s' assms(5) by simp
  next
    case False
    then show ?thesis using m s' assms(1) unfolding votes_exact_def by auto
  qed
qed

lemma votes_exact_unVote:
  assumes "votes_exact acq P i d" and "n \<notin> fst ` P"
  shows "votes_exact acq P i (unVote n d)"
  using assms unfolding votes_exact_def by (auto simp: image_iff)

lemma votes_exact_mono: "votes_exact acq P i d \<Longrightarrow> Q \<subseteq> P \<Longrightarrow> votes_exact acq Q i d"
  unfolding votes_exact_def by blast

lemma dispute_wf_setVote:
  "dispute_wf B ns txns i d \<Longrightarrow> n \<in> ns \<Longrightarrow> dispute_wf B ns txns i (snd (setVote n v d))"
  using dispute_inv_setVote [of d n v] by (auto simp: dispute_wf_def dom_def split: if_splits)

section \<open>The votes on a new dispute\<close>

lemma peer_votes_wf:
  assumes "dispute_wf B ns txns i d" and "keys peers \<subseteq> ns"
  shows "dispute_wf B ns txns i (snd (peer_votes acq peers i d))"
proof -
  let ?f = "\<lambda>(nodeId, peerProp) (changed, d).
             case map_of acq (pr_position peerProp) of
               None \<Rightarrow> (changed, d)
             | Some s \<Rightarrow> (let (v, d') = setVote nodeId (i \<in> s) d in (changed \<or> v, d'))"
  have step: "dispute_wf B ns txns i (snd (?f x a))"
    if "dispute_wf B ns txns i (snd a)" and "x \<in> set peers" for x and a :: "bool \<times> (TxID, NodeID) DisputedTx"
  proof -
    have "fst x \<in> ns" using that(2) assms(2) by auto
    then show ?thesis
      using that(1) dispute_wf_setVote [of B ns txns i "snd a" "fst x"]
      by (auto simp: Let_def case_prod_unfold split: option.split)
  qed
  have "dispute_wf B ns txns i (snd (fold ?f xs a))"
    if "dispute_wf B ns txns i (snd a)" and "set xs \<subseteq> set peers" for xs a
    using that
  proof (induction xs arbitrary: a)
    case (Cons x xs)
    then show ?case using step [of a x] by simp
  qed simp
  then show ?thesis using assms(1) by (simp add: peer_votes_def)
qed

lemma peer_votes_exact:
  assumes "distinct_keys peers"
  shows "votes_exact acq (set peers) i (snd (peer_votes acq peers i d))"
proof -
  let ?f = "\<lambda>(nodeId, peerProp) (changed, d).
             case map_of acq (pr_position peerProp) of
               None \<Rightarrow> (changed, d)
             | Some s \<Rightarrow> (let (v, d') = setVote nodeId (i \<in> s) d in (changed \<or> v, d'))"
  have step: "votes_exact acq (insert x P) i (snd (?f x a))"
    if "votes_exact acq P i (snd a)" and "P \<subseteq> set peers" and "x \<in> set peers"
    for x P and a :: "bool \<times> (TxID, NodeID) DisputedTx"
  proof (cases "map_of acq (pr_position (snd x))")
    case None
    then show ?thesis
      using that(1) unfolding votes_exact_def by (auto simp: case_prod_unfold)
  next
    case (Some s)
    then show ?thesis
      using votes_exact_setVote [OF that(1,2) assms, of "fst x" "snd x" s] that(3)
      by (simp add: Let_def case_prod_unfold)
  qed
  have "votes_exact acq (set xs \<union> P) i (snd (fold ?f xs a))"
    if "votes_exact acq P i (snd a)" and "P \<subseteq> set peers" and "set xs \<subseteq> set peers" for xs P a
    using that
  proof (induction xs arbitrary: P a)
    case (Cons x xs)
    then show ?case using step [of P a x] Cons.IH [of "insert x P" "?f x a"] by simp
  qed simp
  from this [of "{}" "(False, d)" peers] show ?thesis
    by (simp add: peer_votes_def votes_exact_def)
qed

section \<open>The disputes of a result\<close>

definition disputes_ok ::
  "TxSet \<Rightarrow> (uint256 \<times> TxSet) list \<Rightarrow> NodeID set \<Rightarrow> (NodeID \<times> ConsensusProposal) set \<Rightarrow> ConsensusResult \<Rightarrow> bool" where
  "disputes_ok B acq ns P r \<longleftrightarrow>
     distinct_keys (rs_disputes r)
     \<and> (\<forall>(i, d) \<in> set (rs_disputes r). dispute_wf B ns (rs_txns r) i d \<and> votes_exact acq P i d)"

text \<open>Every set compared with ours differs from it in disputed transactions only.\<close>

definition compares_ok :: "(TxSet \<Rightarrow> uint256) \<Rightarrow> TxSet \<Rightarrow> ConsensusResult \<Rightarrow> bool" where
  "compares_ok h B r \<longleftrightarrow>
     (\<forall>s \<subseteq> B. h s \<in> set (rs_compares r) \<longrightarrow> (s - rs_txns r) \<union> (rs_txns r - s) \<subseteq> keys (rs_disputes r))"

definition result_inv ::
  "(TxSet \<Rightarrow> uint256) \<Rightarrow> TxSet \<Rightarrow> (NodeID \<times> ConsensusProposal) set \<Rightarrow> Consensus \<Rightarrow> ConsensusResult \<Rightarrow> bool" where
  "result_inv h B P c r \<longleftrightarrow>
     rs_txns r \<subseteq> B \<and> disputes_ok B (cs_acquired c) (keys (cs_currPeerPositions c)) P r \<and> compares_ok h B r"

text \<open>The known sets of the peers in \<open>P\<close> were compared with ours.\<close>

definition compared ::
  "(TxSet \<Rightarrow> uint256) \<Rightarrow> (NodeID \<times> ConsensusProposal) set \<Rightarrow> (uint256 \<times> TxSet) list \<Rightarrow> ConsensusResult \<Rightarrow> bool" where
  "compared h P acq r \<longleftrightarrow>
     (\<forall>n p s. (n, p) \<in> P \<longrightarrow> map_of acq (pr_position p) = Some s \<longrightarrow> h s \<in> set (rs_compares r))"

lemma disputes_ok_map:
  assumes "disputes_ok B acq ns P r"
    and "\<And>i d. dispute_wf B ns (rs_txns r) i d \<Longrightarrow> votes_exact acq P i d
           \<Longrightarrow> dispute_wf B ns' (rs_txns r) i (f i d) \<and> votes_exact acq' P' i (f i d)"
  shows "disputes_ok B acq' ns' P' (r\<lparr>rs_disputes := map (\<lambda>(i, d). (i, f i d)) (rs_disputes r)\<rparr>)"
  using assms unfolding disputes_ok_def by auto

lemma disputes_ok_weaken:
  assumes "disputes_ok B acq ns P r"
    and "\<And>i d. dispute_wf B ns (rs_txns r) i d \<Longrightarrow> votes_exact acq P i d
           \<Longrightarrow> dispute_wf B ns' (rs_txns r) i d \<and> votes_exact acq' P' i d"
  shows "disputes_ok B acq' ns' P' r"
  using assms unfolding disputes_ok_def by auto

lemma compares_ok_map [simp]:
  "compares_ok h B (r\<lparr>rs_disputes := map (\<lambda>(i, d). (i, f i d)) (rs_disputes r)\<rparr>) = compares_ok h B r"
proof -
  have "keys (map (\<lambda>(i, d). (i, f i d)) (rs_disputes r)) = keys (rs_disputes r)"
    by (rule keys_map_value)
  then show ?thesis by (simp add: compares_ok_def)
qed

lemma dispute_step_spec:
  assumes "disputes_ok B (cs_acquired c) (keys (cs_currPeerPositions c)) P r"
    and "distinct_keys (cs_currPeerPositions c)" and "P \<subseteq> set (cs_currPeerPositions c)" and "i \<in> B"
    and "dispute_step i (r, c) = (r', c')"
  shows "disputes_ok B (cs_acquired c) (keys (cs_currPeerPositions c)) P r' \<and> quiet c c'
    \<and> keys (rs_disputes r') = insert i (keys (rs_disputes r))
    \<and> same_stance r r' \<and> rs_compares r' = rs_compares r"
proof (cases "i \<in> keys (rs_disputes r)")
  case True
  then have "r' = r" "c' = c" using assms(5) by (simp_all add: dispute_step_def)
  then show ?thesis using True assms(1) by auto
next
  case False
  let ?d0 = "new_DisputedTx i (i \<in> rs_txns r) :: (TxID, NodeID) DisputedTx"
  obtain ch d where pv: "peer_votes (cs_acquired c) (cs_currPeerPositions c) i ?d0 = (ch, d)"
    by fastforce
  have r': "r' = r\<lparr>rs_disputes := rs_disputes r @ [(i, d)]\<rparr>"
    and c': "c' = emit (ev_shareTx i) (if ch then c\<lparr>cs_peerUnchangedCounter := 0\<rparr> else c)"
    using False pv assms(5) by (simp_all add: dispute_step_def)
  have "dispute_wf B (keys (cs_currPeerPositions c)) (rs_txns r) i ?d0"
    using assms(4) by (simp add: dispute_wf_def dispute_inv_new) (simp add: new_DisputedTx_def)
  then have wf: "dispute_wf B (keys (cs_currPeerPositions c)) (rs_txns r) i d"
    using peer_votes_wf [of B _ _ i ?d0 "cs_currPeerPositions c" "cs_acquired c"] pv by simp
  have ex: "votes_exact (cs_acquired c) P i d"
    using peer_votes_exact [OF assms(2), of "cs_acquired c" i ?d0] assms(3) pv
    by (auto intro: votes_exact_mono)
  have "quiet c c'"
    unfolding c' by (auto intro: quiet_trans)
  then show ?thesis
    using False assms(1) wf ex by (auto simp: r' disputes_ok_def image_iff)
qed

lemma dispute_steps_spec:
  assumes "disputes_ok B (cs_acquired c) (keys (cs_currPeerPositions c)) P r"
    and "distinct_keys (cs_currPeerPositions c)" and "P \<subseteq> set (cs_currPeerPositions c)" and "set xs \<subseteq> B"
    and "fold dispute_step xs (r, c) = (r', c')"
  shows "disputes_ok B (cs_acquired c) (keys (cs_currPeerPositions c)) P r' \<and> quiet c c'
    \<and> keys (rs_disputes r') = set xs \<union> keys (rs_disputes r)
    \<and> same_stance r r' \<and> rs_compares r' = rs_compares r"
  using assms
proof (induction xs arbitrary: r c)
  case (Cons i xs)
  obtain r1 c1 where st: "dispute_step i (r, c) = (r1, c1)" by fastforce
  have "i \<in> B" using Cons.prems(4) by simp
  note s1 = dispute_step_spec [OF Cons.prems(1-3) this st]
  then have q: "quiet c c1" by blast
  note fr = quiet_frame [OF q]
  have "disputes_ok B (cs_acquired c1) (keys (cs_currPeerPositions c1)) P r' \<and> quiet c1 c'
    \<and> keys (rs_disputes r') = set xs \<union> keys (rs_disputes r1)
    \<and> same_stance r1 r' \<and> rs_compares r' = rs_compares r1"
    using Cons.prems s1 fr by (intro Cons.IH) (simp_all add: st)
  then show ?case
    using s1 q by (auto simp: fr intro: quiet_trans same_stance_trans)
qed simp

section \<open>Creating and updating disputes\<close>

lemma createDisputes_spec:
  assumes h: "setID ad = h" "finite B" "inj_on h (Pow B)" and s: "s \<subseteq> B"
    and inv: "result_inv h B P c r"
    and P: "distinct_keys (cs_currPeerPositions c)" "P \<subseteq> set (cs_currPeerPositions c)"
    and res: "createDisputes ad s r c = (r', c')"
  shows "result_inv h B P c' r' \<and> quiet c c' \<and> same_stance r r'
    \<and> set (rs_compares r') = insert (h s) (set (rs_compares r))"
proof -
  let ?r1 = "r\<lparr>rs_compares := h s # rs_compares r\<rparr>"
  have txns: "rs_txns r \<subseteq> B" and cmp: "compares_ok h B r"
    and dis: "disputes_ok B (cs_acquired c) (keys (cs_currPeerPositions c)) P r"
    using inv by (simp_all add: result_inv_def)
  have dis1: "disputes_ok B (cs_acquired c) (keys (cs_currPeerPositions c)) P ?r1"
    using dis by (simp add: disputes_ok_def)
  consider (old) "h s \<in> set (rs_compares r)" | (same) "h s \<notin> set (rs_compares r)" "s = rs_txns r"
    | (new) "h s \<notin> set (rs_compares r)" "s \<noteq> rs_txns r" by blast
  then show ?thesis
  proof cases
    case old
    then show ?thesis using res h(1) inv by (auto simp: createDisputes_def)
  next
    case same
    then have "r' = ?r1" "c' = c" using res h(1) by (simp_all add: createDisputes_def Let_def)
    moreover have "compares_ok h B ?r1"
      using cmp same(2) h(3) txns unfolding compares_ok_def inj_on_def by auto
    ultimately show ?thesis using dis1 txns by (simp add: result_inv_def)
  next
    case new
    let ?D = "rs_txns r - s \<union> (s - rs_txns r)"
    have ne: "h (rs_txns r) \<noteq> h s"
      using h(3) new(2) txns s by (auto dest: inj_onD)
    have fold: "fold dispute_step (sorted_list_of_set ?D) (?r1, c) = (r', c')"
      using res h(1) new ne by (simp add: createDisputes_def Let_def)
    have fin: "finite ?D"
      using h(2) txns s by (meson finite_Diff finite_Un finite_subset)
    then have "set (sorted_list_of_set ?D) \<subseteq> B"
      using txns s by auto
    note st = dispute_steps_spec [OF dis1 P this fold]
    then have q: "quiet c c'" by blast
    have cs: "rs_compares r' = h s # rs_compares r" and tx: "rs_txns r' = rs_txns r"
      and ks: "keys (rs_disputes r') = ?D \<union> keys (rs_disputes r)"
      using st fin by (auto simp: same_stance_iff)
    have "compares_ok h B r'"
      unfolding compares_ok_def
    proof (intro allI impI)
      fix s' assume s': "s' \<subseteq> B" "h s' \<in> set (rs_compares r')"
      show "(s' - rs_txns r') \<union> (rs_txns r' - s') \<subseteq> keys (rs_disputes r')"
      proof (cases "h s' = h s")
        case True
        then have "s' = s" using h(3) s s'(1) by (auto dest: inj_onD)
        then show ?thesis using ks tx by auto
      next
        case False
        then have "h s' \<in> set (rs_compares r)" using s'(2) cs by simp
        then have "(s' - rs_txns r) \<union> (rs_txns r - s') \<subseteq> keys (rs_disputes r)"
          using cmp s'(1) unfolding compares_ok_def by blast
        then show ?thesis unfolding ks tx by blast
      qed
    qed
    moreover have "same_stance r r'" using st by (simp add: same_stance_iff)
    ultimately show ?thesis
      using st txns q cs tx by (simp add: result_inv_def quiet_frame [OF q])
  qed
qed

text \<open>One peer of \<open>peers\<close> votes on every dispute.\<close>

lemma disputes_ok_vote_all:
  assumes "disputes_ok B acq ns P r" and "P \<subseteq> set peers" and "distinct_keys peers" and "(n, p) \<in> set peers"
    and "map_of acq (pr_position p) = Some s" and "n \<in> ns"
  shows "disputes_ok B acq ns (insert (n, p) P)
    (r\<lparr>rs_disputes := map (\<lambda>(i, d). (i, snd (setVote n (disputed_tx d \<in> s) d))) (rs_disputes r)\<rparr>)"
  using assms(1)
proof (rule disputes_ok_map)
  fix i d
  assume d: "dispute_wf B ns (rs_txns r) i d" "votes_exact acq P i d"
  then have "disputed_tx d = i" by (simp add: dispute_wf_def)
  then show "dispute_wf B ns (rs_txns r) i (snd (setVote n (disputed_tx d \<in> s) d))
      \<and> votes_exact acq (insert (n, p) P) i (snd (setVote n (disputed_tx d \<in> s) d))"
    using dispute_wf_setVote [OF d(1) assms(6)] votes_exact_setVote [OF d(2) assms(2-5)] by simp
qed

lemma updateDisputes_spec:
  assumes h: "setID ad = h" "finite B" "inj_on h (Pow B)"
    and inv: "result_inv h B P c r"
    and P: "distinct_keys (cs_currPeerPositions c)" "P \<subseteq> set (cs_currPeerPositions c)"
    and p: "(n, p) \<in> set (cs_currPeerPositions c)" "map_of (cs_acquired c) (pr_position p) = Some s" "s \<subseteq> B"
    and res: "updateDisputes ad n s r c = (r', c')"
  shows "result_inv h B (insert (n, p) P) c' r' \<and> quiet c c' \<and> same_stance r r'
    \<and> set (rs_compares r') = insert (h s) (set (rs_compares r))"
proof -
  obtain r1 c1 where rc1: "(if setID ad s \<notin> set (rs_compares r) then createDisputes ad s r c else (r, c)) = (r1, c1)"
    by fastforce
  have one: "result_inv h B P c1 r1 \<and> quiet c c1 \<and> same_stance r r1
      \<and> set (rs_compares r1) = insert (h s) (set (rs_compares r))"
  proof (cases "h s \<in> set (rs_compares r)")
    case True
    then show ?thesis using rc1 inv h(1) by auto
  next
    case False
    then have "createDisputes ad s r c = (r1, c1)" using rc1 h(1) by simp
    from createDisputes_spec [OF h p(3) inv P this] show ?thesis .
  qed
  then have q: "quiet c c1" by blast
  note fr = quiet_frame [OF q]
  let ?ds = "map (\<lambda>(i, d). (i, snd (setVote n (disputed_tx d \<in> s) d))) (rs_disputes r1)"
  have r': "r' = r1\<lparr>rs_disputes := ?ds\<rparr>"
    using res rc1 by (auto simp: updateDisputes_def Let_def case_prod_unfold comp_def split: if_splits)
  have c': "c' = c1 \<or> c' = c1\<lparr>cs_peerUnchangedCounter := 0\<rparr>"
    using res rc1 by (auto simp: updateDisputes_def Let_def case_prod_unfold split: if_splits)
  then have q': "quiet c1 c'" by auto
  note fr' = quiet_frame [OF q']
  have n: "n \<in> keys (cs_currPeerPositions c)"
    using p(1) by (force simp: image_iff)
  have "disputes_ok B (cs_acquired c) (keys (cs_currPeerPositions c)) (insert (n, p) P) r'"
    using disputes_ok_vote_all [OF _ P(2) P(1) p(1,2) n, of B r1] one fr unfolding r' result_inv_def by simp
  moreover have "compares_ok h B r'"
    using one unfolding r' result_inv_def by simp
  ultimately show ?thesis
    using one quiet_trans [OF q q'] fr fr'
    by (auto simp: result_inv_def r' same_stance_iff)
qed

lemma update_proposers_spec:
  assumes h: "setID ad = h" "finite B" "inj_on h (Pow B)"
    and inv: "result_inv h B P c r"
    and P: "distinct_keys (cs_currPeerPositions c)" "P \<subseteq> set (cs_currPeerPositions c)"
    and s: "map_of (cs_acquired c) (h s) = Some s" "s \<subseteq> B" and xs: "set xs \<subseteq> set (cs_currPeerPositions c)"
    and res: "update_proposers ad s xs (r, c) = (r', c')"
  shows "result_inv h B (P \<union> {x \<in> set xs. pr_position (snd x) = h s}) c' r' \<and> quiet c c' \<and> same_stance r r'
    \<and> set (rs_compares r) \<subseteq> set (rs_compares r')
    \<and> ((\<exists>x \<in> set xs. pr_position (snd x) = h s) \<longrightarrow> h s \<in> set (rs_compares r'))"
  using inv P s xs res
proof (induction xs arbitrary: P r c)
  case Nil
  then show ?case by (auto simp: update_proposers_def)
next
  case (Cons x xs)
  obtain n p where x: "x = (n, p)" by fastforce
  show ?case
  proof (cases "pr_position p = h s")
    case False
    have "update_proposers ad s xs (r, c) = (r', c')"
      using Cons.prems(7) False h(1) by (simp add: update_proposers_def x)
    moreover have "set xs \<subseteq> set (cs_currPeerPositions c)" using Cons.prems(6) by simp
    ultimately have *: "result_inv h B (P \<union> {x \<in> set xs. pr_position (snd x) = h s}) c' r' \<and> quiet c c' \<and> same_stance r r'
        \<and> set (rs_compares r) \<subseteq> set (rs_compares r')
        \<and> ((\<exists>x \<in> set xs. pr_position (snd x) = h s) \<longrightarrow> h s \<in> set (rs_compares r'))"
      using Cons.IH [OF Cons.prems(1-5)] by blast
    moreover have "{y \<in> set (x # xs). pr_position (snd y) = h s} = {y \<in> set xs. pr_position (snd y) = h s}"
      using False x by auto
    ultimately show ?thesis using False x by auto
  next
    case True
    obtain r1 c1 where u: "updateDisputes ad n s r c = (r1, c1)" by fastforce
    have np: "(n, p) \<in> set (cs_currPeerPositions c)" using Cons.prems(6) x by simp
    have "map_of (cs_acquired c) (pr_position p) = Some s" using Cons.prems(4) True by simp
    note one = updateDisputes_spec [OF h Cons.prems(1-3) np this Cons.prems(5) u]
    then have q: "quiet c c1" by blast
    note fr = quiet_frame [OF q]
    have "update_proposers ad s xs (r1, c1) = (r', c')"
      using Cons.prems(7) True h(1) u by (simp add: update_proposers_def x)
    moreover have "set xs \<subseteq> set (cs_currPeerPositions c1)" using Cons.prems(6) fr by simp
    moreover have "insert (n, p) P \<subseteq> set (cs_currPeerPositions c1)" using np Cons.prems(3) fr by simp
    ultimately have *: "result_inv h B (insert (n, p) P \<union> {x \<in> set xs. pr_position (snd x) = h s}) c' r' \<and> quiet c1 c'
        \<and> same_stance r1 r' \<and> set (rs_compares r1) \<subseteq> set (rs_compares r')
        \<and> ((\<exists>x \<in> set xs. pr_position (snd x) = h s) \<longrightarrow> h s \<in> set (rs_compares r'))"
      using Cons.IH [of "insert (n, p) P" c1 r1] one Cons.prems(2,4,5) fr by simp
    moreover have "insert (n, p) P \<union> {x \<in> set xs. pr_position (snd x) = h s}
        = P \<union> {y \<in> set (x # xs). pr_position (snd y) = h s}"
      using True x by auto
    ultimately show ?thesis
      using one quiet_trans [OF q] by (auto intro: same_stance_trans)
  qed
qed

end
