(* ===== verification/Consensus_Invariant.thy ===== *)
theory Consensus_Invariant
  imports Consensus_Disputes
begin

text \<open>
  The invariant of the consensus state machine, and that every operation of \<^verbatim>\<open>Consensus.h\<close> keeps it.

  \<open>adaptor_ok\<close> states what the rest of the server promises: sets come with their hash, which identifies them among the
  subsets of the finite set \<open>B\<close>, and our own initial position is the hash of our own set. Under it, \<open>cinv\<close> holds in every
  state the operations reach (\<open>consensus_reach\<close>): the open phase has no position yet and the establish phase has one (the
  assertions of \<^verbatim>\<open>closeLedger\<close>, \<^verbatim>\<open>phaseEstablish\<close>, \<^verbatim>\<open>updateOurPositions\<close> and \<^verbatim>\<open>haveConsensus\<close>), peers are recorded once,
  on the ledger we work on, and the disputes are exact.
\<close>

section \<open>The invariant\<close>

definition adaptor_ok :: "(TxSet \<Rightarrow> uint256) \<Rightarrow> TxSet \<Rightarrow> Adaptor \<Rightarrow> bool" where
  "adaptor_ok h B ad \<longleftrightarrow>
     setID ad = h \<and> finite B \<and> inj_on h (Pow B)
     \<and> (\<forall>i s. acquireTxSet ad i = Some s \<longrightarrow> s \<subseteq> B \<and> h s = i)
     \<and> (\<forall>l t m. fst (onClose ad l t m) \<subseteq> B \<and> pr_position (snd (onClose ad l t m)) = h (fst (onClose ad l t m))
          \<and> isInitial (snd (onClose ad l t m)))"

definition peers_ok :: "Consensus \<Rightarrow> bool" where
  "peers_ok c \<longleftrightarrow>
     distinct_keys (cs_currPeerPositions c)
     \<and> (\<forall>(n, p) \<in> set (cs_currPeerPositions c).
          pr_nodeID p = n \<and> pr_previousLedger p = cs_prevLedgerID c \<and> n \<notin> set (cs_deadNodes c) \<and> \<not> isBowOut p)"

definition acquired_ok :: "(TxSet \<Rightarrow> uint256) \<Rightarrow> TxSet \<Rightarrow> Consensus \<Rightarrow> bool" where
  "acquired_ok h B c \<longleftrightarrow> (\<forall>(i, s) \<in> set (cs_acquired c). s \<subseteq> B \<and> h s = i)"

definition stance_ok :: "(TxSet \<Rightarrow> uint256) \<Rightarrow> TxSet \<Rightarrow> Consensus \<Rightarrow> ConsensusResult \<Rightarrow> bool" where
  "stance_ok h B c r \<longleftrightarrow>
     result_inv h B (set (cs_currPeerPositions c)) c r
     \<and> compared h (set (cs_currPeerPositions c)) (cs_acquired c) r
     \<and> pr_position (rs_position r) = h (rs_txns r) \<and> h (rs_txns r) \<in> keys (cs_acquired c)"

definition cinv :: "(TxSet \<Rightarrow> uint256) \<Rightarrow> TxSet \<Rightarrow> Consensus \<Rightarrow> bool" where
  "cinv h B c \<longleftrightarrow>
     peers_ok c \<and> acquired_ok h B c
     \<and> (cs_phase c = cp_open \<longrightarrow> cs_result c = None) \<and> (cs_phase c = cp_establish \<longrightarrow> cs_result c \<noteq> None)
     \<and> (\<forall>r. cs_result c = Some r \<longrightarrow> stance_ok h B c r)"

lemma acquired_okD:
  assumes "acquired_ok h B c" and "map_of (cs_acquired c) i = Some s"
  shows "s \<subseteq> B" "h s = i"
  using assms map_of_SomeD [of "cs_acquired c" i s] unfolding acquired_ok_def by auto

lemma set_AList_update:
  "distinct_keys al \<Longrightarrow> set (AList.update k v al) = insert (k, v) {x \<in> set al. fst x \<noteq> k}"
  by (induction al) (auto simp: image_iff)

lemma set_AList_delete: "set (AList.delete k al) = {x \<in> set al. fst x \<noteq> k}"
  by (auto simp: AList.delete_eq)

text \<open>Fields that the invariant does not read.\<close>

lemma cinv_irrelevant [simp]:
  "cinv h B (c\<lparr>cs_now := t\<rparr>) = cinv h B c"
  "cinv h B (c\<lparr>cs_mode := m\<rparr>) = cinv h B c"
  "cinv h B (c\<lparr>cs_events := es\<rparr>) = cinv h B c"
  "cinv h B (c\<lparr>cs_peerUnchangedCounter := k\<rparr>) = cinv h B c"
  "cinv h B (c\<lparr>cs_establishCounter := k\<rparr>) = cinv h B c"
  "cinv h B (c\<lparr>cs_convergePercent := k'\<rparr>) = cinv h B c"
  "cinv h B (c\<lparr>cs_rawCloseTimes := ct\<rparr>) = cinv h B c"
  "cinv h B (c\<lparr>cs_openTime := tm\<rparr>) = cinv h B c"
  "cinv h B (c\<lparr>cs_recentPeerPositions := rp\<rparr>) = cinv h B c"
  "cinv h B (c\<lparr>cs_haveCloseTimeConsensus := b\<rparr>) = cinv h B c"
  "cinv h B (c\<lparr>cs_closeTimeAvalancheState := a\<rparr>) = cinv h B c"
  "cinv h B (c\<lparr>cs_prevProposers := k\<rparr>) = cinv h B c"
  "cinv h B (c\<lparr>cs_prevRoundTime := k'\<rparr>) = cinv h B c"
  "cinv h B (c\<lparr>cs_prevCloseTime := t\<rparr>) = cinv h B c"
  "cinv h B (c\<lparr>cs_firstRound := b\<rparr>) = cinv h B c"
  by (simp_all add: cinv_def peers_ok_def acquired_ok_def stance_ok_def result_inv_def)

lemma cinv_emit [simp]: "cinv h B (emit e c) = cinv h B c"
  by (simp add: emit_def)

lemma cinv_set_mode [simp]: "cinv h B (set_mode m c) = cinv h B c"
  by (simp add: set_mode_def)

lemma stance_ok_irrelevant:
  assumes "cs_acquired c' = cs_acquired c" "cs_currPeerPositions c' = cs_currPeerPositions c"
  shows "stance_ok h B c' r = stance_ok h B c r"
  using assms by (simp add: stance_ok_def result_inv_def)

text \<open>A result may change its clock, its verdict and the sequence number of its position.\<close>

lemma stance_ok_result [simp]:
  "stance_ok h B c (r\<lparr>rs_roundTime := t\<rparr>) = stance_ok h B c r"
  "stance_ok h B c (r\<lparr>rs_proposers := k\<rparr>) = stance_ok h B c r"
  "stance_ok h B c (r\<lparr>rs_state := st\<rparr>) = stance_ok h B c r"
  by (simp_all add: stance_ok_def result_inv_def disputes_ok_def compares_ok_def compared_def)

lemma stance_ok_position:
  "pr_position p = pr_position (rs_position r) \<Longrightarrow> stance_ok h B c (r\<lparr>rs_position := p\<rparr>) = stance_ok h B c r"
  by (simp add: stance_ok_def result_inv_def disputes_ok_def compares_ok_def compared_def)

section \<open>Transaction sets\<close>

text \<open>A set that was unknown is recorded, and the peers proposing it vote.\<close>

lemma acquire_set_spec:
  assumes h: "setID ad = h" "finite B" "inj_on h (Pow B)"
    and pk: "peers_ok c" and inv: "result_inv h B (set (cs_currPeerPositions c)) c r"
    and cmp: "compared h (set (cs_currPeerPositions c)) (cs_acquired c) r"
    and s: "h s \<notin> keys (cs_acquired c)" "s \<subseteq> B"
    and c1: "c1 = c\<lparr>cs_acquired := (h s, s) # cs_acquired c\<rparr>"
    and res: "update_proposers ad s (cs_currPeerPositions c) (r, c1) = (r', c')"
  shows "result_inv h B (set (cs_currPeerPositions c)) c' r' \<and> compared h (set (cs_currPeerPositions c)) (cs_acquired c') r'
    \<and> quiet c1 c' \<and> same_stance r r'"
proof -
  let ?peers = "cs_currPeerPositions c"
  let ?P = "{x \<in> set ?peers. pr_position (snd x) \<noteq> h s}"
  have d: "distinct_keys ?peers" using pk by (simp add: peers_ok_def)
  have ex: "votes_exact (cs_acquired c1) ?P i dt" if "votes_exact (cs_acquired c) (set ?peers) i dt" for i dt
    using that unfolding votes_exact_def c1 by (auto split: if_splits)
  have inv1: "result_inv h B ?P c1 r"
    using inv ex by (auto simp: result_inv_def disputes_ok_def c1)
  have s1: "map_of (cs_acquired c1) (h s) = Some s" by (simp add: c1)
  have peers1: "cs_currPeerPositions c1 = ?peers" by (simp add: c1)
  have "distinct_keys (cs_currPeerPositions c1)" "?P \<subseteq> set (cs_currPeerPositions c1)"
    "set ?peers \<subseteq> set (cs_currPeerPositions c1)"
    using d peers1 by auto
  note up = update_proposers_spec [OF h inv1 this(1,2) s1 s(2) this(3) res]
  then have q: "quiet c1 c'" by blast
  have "?P \<union> {x \<in> set ?peers. pr_position (snd x) = h s} = set ?peers" by auto
  then have "result_inv h B (set ?peers) c' r'" using up by simp
  moreover have "compared h (set ?peers) (cs_acquired c') r'"
    unfolding compared_def quiet_frame [OF q]
  proof (intro allI impI)
    fix n p s'
    assume np: "(n, p) \<in> set ?peers" and s': "map_of (cs_acquired c1) (pr_position p) = Some s'"
    show "h s' \<in> set (rs_compares r')"
    proof (cases "pr_position p = h s")
      case True
      then have "s' = s" using s' s1 by simp
      moreover have "\<exists>x \<in> set ?peers. pr_position (snd x) = h s" using np True by force
      ultimately show ?thesis using up by simp
    next
      case False
      then have "map_of (cs_acquired c) (pr_position p) = Some s'" using s' by (simp add: c1)
      then show ?thesis using cmp np up unfolding compared_def by blast
    qed
  qed
  ultimately show ?thesis using up by blast
qed

lemma cinv_store_result:
  assumes "cinv h B c" and "cs_result c \<noteq> None" and "stance_ok h B c r"
  shows "cinv h B (c\<lparr>cs_result := Some r\<rparr>)"
  using assms by (auto simp: cinv_def peers_ok_def acquired_ok_def stance_ok_def result_inv_def)

lemma cinv_quiet: "quiet c c' \<Longrightarrow> cinv h B c' = cinv h B c"
  unfolding quiet_def by auto

lemma cinv_acquired:
  assumes "cinv h B c" and "s \<subseteq> B" and "cs_result c = None"
  shows "cinv h B (c\<lparr>cs_acquired := (h s, s) # cs_acquired c\<rparr>)"
  using assms by (auto simp: cinv_def peers_ok_def acquired_ok_def)

lemma cinv_stanceI:
  assumes "peers_ok c" and "acquired_ok h B c" and "cs_phase c \<noteq> cp_open" and "stance_ok h B c r"
  shows "cinv h B (c\<lparr>cs_result := Some r\<rparr>)"
  using assms by (simp add: cinv_def peers_ok_def acquired_ok_def stance_ok_def result_inv_def)

lemma gotTxSet_inv [inv_intros]:
  assumes "adaptor_ok h B ad" and "s \<subseteq> B" and "cinv h B c"
  shows "cinv h B (gotTxSet ad now s c)"
proof (cases "cs_phase c = cp_accepted \<or> h s \<in> keys (cs_acquired c)")
  case True
  then show ?thesis using assms by (elim disjE) (simp_all add: gotTxSet_def Let_def adaptor_ok_def)
next
  case new: False
  have h: "setID ad = h" "finite B" "inj_on h (Pow B)" using assms(1) by (simp_all add: adaptor_ok_def)
  let ?c = "c\<lparr>cs_now := now\<rparr>"
  let ?c1 = "?c\<lparr>cs_acquired := (h s, s) # cs_acquired ?c\<rparr>"
  have inv: "cinv h B ?c" using assms(3) by simp
  show ?thesis
  proof (cases "cs_result c")
    case None
    then have "gotTxSet ad now s c = ?c1" using new h(1) by (auto simp: gotTxSet_def Let_def)
    then show ?thesis using cinv_acquired [OF inv assms(2)] None by simp
  next
    case (Some r)
    obtain r' c' where up: "update_proposers ad s (cs_currPeerPositions ?c) (r, ?c1) = (r', c')" by fastforce
    have st: "stance_ok h B ?c r" and pk: "peers_ok ?c" using inv Some by (simp_all add: cinv_def)
    have "result_inv h B (set (cs_currPeerPositions ?c)) ?c r"
      "compared h (set (cs_currPeerPositions ?c)) (cs_acquired ?c) r" "h s \<notin> keys (cs_acquired ?c)"
      using st new by (simp_all add: stance_ok_def)
    note sp = acquire_set_spec [OF h pk this(1-3) assms(2) refl up]
    then have q: "quiet ?c1 c'" by blast
    note fr = quiet_frame [OF q]
    have "gotTxSet ad now s c = c'\<lparr>cs_result := Some r'\<rparr>"
      using new h(1) Some up by (simp add: gotTxSet_def Let_def store_result_def)
    moreover have "cinv h B (c'\<lparr>cs_result := Some r'\<rparr>)"
    proof (rule cinv_stanceI)
      show "peers_ok c'" "acquired_ok h B c'"
        using inv assms(2) by (auto simp: peers_ok_def acquired_ok_def cinv_def fr)
      show "cs_phase c' \<noteq> cp_open" using assms(3) Some by (auto simp: fr cinv_def)
      show "stance_ok h B c' r'"
        using sp st by (auto simp: stance_ok_def fr same_stance_iff)
    qed
    ultimately show ?thesis by simp
  qed
qed

section \<open>Proposals of peers\<close>

lemma stance_ok_bowOut:
  assumes st: "stance_ok h B c r"
    and c': "c' = c\<lparr>cs_currPeerPositions := AList.delete n (cs_currPeerPositions c)\<rparr>"
  shows "stance_ok h B c' (r\<lparr>rs_disputes := map (\<lambda>(i, d). (i, unVote n d)) (rs_disputes r)\<rparr>)"
proof -
  let ?peers = "cs_currPeerPositions c"
  have sub: "set (AList.delete n ?peers) \<subseteq> set ?peers" by (simp add: set_AList_delete subset_iff)
  have "disputes_ok B (cs_acquired c) (keys ?peers) (set ?peers) r"
    using st by (simp add: stance_ok_def result_inv_def)
  then have "disputes_ok B (cs_acquired c) (keys ?peers - {n}) (set (AList.delete n ?peers))
      (r\<lparr>rs_disputes := map (\<lambda>(i, d). (i, unVote n d)) (rs_disputes r)\<rparr>)"
  proof (rule disputes_ok_map)
    fix i d
    assume d: "dispute_wf B (keys ?peers) (rs_txns r) i d" "votes_exact (cs_acquired c) (set ?peers) i d"
    have "dispute_wf B (keys ?peers - {n}) (rs_txns r) i (unVote n d)"
      using d(1) dispute_inv_unVote [of d n] by (auto simp: dispute_wf_def dom_def)
    moreover have "votes_exact (cs_acquired c) (set (AList.delete n ?peers)) i (unVote n d)"
      by (rule votes_exact_unVote [OF votes_exact_mono [OF d(2) sub]]) (simp add: set_AList_delete image_iff)
    ultimately show "dispute_wf B (keys ?peers - {n}) (rs_txns r) i (unVote n d)
      \<and> votes_exact (cs_acquired c) (set (AList.delete n ?peers)) i (unVote n d)" by blast
  qed
  moreover have "compared h (set (AList.delete n ?peers)) (cs_acquired c) r"
    using st sub unfolding stance_ok_def compared_def by blast
  ultimately show ?thesis
    using st by (simp add: stance_ok_def result_inv_def c' compared_def)
qed

lemma stance_ok_new_position:
  assumes st: "stance_ok h B c r" and pk: "peers_ok c"
    and c': "c' = c\<lparr>cs_currPeerPositions := AList.update n p (cs_currPeerPositions c)\<rparr>"
  shows "result_inv h B {x \<in> set (cs_currPeerPositions c). fst x \<noteq> n} c' r
    \<and> (map_of (cs_acquired c) (pr_position p) = None \<longrightarrow> stance_ok h B c' r)"
proof -
  let ?peers = "cs_currPeerPositions c" and ?P = "{x \<in> set (cs_currPeerPositions c). fst x \<noteq> n}"
  have d: "distinct_keys ?peers" using pk by (simp add: peers_ok_def)
  have dis: "disputes_ok B (cs_acquired c) (keys ?peers) (set ?peers) r"
    using st by (simp add: stance_ok_def result_inv_def)
  have wf: "dispute_wf B (insert n (keys ?peers)) (rs_txns r) i dt" if "dispute_wf B (keys ?peers) (rs_txns r) i dt" for i dt
    using that by (auto simp: dispute_wf_def)
  have "disputes_ok B (cs_acquired c) (insert n (keys ?peers)) ?P r"
    using dis by (rule disputes_ok_weaken) (auto intro: wf votes_exact_mono)
  then have "result_inv h B ?P c' r"
    using st by (simp add: stance_ok_def result_inv_def c')
  moreover have "stance_ok h B c' r" if none: "map_of (cs_acquired c) (pr_position p) = None"
  proof -
    have "votes_exact (cs_acquired c) (insert (n, p) ?P) i dt" if "votes_exact (cs_acquired c) (set ?peers) i dt" for i dt
      using that none unfolding votes_exact_def by auto
    then have "disputes_ok B (cs_acquired c) (insert n (keys ?peers)) (insert (n, p) ?P) r"
      using dis by (elim disputes_ok_weaken) (auto intro: wf)
    moreover have "compared h (insert (n, p) ?P) (cs_acquired c) r"
      using st none unfolding stance_ok_def compared_def by auto
    moreover have ks: "keys (cs_currPeerPositions c') = insert n (keys ?peers)" and aq: "cs_acquired c' = cs_acquired c"
      by (simp_all add: c')
    moreover have ps: "set (cs_currPeerPositions c') = insert (n, p) ?P"
      by (simp add: c' set_AList_update [OF d])
    ultimately show ?thesis
      using st unfolding stance_ok_def result_inv_def ks aq unfolding ps by blast
  qed
  ultimately show ?thesis by blast
qed

lemma peer_bows_out_inv:
  assumes "cinv h B c"
  shows "cinv h B (peer_bows_out n c)"
proof -
  let ?c1 = "c\<lparr>cs_currPeerPositions := AList.delete n (cs_currPeerPositions c)\<rparr>"
  have "stance_ok h B ?c1 (r\<lparr>rs_disputes := map (\<lambda>(i, d). (i, unVote n d)) (rs_disputes r)\<rparr>)"
    if "cs_result c = Some r" for r
    using assms that by (intro stance_ok_bowOut [OF _ refl]) (simp add: cinv_def)
  moreover have "stance_ok h B (peer_bows_out n c) r = stance_ok h B ?c1 r" for r
    by (rule stance_ok_irrelevant) (simp_all add: peer_bows_out_def)
  moreover have "peers_ok (peer_bows_out n c)" "acquired_ok h B (peer_bows_out n c)"
    using assms by (auto simp: peer_bows_out_def cinv_def peers_ok_def acquired_ok_def set_AList_delete)
  ultimately show ?thesis
    using assms by (auto simp: cinv_def) (auto simp: peer_bows_out_def)
qed

lemma record_position_inv:
  assumes ok: "adaptor_ok h B ad" and inv: "cinv h B c"
    and p: "\<not> isBowOut p" "cs_phase c \<noteq> cp_accepted" "pr_previousLedger p = cs_prevLedgerID c"
      "pr_nodeID p \<notin> set (cs_deadNodes c)"
  shows "cinv h B (record_position ad p c)"
proof -
  have h: "setID ad = h" "finite B" "inj_on h (Pow B)"
    using ok by (simp_all add: adaptor_ok_def)
  let ?n = "pr_nodeID p" and ?peers = "cs_currPeerPositions c"
  define c1 where "c1 = c\<lparr>cs_currPeerPositions := AList.update ?n p ?peers\<rparr>"
  define c2 where "c2 = (if isInitial p
      then c1\<lparr>cs_rawCloseTimes := (cs_rawCloseTimes c1)
               \<lparr>ct_peers := increment_at (pr_closeTime p) (ct_peers (cs_rawCloseTimes c1))\<rparr>\<rparr> else c1)"
  have fr: "cs_acquired c2 = cs_acquired c" "cs_currPeerPositions c2 = AList.update ?n p ?peers"
    "cs_result c2 = cs_result c" "cs_phase c2 = cs_phase c" "cs_prevLedgerID c2 = cs_prevLedgerID c"
    "cs_deadNodes c2 = cs_deadNodes c"
    by (simp_all add: c2_def c1_def)
  have d: "distinct_keys ?peers" and pk: "peers_ok c" using inv by (simp_all add: cinv_def peers_ok_def)
  have pk2: "peers_ok c2" and aq2: "acquired_ok h B c2"
    using inv p by (auto simp: cinv_def peers_ok_def acquired_ok_def fr set_AList_update [OF d])
  have eq: "record_position ad p c =
     (case map_of (cs_acquired c2) (pr_position p) of
           None \<Rightarrow> (case acquireTxSet ad (pr_position p) of
                      Some s \<Rightarrow> gotTxSet ad (cs_now c2) s c2
                    | None \<Rightarrow> c2)
         | Some s \<Rightarrow> (case cs_result c2 of
                       Some r \<Rightarrow> store_result (updateDisputes ad ?n s r c2)
                     | None \<Rightarrow> c2))"
    unfolding record_position_def c2_def c1_def Let_def by (rule refl)
  have st: "result_inv h B {x \<in> set ?peers. fst x \<noteq> ?n} c2 r"
    "map_of (cs_acquired c) (pr_position p) = None \<Longrightarrow> stance_ok h B c2 r" if "cs_result c = Some r" for r
    using stance_ok_new_position [of h B c r c1 ?n p] that inv
    by (auto simp: cinv_def c2_def c1_def stance_ok_def result_inv_def)
  show ?thesis
  proof (cases "map_of (cs_acquired c) (pr_position p)")
    case None
    have inv2: "cinv h B c2"
      using pk2 aq2 st(2) None inv by (simp add: cinv_def fr)
    then show ?thesis
      using None ok gotTxSet_inv [OF ok _ inv2] by (auto simp: eq fr adaptor_ok_def split: option.split)
  next
    case (Some s)
    show ?thesis
    proof (cases "cs_result c")
      case None
      then show ?thesis using Some pk2 aq2 inv by (simp add: eq fr cinv_def)
    next
      case res: (Some r)
      obtain r' c' where u: "updateDisputes ad ?n s r c2 = (r', c')" by fastforce
      have np: "(?n, p) \<in> set (cs_currPeerPositions c2)" by (simp add: fr set_AList_update [OF d])
      have sB: "s \<subseteq> B" "h s = pr_position p"
        using acquired_okD [of h B c] Some inv by (auto simp: cinv_def)
      have "distinct_keys (cs_currPeerPositions c2)"
        "{x \<in> set ?peers. fst x \<noteq> ?n} \<subseteq> set (cs_currPeerPositions c2)"
        "map_of (cs_acquired c2) (pr_position p) = Some s"
        using d Some by (auto simp: fr set_AList_update)
      note up = updateDisputes_spec [OF h st(1) [OF res] this(1,2) np this(3) sB(1) u]
      then have q: "quiet c2 c'" by blast
      note fr' = quiet_frame [OF q]
      have "stance_ok h B c r" using inv res by (simp add: cinv_def)
      then have "compared h (set ?peers) (cs_acquired c) r" "pr_position (rs_position r) = h (rs_txns r)"
        "h (rs_txns r) \<in> keys (cs_acquired c)"
        by (simp_all add: stance_ok_def)
      then have "stance_ok h B c' r'"
        using up Some sB(2)
        by (auto simp: stance_ok_def fr fr' same_stance_iff set_AList_update [OF d] compared_def)
      moreover have "peers_ok c'" "acquired_ok h B c'"
        using pk2 aq2 by (simp_all add: peers_ok_def acquired_ok_def fr')
      moreover have "cs_phase c' \<noteq> cp_open"
        using inv res by (auto simp: fr fr' cinv_def)
      ultimately show ?thesis
        using Some res u cinv_stanceI [of c' h B r'] by (simp add: eq fr store_result_def)
    qed
  qed
qed

lemma peerProposalInternal_inv [inv_intros]:
  assumes "adaptor_ok h B ad" and "cinv h B c"
  shows "cinv h B (snd (peerProposalInternal ad now p c))"
  using assms peer_bows_out_inv [of h B "c\<lparr>cs_now := now\<rparr>"] record_position_inv [of h B ad "c\<lparr>cs_now := now\<rparr>" p]
  by (auto simp: peerProposalInternal_def Let_def)

lemma peerProposal_inv [inv_intros]:
  assumes "adaptor_ok h B ad" and "cinv h B c"
  shows "cinv h B (snd (peerProposal ad now p c))"
  using assms by (simp add: peerProposal_def Let_def peerProposalInternal_inv)

lemma playbackProposals_inv [inv_intros]:
  assumes "adaptor_ok h B ad" and "cinv h B c"
  shows "cinv h B (playbackProposals ad c)"
proof -
  let ?f = "\<lambda>p c. if pr_previousLedger p = cs_prevLedgerID c
                 then let (relay, c') = peerProposalInternal ad (cs_now c) p c
                      in if relay then emit (ev_sharePosition p) c' else c'
                 else c"
  have "cinv h B (fold ?f ps c)" if "cinv h B c" for ps c
    using that
  proof (induction ps arbitrary: c)
    case (Cons p ps)
    have "cinv h B (?f p c)"
      using Cons.prems peerProposalInternal_inv [OF assms(1), of c "cs_now c" p] by (simp add: Let_def case_prod_unfold)
    then show ?case using Cons.IH by simp
  qed simp
  then show ?thesis using assms(2) by (simp add: playbackProposals_def)
qed

section \<open>Closing the ledger\<close>

definition compare_position :: "Adaptor \<Rightarrow> NodeID \<times> ConsensusProposal \<Rightarrow> ConsensusResult \<times> Consensus
    \<Rightarrow> ConsensusResult \<times> Consensus" where
  "compare_position ad = (\<lambda>(_, p) (r, c). case map_of (cs_acquired c) (pr_position p) of
                                    Some s \<Rightarrow> createDisputes ad s r c
                                  | None \<Rightarrow> (r, c))"

lemma compare_positions_spec:
  assumes h: "setID ad = h" "finite B" "inj_on h (Pow B)"
    and inv: "result_inv h B (set (cs_currPeerPositions c)) c r"
    and c: "distinct_keys (cs_currPeerPositions c)" "acquired_ok h B c"
    and res: "fold (compare_position ad) xs (r, c) = (r', c')"
  shows "result_inv h B (set (cs_currPeerPositions c)) c' r' \<and> quiet c c' \<and> same_stance r r'
    \<and> set (rs_compares r) \<subseteq> set (rs_compares r') \<and> compared h (set xs) (cs_acquired c) r'"
  using inv c res
proof (induction xs arbitrary: r c)
  case Nil
  then show ?case by (simp add: compared_def)
next
  case (Cons x xs)
  obtain n p where x: "x = (n, p)" by fastforce
  obtain r1 c1 where st: "compare_position ad x (r, c) = (r1, c1)" by fastforce
  have one: "result_inv h B (set (cs_currPeerPositions c)) c1 r1 \<and> quiet c c1 \<and> same_stance r r1
      \<and> set (rs_compares r) \<subseteq> set (rs_compares r1) \<and> compared h {x} (cs_acquired c) r1"
  proof (cases "map_of (cs_acquired c) (pr_position p)")
    case None
    then show ?thesis using st Cons.prems(1) by (simp add: x compare_position_def compared_def)
  next
    case (Some s)
    then have cd: "createDisputes ad s r c = (r1, c1)" using st by (simp add: x compare_position_def)
    note sp = createDisputes_spec [OF h acquired_okD(1) [OF Cons.prems(3) Some] Cons.prems(1,2) subset_refl cd]
    then show ?thesis using Some by (auto simp: x compared_def)
  qed
  then have q: "quiet c c1" by blast
  note fr = quiet_frame [OF q]
  have "fold (compare_position ad) xs (r1, c1) = (r', c')" using Cons.prems(4) st by simp
  then have "result_inv h B (set (cs_currPeerPositions c1)) c' r' \<and> quiet c1 c' \<and> same_stance r1 r'
    \<and> set (rs_compares r1) \<subseteq> set (rs_compares r') \<and> compared h (set xs) (cs_acquired c1) r'"
    using Cons.prems(2,3) one fr by (intro Cons.IH) (simp_all add: acquired_ok_def)
  moreover from this one have "compared h (set (x # xs)) (cs_acquired c) r'"
    by (auto simp: compared_def fr)
  ultimately show ?case
    using one fr quiet_trans [OF q] by (auto intro: same_stance_trans)
qed

lemma closeLedger_eq:
  "closeLedger ad c =
     (let c0 = c\<lparr>cs_phase := cp_establish, cs_rawCloseTimes := (cs_rawCloseTimes c)\<lparr>ct_self := cs_now c\<rparr>,
                 cs_peerUnchangedCounter := 0, cs_establishCounter := 0\<rparr>;
          tp = onClose ad (cs_previousLedger c) (cs_now c) (cs_mode c);
          r = (new_ConsensusResult (fst tp) (snd tp))\<lparr>rs_roundTime := timer_reset (ad_clock ad)\<rparr>;
          c1 = (if setID ad (fst tp) \<in> keys (cs_acquired c) then c0
                else emit (ev_shareSet (fst tp)) (c0\<lparr>cs_acquired := (setID ad (fst tp), fst tp) # cs_acquired c\<rparr>));
          c2 = (if cs_mode c = cm_proposing then emit (ev_propose (snd tp)) c1 else c1)
      in store_result (fold (compare_position ad) (cs_currPeerPositions c) (r, c2)))"
  by (simp add: closeLedger_def compare_position_def Let_def emit_def case_prod_unfold)

lemma closeLedger_spec:
  assumes ok: "adaptor_ok h B ad" and pk: "peers_ok c" and aq: "acquired_ok h B c"
  shows "cinv h B (closeLedger ad c) \<and> cs_phase (closeLedger ad c) = cp_establish"
proof -
  have h: "setID ad = h" "finite B" "inj_on h (Pow B)"
    using ok by (simp_all add: adaptor_ok_def)
  define tp where "tp = onClose ad (cs_previousLedger c) (cs_now c) (cs_mode c)"
  define r where "r = (new_ConsensusResult (fst tp) (snd tp))\<lparr>rs_roundTime := timer_reset (ad_clock ad)\<rparr>"
  define c0 where "c0 = c\<lparr>cs_phase := cp_establish, cs_rawCloseTimes := (cs_rawCloseTimes c)\<lparr>ct_self := cs_now c\<rparr>,
                 cs_peerUnchangedCounter := 0, cs_establishCounter := 0\<rparr>"
  define c1 where "c1 = (if setID ad (fst tp) \<in> keys (cs_acquired c) then c0
                else emit (ev_shareSet (fst tp)) (c0\<lparr>cs_acquired := (setID ad (fst tp), fst tp) # cs_acquired c\<rparr>))"
  define c2 where "c2 = (if cs_mode c = cm_proposing then emit (ev_propose (snd tp)) c1 else c1)"
  obtain r' c' where cp: "fold (compare_position ad) (cs_currPeerPositions c) (r, c2) = (r', c')" by fastforce
  have tp: "fst tp \<subseteq> B" "pr_position (snd tp) = h (fst tp)"
    using ok by (simp_all add: tp_def adaptor_ok_def)
  have fr: "cs_currPeerPositions c2 = cs_currPeerPositions c" "cs_phase c2 = cp_establish"
    "cs_prevLedgerID c2 = cs_prevLedgerID c" "cs_deadNodes c2 = cs_deadNodes c"
    by (simp_all add: c2_def c1_def c0_def emit_def)
  have pk2: "peers_ok c2" using pk by (simp add: peers_ok_def fr)
  have aq2: "acquired_ok h B c2" and in2: "h (fst tp) \<in> keys (cs_acquired c2)"
    using aq tp(1) h(1) by (auto simp: acquired_ok_def c2_def c1_def c0_def emit_def)
  have inv2: "result_inv h B (set (cs_currPeerPositions c2)) c2 r"
    using tp(1) by (simp add: r_def new_ConsensusResult_def result_inv_def disputes_ok_def compares_ok_def)
  have "distinct_keys (cs_currPeerPositions c2)" using pk2 by (simp add: peers_ok_def)
  note sp = compare_positions_spec [OF h inv2 this aq2 cp]
  then have q: "quiet c2 c'" by blast
  note fr' = quiet_frame [OF q]
  have "stance_ok h B c' r'"
    using sp in2 tp by (auto simp: stance_ok_def fr fr' same_stance_iff r_def new_ConsensusResult_def)
  moreover have "peers_ok c'" "acquired_ok h B c'"
    using pk2 aq2 by (simp_all add: peers_ok_def acquired_ok_def fr')
  ultimately have "cinv h B (c'\<lparr>cs_result := Some r'\<rparr>)"
    using fr fr' by (intro cinv_stanceI) simp_all
  moreover have "closeLedger ad c = c'\<lparr>cs_result := Some r'\<rparr>"
    using cp unfolding closeLedger_eq Let_def tp_def r_def c2_def c1_def c0_def by (simp add: store_result_def)
  ultimately show ?thesis using fr fr' by simp
qed

lemma phaseOpen_inv [inv_intros]:
  assumes "adaptor_ok h B ad" and "cinv h B c"
  shows "cinv h B (phaseOpen ad c)"
proof -
  let ?c = "c\<lparr>cs_openTime := timer_tick (ad_clock ad) (cs_openTime c)\<rparr>"
  have "cinv h B ?c" using assms(2) by simp
  moreover from this have "cinv h B (closeLedger ad ?c)"
    using closeLedger_spec [OF assms(1), of ?c] by (simp add: cinv_def)
  ultimately show ?thesis by (simp add: phaseOpen_def Let_def del: cinv_irrelevant)
qed

section \<open>Updating our position\<close>

lemma drop_stale_eq:
  "drop_stale cutoff peers r =
     (filter (\<lambda>(_, p). \<not> isStale cutoff p) peers,
      r\<lparr>rs_disputes := map (\<lambda>(i, d). (i, fold unVote (map (pr_nodeID \<circ> snd) (filter (\<lambda>(_, p). isStale cutoff p) peers)) d))
                         (rs_disputes r)\<rparr>)"
proof -
  have "fold (\<lambda>(_, p) r. if isStale cutoff p
                       then r\<lparr>rs_disputes := map (\<lambda>(i, d). (i, unVote (pr_nodeID p) d)) (rs_disputes r)\<rparr> else r) peers r
      = r\<lparr>rs_disputes := map (\<lambda>(i, d). (i, fold unVote (map (pr_nodeID \<circ> snd) (filter (\<lambda>(_, p). isStale cutoff p) peers)) d))
                         (rs_disputes r)\<rparr>"
  proof (induction peers arbitrary: r)
    case (Cons x peers)
    then show ?case by (cases x) (simp add: case_prod_unfold comp_def)
  qed simp
  then show ?thesis by (simp add: drop_stale_def)
qed

lemma drop_stale_spec:
  assumes st: "stance_ok h B c r" and pk: "peers_ok c"
    and ds: "drop_stale cutoff (cs_currPeerPositions c) r = (peers, r')"
    and c': "c' = c\<lparr>cs_currPeerPositions := peers\<rparr>"
  shows "stance_ok h B c' r' \<and> peers_ok c' \<and> same_stance r r'"
proof -
  let ?peers = "cs_currPeerPositions c"
  let ?ns = "map (pr_nodeID \<circ> snd) (filter (\<lambda>(_, p). isStale cutoff p) ?peers)"
  have peers: "peers = filter (\<lambda>(_, p). \<not> isStale cutoff p) ?peers"
    and r': "r' = r\<lparr>rs_disputes := map (\<lambda>(i, d). (i, fold unVote ?ns d)) (rs_disputes r)\<rparr>"
    using ds unfolding drop_stale_eq by simp_all
  have sub: "set peers \<subseteq> set ?peers" by (auto simp: peers)
  have d: "distinct_keys ?peers" using pk by (simp add: peers_ok_def)
  have stale: "k \<notin> set ?ns" if "(k, p) \<in> set peers" for k p
  proof
    assume "k \<in> set ?ns"
    then obtain n q where q: "(n, q) \<in> set ?peers" "isStale cutoff q" "pr_nodeID q = k" by auto
    then have "n = k" using pk by (auto simp: peers_ok_def)
    moreover have "(k, p) \<in> set ?peers" "\<not> isStale cutoff p" using that by (auto simp: peers)
    ultimately show False using q d by (metis eq_key_imp_eq_value)
  qed
  have keep: "k \<in> keys peers" if k: "k \<in> keys ?peers" "k \<notin> set ?ns" for k
  proof -
    obtain p where p: "(k, p) \<in> set ?peers" using k(1) by auto
    then have "pr_nodeID p = k" using pk by (auto simp: peers_ok_def)
    then have "\<not> isStale cutoff p" using k(2) p by force
    then have "(k, p) \<in> set peers" using p by (simp add: peers)
    then show ?thesis by force
  qed
  have "disputes_ok B (cs_acquired c) (keys ?peers) (set ?peers) r"
    using st by (simp add: stance_ok_def result_inv_def)
  then have "disputes_ok B (cs_acquired c) (keys peers) (set peers) r'"
    unfolding r'
  proof (rule disputes_ok_map)
    fix i dt
    assume dt: "dispute_wf B (keys ?peers) (rs_txns r) i dt" "votes_exact (cs_acquired c) (set ?peers) i dt"
    have "dom (map_of (votes (fold unVote ?ns dt))) \<subseteq> keys peers"
    proof
      fix k assume "k \<in> dom (map_of (votes (fold unVote ?ns dt)))"
      then have "k \<notin> set ?ns" "k \<in> dom (map_of (votes dt))"
        by (auto simp: fold_unVote dom_def split: if_splits)
      moreover have "dom (map_of (votes dt)) \<subseteq> keys ?peers" using dt(1) by (simp add: dispute_wf_def)
      ultimately show "k \<in> keys peers" using keep by blast
    qed
    then have "dispute_wf B (keys peers) (rs_txns r) i (fold unVote ?ns dt)"
      using dt(1) by (simp add: dispute_wf_def fold_unVote)
    moreover have "votes_exact (cs_acquired c) (set peers) i (fold unVote ?ns dt)"
      using votes_exact_mono [OF dt(2) sub] stale unfolding votes_exact_def fold_unVote by auto
    ultimately show "dispute_wf B (keys peers) (rs_txns r) i (fold unVote ?ns dt)
      \<and> votes_exact (cs_acquired c) (set peers) i (fold unVote ?ns dt)" by blast
  qed
  moreover have "compared h (set peers) (cs_acquired c) r'"
    using st sub unfolding stance_ok_def compared_def r' by auto
  ultimately have "stance_ok h B c' r'"
    using st by (simp add: stance_ok_def result_inv_def c' r')
  moreover have "peers_ok c'"
    using pk sub distinct_map_filter [OF d] unfolding peers_ok_def c' peers by auto
  ultimately show ?thesis by (simp add: r')
qed

text \<open>The votes on the disputes: our set follows them, and changes in disputed transactions only.\<close>

lemma updateVote_changed:
  assumes "updateVote t pr p d = Some (changed, d')"
  shows "changed = (ourVote d' \<noteq> ourVote d)"
proof (cases "ourVote d \<and> nays d = 0 \<or> \<not> ourVote d \<and> yays d = 0")
  case True
  then show ?thesis using assms by (simp add: updateVote_idle)
next
  case False
  then obtain pct d1 where d1: "advanceAvalanche t p d = Some (pct, d1)"
    and r: "(changed, d') = settleVote (newPosition pct pr d1) d1"
    using assms by (auto simp: updateVote_def split: option.splits if_splits)
  have "changed = fst (settleVote (newPosition pct pr d1) d1)" "d' = snd (settleVote (newPosition pct pr d1) d1)"
    using r by (metis fst_conv, metis snd_conv)
  then show ?thesis using advanceAvalanche_frame(4) [OF d1] by simp
qed

definition current_set :: "TxSet \<Rightarrow> TxSet option \<Rightarrow> TxSet" where
  "current_set txns ms = (case ms of None \<Rightarrow> txns | Some s \<Rightarrow> s)"

definition dispute_updated :: "TxSet \<Rightarrow> TxID \<times> (TxID, NodeID) DisputedTx \<Rightarrow> TxID \<times> (TxID, NodeID) DisputedTx \<Rightarrow> bool" where
  "dispute_updated S x y \<longleftrightarrow>
     fst y = fst x \<and> disputed_tx (snd y) = disputed_tx (snd x) \<and> votes (snd y) = votes (snd x)
     \<and> yays (snd y) = yays (snd x) \<and> nays (snd y) = nays (snd x) \<and> (ourVote (snd y) \<longleftrightarrow> fst y \<in> S)"

lemma vote_disputes_spec:
  assumes "vote_disputes parms pct pr txns ms ds = Some (ds', ms')" and "distinct_keys ds"
    and "\<forall>(i, d) \<in> set ds. disputed_tx d = i \<and> (ourVote d \<longleftrightarrow> i \<in> current_set txns ms)"
  shows "list_all2 (dispute_updated (current_set txns ms')) ds ds'
    \<and> (\<forall>x. x \<notin> keys ds \<longrightarrow> (x \<in> current_set txns ms' \<longleftrightarrow> x \<in> current_set txns ms))
    \<and> (ms' = None \<longrightarrow> ms = None)"
  using assms
proof (induction ds arbitrary: ms ds')
  case Nil
  then show ?case by simp
next
  case (Cons x ds)
  obtain i d where x: "x = (i, d)" by fastforce
  obtain ch d' where uv: "updateVote pct pr parms d = Some (ch, d')"
    using Cons.prems(1) x by (auto split: option.splits)
  have tx: "disputed_tx d = i" "ourVote d \<longleftrightarrow> i \<in> current_set txns ms"
    using Cons.prems(3) x by auto
  note fr = updateVote_frame [OF uv]
  define ms1 where "ms1 = (if ch then Some (if ourVote d' then insert (disputed_tx d') (current_set txns ms)
                                            else current_set txns ms - {i}) else ms)"
  obtain ds1 where rest: "vote_disputes parms pct pr txns ms1 ds = Some (ds1, ms')" and ds': "ds' = (i, d') # ds1"
    using Cons.prems(1) x uv by (cases ch) (auto simp: ms1_def Let_def simp flip: current_set_def)
  have i1: "ourVote d' \<longleftrightarrow> i \<in> current_set txns ms1"
    using updateVote_changed [OF uv] tx fr by (auto simp: ms1_def current_set_def)
  have o1: "y \<in> current_set txns ms1 \<longleftrightarrow> y \<in> current_set txns ms" if "y \<noteq> i" for y
    using that tx(1) fr by (auto simp: ms1_def current_set_def)
  have nin: "i \<notin> keys ds" and dk: "distinct_keys ds"
    using Cons.prems(2) x by simp_all
  have "disputed_tx e = j \<and> (ourVote e \<longleftrightarrow> j \<in> current_set txns ms1)" if "(j, e) \<in> set ds" for j e
  proof -
    have "j \<noteq> i" using nin that by force
    then show ?thesis using Cons.prems(3) that o1 by auto
  qed
  then have IH: "list_all2 (dispute_updated (current_set txns ms')) ds ds1"
    "\<forall>x. x \<notin> keys ds \<longrightarrow> (x \<in> current_set txns ms' \<longleftrightarrow> x \<in> current_set txns ms1)" "ms' = None \<longrightarrow> ms1 = None"
    using Cons.IH [OF rest dk] by blast+
  then have "dispute_updated (current_set txns ms') (i, d) (i, d')"
    using nin i1 fr tx(1) by (simp add: dispute_updated_def)
  moreover have "ms' = None \<longrightarrow> ms = None"
    using IH(3) by (auto simp: ms1_def split: if_splits)
  ultimately show ?case
    using IH o1 by (simp add: x ds')
qed

lemma list_all2_map_fst:
  "list_all2 (dispute_updated S) ds ds' \<Longrightarrow> map fst ds' = map fst ds"
  by (induction rule: list_all2_induct) (simp_all add: dispute_updated_def)

lemma vote_disputes_stance:
  assumes st: "stance_ok h B c r"
    and vd: "vote_disputes parms pct pr (rs_txns r) None (rs_disputes r) = Some (ds, ms)"
    and S: "S = current_set (rs_txns r) ms"
  shows "S \<subseteq> B \<and> result_inv h B (set (cs_currPeerPositions c)) c (r\<lparr>rs_disputes := ds, rs_txns := S, rs_position := p\<rparr>)
    \<and> compared h (set (cs_currPeerPositions c)) (cs_acquired c) (r\<lparr>rs_disputes := ds, rs_txns := S, rs_position := p\<rparr>)
    \<and> (ms = None \<longrightarrow> stance_ok h B c (r\<lparr>rs_disputes := ds\<rparr>))"
proof -
  let ?P = "set (cs_currPeerPositions c)" and ?ns = "keys (cs_currPeerPositions c)"
  have dis: "disputes_ok B (cs_acquired c) ?ns ?P r" and tB: "rs_txns r \<subseteq> B" and cmp: "compares_ok h B r"
    using st by (simp_all add: stance_ok_def result_inv_def)
  then have dk: "distinct_keys (rs_disputes r)"
    and own: "\<forall>(i, d) \<in> set (rs_disputes r). disputed_tx d = i \<and> (ourVote d \<longleftrightarrow> i \<in> current_set (rs_txns r) None)"
    by (auto simp: disputes_ok_def dispute_wf_def current_set_def)
  note sp = vote_disputes_spec [OF vd dk own]
  have all2: "list_all2 (dispute_updated S) (rs_disputes r) ds" using sp S by simp
  note ks = list_all2_map_fst [OF all2]
  have keys: "keys ds = keys (rs_disputes r)" using ks by (metis list.set_map)
  have outside: "x \<in> S \<longleftrightarrow> x \<in> rs_txns r" if "x \<notin> keys (rs_disputes r)" for x
    using sp that by (simp add: S current_set_def)
  have kB: "keys (rs_disputes r) \<subseteq> B"
    using dis by (auto simp: disputes_ok_def dispute_wf_def)
  have SB: "S \<subseteq> B"
  proof
    fix x assume "x \<in> S"
    then show "x \<in> B" using outside [of x] kB tB by blast
  qed
  have "dispute_wf B ?ns S i d \<and> votes_exact (cs_acquired c) ?P i d" if "(i, d) \<in> set ds" for i d
  proof -
    obtain k where k: "k < length ds" "ds ! k = (i, d)" using \<open>(i, d) \<in> set ds\<close> by (auto simp: in_set_conv_nth)
    then have up: "dispute_updated S (rs_disputes r ! k) (i, d)" and kl: "k < length (rs_disputes r)"
      using all2 by (auto simp: list_all2_conv_all_nth)
    then obtain d0 where d0: "rs_disputes r ! k = (i, d0)" by (cases "rs_disputes r ! k") (auto simp: dispute_updated_def)
    then have "(i, d0) \<in> set (rs_disputes r)" using kl nth_mem by force
    then have "dispute_wf B ?ns (rs_txns r) i d0" "votes_exact (cs_acquired c) ?P i d0"
      using dis by (auto simp: disputes_ok_def)
    then show ?thesis
      using up d0 by (simp add: dispute_wf_def votes_exact_def dispute_updated_def dispute_inv_def)
  qed
  then have dis': "disputes_ok B (cs_acquired c) ?ns ?P (r\<lparr>rs_disputes := ds, rs_txns := S, rs_position := p\<rparr>)" for p
    using dk ks by (auto simp: disputes_ok_def)
  have cmp': "compares_ok h B (r\<lparr>rs_disputes := ds, rs_txns := S, rs_position := p\<rparr>)" for p
    unfolding compares_ok_def
  proof (intro allI impI)
    let ?r = "r\<lparr>rs_disputes := ds, rs_txns := S, rs_position := p\<rparr>"
    fix s' assume "s' \<subseteq> B" "h s' \<in> set (rs_compares ?r)"
    then have "(s' - rs_txns r) \<union> (rs_txns r - s') \<subseteq> keys (rs_disputes r)"
      using cmp by (simp add: compares_ok_def)
    then show "(s' - rs_txns ?r) \<union> (rs_txns ?r - s') \<subseteq> keys (rs_disputes ?r)"
      using keys outside by (simp add: subset_iff) blast
  qed
  have cd: "compared h ?P (cs_acquired c) (r\<lparr>rs_disputes := ds, rs_txns := S, rs_position := p\<rparr>)" for p
    using st by (simp add: stance_ok_def compared_def)
  have "stance_ok h B c (r\<lparr>rs_disputes := ds\<rparr>)" if "ms = None"
  proof -
    have "r\<lparr>rs_disputes := ds\<rparr> = r\<lparr>rs_disputes := ds, rs_txns := S, rs_position := rs_position r\<rparr>"
      using that S by (simp add: current_set_def)
    then show ?thesis
      using st dis' [of "rs_position r"] cmp' [of "rs_position r"] cd [of "rs_position r"] SB that S
      by (simp add: stance_ok_def result_inv_def current_set_def)
  qed
  then show ?thesis
    using SB dis' cmp' cd by (simp add: result_inv_def)
qed

lemma changePosition_position [simp]: "pr_position (changePosition i t now p) = i"
  by (simp add: changePosition_def Let_def)

lemma adopt_position_spec:
  assumes ok: "adaptor_ok h B ad" and pk: "peers_ok c" and aq: "acquired_ok h B c" and tB: "txns \<subseteq> B"
    and inv: "\<And>p. result_inv h B (set (cs_currPeerPositions c)) c (r\<lparr>rs_txns := txns, rs_position := p\<rparr>)
                \<and> compared h (set (cs_currPeerPositions c)) (cs_acquired c) (r\<lparr>rs_txns := txns, rs_position := p\<rparr>)"
    and res: "adopt_position ad txns t r c = (r', c')"
  shows "peers_ok c' \<and> acquired_ok h B c' \<and> stance_ok h B c' r' \<and> rs_txns r' = txns
    \<and> rs_position r' = changePosition (h txns) t (cs_now c) (rs_position r)
    \<and> (\<exists>k es aq. c' = c\<lparr>cs_peerUnchangedCounter := k, cs_events := es, cs_acquired := aq\<rparr>)
    \<and> rs_roundTime r' = rs_roundTime r \<and> rs_proposers r' = rs_proposers r"
proof -
  have h: "setID ad = h" "finite B" "inj_on h (Pow B)"
    using ok by (simp_all add: adaptor_ok_def)
  define p where "p = changePosition (h txns) t (cs_now c) (rs_position r)"
  define r1 where "r1 = r\<lparr>rs_txns := txns, rs_position := p\<rparr>"
  have inv1: "result_inv h B (set (cs_currPeerPositions c)) c r1"
    "compared h (set (cs_currPeerPositions c)) (cs_acquired c) r1"
    using inv by (simp_all add: r1_def)
  define c1 where "c1 = c\<lparr>cs_acquired := (h txns, txns) # cs_acquired c\<rparr>"
  define c2 where "c2 = (if \<not> isBowOut p then emit (ev_shareSet txns) c1 else c1)"
  obtain r3 c3 where rc3: "(if h txns \<in> keys (cs_acquired c) then (r1, c)
                    else update_proposers ad txns (cs_currPeerPositions c2) (r1, c2)) = (r3, c3)" by fastforce
  have "adopt_position ad txns t r c =
      (case (if h txns \<in> keys (cs_acquired c) then (r1, c)
             else update_proposers ad txns (cs_currPeerPositions c2) (r1, c2)) of
         (r, c) \<Rightarrow> (r, if \<not> isBowOut (rs_position r) \<and> cs_mode c = cm_proposing then emit (ev_propose (rs_position r)) c else c))"
    unfolding adopt_position_def Let_def r1_def c2_def c1_def p_def h(1) by simp
  then have c': "c' = (if \<not> isBowOut (rs_position r3) \<and> cs_mode c3 = cm_proposing
                       then emit (ev_propose (rs_position r3)) c3 else c3)"
    and r': "r' = r3"
    using res unfolding rc3 by simp_all
  have three: "peers_ok c3 \<and> acquired_ok h B c3 \<and> stance_ok h B c3 r3 \<and> same_stance r1 r3
      \<and> (\<exists>k es aq. c3 = c\<lparr>cs_peerUnchangedCounter := k, cs_events := es, cs_acquired := aq\<rparr>)"
  proof (cases "h txns \<in> keys (cs_acquired c)")
    case True
    then have "r3 = r1" "c3 = c" using rc3 by simp_all
    moreover have "\<exists>k es aq. c = c\<lparr>cs_peerUnchangedCounter := k, cs_events := es, cs_acquired := aq\<rparr>"
      by (intro exI [of _ "cs_peerUnchangedCounter c"] exI [of _ "cs_events c"] exI [of _ "cs_acquired c"]) simp
    moreover have "stance_ok h B c r1"
      using True inv1 by (simp add: stance_ok_def) (simp add: r1_def p_def)
    ultimately show ?thesis
      using pk aq by simp
  next
    case False
    define ce where "ce = (if \<not> isBowOut p then emit (ev_shareSet txns) c else c)"
    have c2e: "c2 = ce\<lparr>cs_acquired := (h txns, txns) # cs_acquired ce\<rparr>"
      and ce: "cs_acquired ce = cs_acquired c" "cs_currPeerPositions ce = cs_currPeerPositions c"
      by (simp_all add: c2_def ce_def c1_def emit_def)
    have pke: "peers_ok ce" using pk by (simp add: ce_def peers_ok_def emit_def)
    have "result_inv h B (set (cs_currPeerPositions ce)) ce r1"
      "compared h (set (cs_currPeerPositions ce)) (cs_acquired ce) r1" "h txns \<notin> keys (cs_acquired ce)"
      "update_proposers ad txns (cs_currPeerPositions ce) (r1, c2) = (r3, c3)"
      using inv1 False rc3 by (simp_all add: ce result_inv_def c2e)
    note sp = acquire_set_spec [OF h pke this(1-3) tB c2e this(4)]
    then have q: "quiet c2 c3" by blast
    note fr = quiet_frame [OF q]
    have fr2: "cs_currPeerPositions c2 = cs_currPeerPositions c" "cs_acquired c2 = (h txns, txns) # cs_acquired c"
      "cs_prevLedgerID c2 = cs_prevLedgerID c" "cs_deadNodes c2 = cs_deadNodes c"
      by (simp_all add: c2_def c1_def emit_def)
    have "peers_ok c3" "acquired_ok h B c3"
      using pk aq tB by (auto simp: peers_ok_def acquired_ok_def fr fr2)
    moreover have "stance_ok h B c3 r3"
      using sp by (auto simp: stance_ok_def fr fr2 ce same_stance_iff r1_def p_def)
    moreover have "\<exists>k es aq. c3 = c\<lparr>cs_peerUnchangedCounter := k, cs_events := es, cs_acquired := aq\<rparr>"
    proof -
      obtain k es where "c3 = c2\<lparr>cs_peerUnchangedCounter := k, cs_events := es\<rparr>" using q unfolding quiet_def by blast
      then have "c3 = c\<lparr>cs_peerUnchangedCounter := k, cs_events := es, cs_acquired := (h txns, txns) # cs_acquired c\<rparr>"
        by (simp add: c2_def c1_def emit_def)
      then show ?thesis by blast
    qed
    ultimately show ?thesis using sp by blast
  qed
  then obtain k es aq' where c3: "c3 = c\<lparr>cs_peerUnchangedCounter := k, cs_events := es, cs_acquired := aq'\<rparr>" by blast
  have "peers_ok c' = peers_ok c3" "acquired_ok h B c' = acquired_ok h B c3" "stance_ok h B c' r' = stance_ok h B c3 r3"
    by (simp_all add: c' r' emit_def peers_ok_def acquired_ok_def stance_ok_def result_inv_def)
  moreover have "\<exists>k es aq. c' = c\<lparr>cs_peerUnchangedCounter := k, cs_events := es, cs_acquired := aq\<rparr>"
  proof -
    have "c' = c\<lparr>cs_peerUnchangedCounter := k, cs_events := cs_events c', cs_acquired := aq'\<rparr>"
      by (simp add: c' c3 emit_def)
    then show ?thesis by blast
  qed
  ultimately show ?thesis
    using three by (simp add: r' same_stance_iff r1_def p_def)
qed

text \<open>The steps of \<^verbatim>\<open>updateOurPositions\<close>, taken apart.\<close>

lemma updateOurPositions_steps:
  assumes "updateOurPositions ad r c = Some (r', c')"
  shows "\<exists>peers r1 ds ms t hv av c1 c2 r2.
    drop_stale (cs_now c - word_of_int (proposeFRESHNESS (ad_parms ad))) (cs_currPeerPositions c) r = (peers, r1)
    \<and> c1 = c\<lparr>cs_currPeerPositions := peers\<rparr>
    \<and> vote_disputes (ad_parms ad) (cs_convergePercent c) (cs_mode c = cm_proposing) (rs_txns r1) None (rs_disputes r1)
        = Some (ds, ms)
    \<and> r2 = r1\<lparr>rs_disputes := ds\<rparr>
    \<and> close_time_consensus (ad_parms ad) (close_time_votes c peers) r2 c1 = Some (t, hv, av)
    \<and> c2 = c1\<lparr>cs_haveCloseTimeConsensus := hv, cs_closeTimeAvalancheState := av\<rparr>
    \<and> (if ms = None \<and> t = asCloseTime c (pr_closeTime (rs_position r2))
          \<and> \<not> isStale (cs_now c - word_of_int (proposeINTERVAL (ad_parms ad))) (rs_position r2)
       then r' = r2 \<and> c' = c2
       else adopt_position ad (current_set (rs_txns r1) ms) t r2 c2 = (r', c'))"
proof -
  obtain peers r1 where ds: "drop_stale (cs_now c - word_of_int (proposeFRESHNESS (ad_parms ad))) (cs_currPeerPositions c) r
      = (peers, r1)" by fastforce
  define c1 where "c1 = c\<lparr>cs_currPeerPositions := peers\<rparr>"
  obtain d ms where vd: "vote_disputes (ad_parms ad) (cs_convergePercent c) (cs_mode c = cm_proposing) (rs_txns r1) None
      (rs_disputes r1) = Some (d, ms)"
    using assms by (auto simp: updateOurPositions_def Let_def ds split: option.splits)
  define r2 where "r2 = r1\<lparr>rs_disputes := d\<rparr>"
  obtain t hv av where ct: "close_time_consensus (ad_parms ad) (close_time_votes c peers) r2 c1 = Some (t, hv, av)"
    using assms by (auto simp: updateOurPositions_def Let_def ds vd c1_def r2_def split: option.splits)
  define c2 where "c2 = c1\<lparr>cs_haveCloseTimeConsensus := hv, cs_closeTimeAvalancheState := av\<rparr>"
  have eq: "Some (r', c') =
      (case (if ms = None \<and> (t \<noteq> asCloseTime c2 (pr_closeTime (rs_position r2))
                   \<or> isStale (cs_now c - word_of_int (proposeINTERVAL (ad_parms ad))) (rs_position r2))
             then Some (rs_txns r2) else ms) of
         None \<Rightarrow> Some (r2, c2)
       | Some txns \<Rightarrow> Some (adopt_position ad txns t r2 c2))"
    using assms vd ct unfolding updateOurPositions_def Let_def ds c1_def r2_def c2_def by simp
  have "asCloseTime c2 x = asCloseTime c x" for x
    by (simp add: asCloseTime_def c2_def c1_def)
  moreover have "rs_txns r2 = rs_txns r1" by (simp add: r2_def)
  ultimately have "if ms = None \<and> t = asCloseTime c (pr_closeTime (rs_position r2))
          \<and> \<not> isStale (cs_now c - word_of_int (proposeINTERVAL (ad_parms ad))) (rs_position r2)
       then r' = r2 \<and> c' = c2
       else adopt_position ad (current_set (rs_txns r1) ms) t r2 c2 = (r', c')"
    using eq by (cases ms) (auto simp: current_set_def split: if_splits)
  with ds vd ct show ?thesis
    unfolding c2_def r2_def c1_def by blast
qed

lemma updateOurPositions_spec:
  assumes ok: "adaptor_ok h B ad" and pk: "peers_ok c" and aq: "acquired_ok h B c" and st: "stance_ok h B c r"
    and res: "updateOurPositions ad r c = Some (r', c')"
  shows "peers_ok c' \<and> acquired_ok h B c' \<and> stance_ok h B c' r' \<and> cs_phase c' = cs_phase c"
proof -
  obtain peers r1 ds ms t hv av c1 c2 r2 where
    dr: "drop_stale (cs_now c - word_of_int (proposeFRESHNESS (ad_parms ad))) (cs_currPeerPositions c) r = (peers, r1)"
    and c1: "c1 = c\<lparr>cs_currPeerPositions := peers\<rparr>"
    and vd: "vote_disputes (ad_parms ad) (cs_convergePercent c) (cs_mode c = cm_proposing) (rs_txns r1) None (rs_disputes r1)
        = Some (ds, ms)"
    and r2: "r2 = r1\<lparr>rs_disputes := ds\<rparr>"
    and c2: "c2 = c1\<lparr>cs_haveCloseTimeConsensus := hv, cs_closeTimeAvalancheState := av\<rparr>"
    and out: "if ms = None \<and> t = asCloseTime c (pr_closeTime (rs_position r2))
          \<and> \<not> isStale (cs_now c - word_of_int (proposeINTERVAL (ad_parms ad))) (rs_position r2)
       then r' = r2 \<and> c' = c2
       else adopt_position ad (current_set (rs_txns r1) ms) t r2 c2 = (r', c')"
    using updateOurPositions_steps [OF res] by blast
  note one = drop_stale_spec [OF st pk dr c1]
  have st2: "stance_ok h B c2 r1" and pk2: "peers_ok c2" and aq2: "acquired_ok h B c2" and ph: "cs_phase c2 = cs_phase c"
    using one aq by (simp_all add: c2 c1 stance_ok_def result_inv_def peers_ok_def acquired_ok_def)
  note two = vote_disputes_stance [OF st2 vd refl]
  show ?thesis
  proof (cases "ms = None \<and> t = asCloseTime c (pr_closeTime (rs_position r2))
          \<and> \<not> isStale (cs_now c - word_of_int (proposeINTERVAL (ad_parms ad))) (rs_position r2)")
    case True
    then show ?thesis using out two pk2 aq2 ph by (simp add: r2)
  next
    case False
    then have ap: "adopt_position ad (current_set (rs_txns r1) ms) t r2 c2 = (r', c')" using out by simp
    have "result_inv h B (set (cs_currPeerPositions c2)) c2 (r2\<lparr>rs_txns := current_set (rs_txns r1) ms, rs_position := p\<rparr>)
        \<and> compared h (set (cs_currPeerPositions c2)) (cs_acquired c2)
            (r2\<lparr>rs_txns := current_set (rs_txns r1) ms, rs_position := p\<rparr>)" for p
      using two by (simp add: r2)
    moreover have "current_set (rs_txns r1) ms \<subseteq> B" using two by blast
    ultimately show ?thesis
      using adopt_position_spec [OF ok pk2 aq2 _ _ ap] ph by auto
  qed
qed

section \<open>The establish phase\<close>

lemma leaveConsensus_inv [inv_intros]:
  assumes "cinv h B c"
  shows "cinv h B (leaveConsensus c)"
proof (cases "cs_mode c = cm_proposing \<and> (\<exists>r. cs_result c = Some r \<and> \<not> isBowOut (rs_position r))")
  case True
  then obtain r where r: "cs_result c = Some r" "\<not> isBowOut (rs_position r)" by blast
  then have "cinv h B (c\<lparr>cs_result := Some (r\<lparr>rs_position := bowOut (cs_now c) (rs_position r)\<rparr>)\<rparr>)"
    using assms stance_ok_position [of "bowOut (cs_now c) (rs_position r)" r h B c]
    by (intro cinv_store_result) (auto simp: cinv_def bowOut_def)
  then show ?thesis using True r by (simp add: leaveConsensus_def Let_def)
next
  case False
  then show ?thesis using assms by (auto simp: leaveConsensus_def Let_def split: option.splits)
qed

lemma haveConsensus_steps:
  assumes "haveConsensus ad r c = Some (b, c')"
  shows "\<exists>stl st c1. (if cs_haveCloseTimeConsensus c \<and> rs_disputes r \<noteq> []
               then all_stalled (ad_parms ad) (cs_mode c = cm_proposing) (int (cs_peerUnchangedCounter c)) (rs_disputes r)
               else Some False) = Some stl
    \<and> st = checkConsensus (cs_prevProposers c) (length (cs_currPeerPositions c))
             (length (filter (\<lambda>(_, p). pr_position p = pr_position (rs_position r)) (cs_currPeerPositions c)))
             (proposersFinished ad (cs_previousLedger c) (cs_prevLedgerID c)) (cs_prevRoundTime c)
             (tm_dur (rs_roundTime r)) stl (ad_parms ad) (cs_mode c = cm_proposing)
    \<and> c1 = c\<lparr>cs_result := Some (r\<lparr>rs_state := st\<rparr>)\<rparr>
    \<and> b = (st \<noteq> No \<and> (st = Expired \<longrightarrow> minimumCounter (ad_parms ad) \<le> cs_establishCounter c))
    \<and> c' = (if b \<and> st = Expired then leaveConsensus c1 else c1)"
proof -
  obtain stl where stl: "(if cs_haveCloseTimeConsensus c \<and> rs_disputes r \<noteq> []
               then all_stalled (ad_parms ad) (cs_mode c = cm_proposing) (int (cs_peerUnchangedCounter c)) (rs_disputes r)
               else Some False) = Some stl"
    using assms unfolding haveConsensus_def Let_def by (auto split: option.splits)
  have n: "length (filter (\<lambda>(_, p). pr_position p = pr_position (rs_position r)) (cs_currPeerPositions c))
      + length (filter (\<lambda>(_, p). pr_position p \<noteq> pr_position (rs_position r)) (cs_currPeerPositions c))
      = length (cs_currPeerPositions c)"
    using sum_length_filter_compl [of "\<lambda>(_, p). pr_position p = pr_position (rs_position r)" "cs_currPeerPositions c"]
    by (simp add: case_prod_unfold)
  define st where "st = checkConsensus (cs_prevProposers c) (length (cs_currPeerPositions c))
             (length (filter (\<lambda>(_, p). pr_position p = pr_position (rs_position r)) (cs_currPeerPositions c)))
             (proposersFinished ad (cs_previousLedger c) (cs_prevLedgerID c)) (cs_prevRoundTime c)
             (tm_dur (rs_roundTime r)) stl (ad_parms ad) (cs_mode c = cm_proposing)"
  define c1 where "c1 = c\<lparr>cs_result := Some (r\<lparr>rs_state := st\<rparr>)\<rparr>"
  have "Some (b, c') = (if st = No then Some (False, c1)
                else if st = Expired
                then (if cs_establishCounter c1 < minimumCounter (ad_parms ad) then Some (False, c1)
                      else Some (True, leaveConsensus c1))
                else Some (True, c1))"
    using assms unfolding haveConsensus_def Let_def stl n st_def c1_def by simp
  moreover have "cs_establishCounter c1 = cs_establishCounter c" by (simp add: c1_def)
  ultimately have "b = (st \<noteq> No \<and> (st = Expired \<longrightarrow> minimumCounter (ad_parms ad) \<le> cs_establishCounter c))
      \<and> c' = (if b \<and> st = Expired then leaveConsensus c1 else c1)"
    by (auto split: if_splits)
  then show ?thesis
    using stl st_def c1_def by blast
qed

lemma haveConsensus_inv:
  assumes "cinv h B c" and "cs_result c = Some r" and "haveConsensus ad r c = Some (b, c')"
  shows "cinv h B c' \<and> cs_phase c' = cs_phase c \<and> cs_result c' \<noteq> None"
proof -
  obtain st c1 where c1: "c1 = c\<lparr>cs_result := Some (r\<lparr>rs_state := st\<rparr>)\<rparr>"
    and c': "c' = (if b \<and> st = Expired then leaveConsensus c1 else c1)"
    using haveConsensus_steps [OF assms(3)] by blast
  have "cinv h B c1"
    unfolding c1 using assms(1,2) by (intro cinv_store_result) (auto simp: cinv_def)
  then have "cinv h B c'" using leaveConsensus_inv by (simp add: c')
  moreover have "cs_phase c' = cs_phase c \<and> cs_result c' \<noteq> None"
    by (auto simp: c' c1 leaveConsensus_def Let_def set_mode_def emit_def)
  ultimately show ?thesis by blast
qed

end
