(* ===== verification/Consensus_Reach.thy ===== *)
theory Consensus_Reach
  imports Consensus_Invariant
begin

text \<open>
  The states a server reaches when the operations of \<^verbatim>\<open>Consensus.h\<close> run in any order, and what holds in all of them.

  \<open>consensus_reach h B\<close> starts from the constructor and takes any operation with any arguments, each with its own answers of
  the adaptor; only \<^verbatim>\<open>simulate\<close> asks for the open phase, as its assertion does. The last section runs a small network of
  one server and one peer.
\<close>

section \<open>The establish phase\<close>

lemma phaseEstablish_steps:
  assumes "phaseEstablish ad c = Some c'"
  shows "\<exists>r0 r c1. cs_result c = Some r0
    \<and> r = r0\<lparr>rs_roundTime := timer_tick (ad_clock ad) (rs_roundTime r0), rs_proposers := length (cs_currPeerPositions c)\<rparr>
    \<and> c1 = c\<lparr>cs_peerUnchangedCounter := cs_peerUnchangedCounter c + 1, cs_establishCounter := cs_establishCounter c + 1,
             cs_convergePercent := (tm_dur (rs_roundTime r) * 100)
               sdiv max (cs_prevRoundTime c) (avMIN_CONSENSUS_TIME (ad_parms ad)), cs_result := Some r\<rparr>
    \<and> (if tm_dur (rs_roundTime r) < ledgerMIN_CONSENSUS (ad_parms ad) then c' = c1
       else \<exists>r2 c2. updateOurPositions ad r c1 = Some (r2, c2)
         \<and> (if shouldPause ad r2 (c2\<lparr>cs_result := Some r2\<rparr>) then c' = c2\<lparr>cs_result := Some r2\<rparr>
            else \<exists>b c4. haveConsensus ad r2 (c2\<lparr>cs_result := Some r2\<rparr>) = Some (b, c4)
              \<and> c' = (if b \<and> cs_haveCloseTimeConsensus c4 then accept_round ad c4 else c4)))"
proof -
  obtain r0 where r0: "cs_result c = Some r0"
    using assms by (auto simp: phaseEstablish_def split: option.splits)
  define r where "r = r0\<lparr>rs_roundTime := timer_tick (ad_clock ad) (rs_roundTime r0), rs_proposers := length (cs_currPeerPositions c)\<rparr>"
  define c1 where "c1 = c\<lparr>cs_peerUnchangedCounter := cs_peerUnchangedCounter c + 1, cs_establishCounter := cs_establishCounter c + 1,
             cs_convergePercent := (tm_dur (rs_roundTime r) * 100)
               sdiv max (cs_prevRoundTime c) (avMIN_CONSENSUS_TIME (ad_parms ad)), cs_result := Some r\<rparr>"
  have eq: "Some c' = (if tm_dur (rs_roundTime r) < ledgerMIN_CONSENSUS (ad_parms ad) then Some c1
             else case updateOurPositions ad r c1 of
                    None \<Rightarrow> None
                  | Some (r, c) \<Rightarrow>
                      if shouldPause ad r (c\<lparr>cs_result := Some r\<rparr>) then Some (c\<lparr>cs_result := Some r\<rparr>)
                      else case haveConsensus ad r (c\<lparr>cs_result := Some r\<rparr>) of
                             None \<Rightarrow> None
                           | Some (False, c) \<Rightarrow> Some c
                           | Some (True, c) \<Rightarrow> if \<not> cs_haveCloseTimeConsensus c then Some c else Some (accept_round ad c))"
    using assms unfolding phaseEstablish_def Let_def r0 r_def c1_def by simp
  have "if tm_dur (rs_roundTime r) < ledgerMIN_CONSENSUS (ad_parms ad) then c' = c1
       else \<exists>r2 c2. updateOurPositions ad r c1 = Some (r2, c2)
         \<and> (if shouldPause ad r2 (c2\<lparr>cs_result := Some r2\<rparr>) then c' = c2\<lparr>cs_result := Some r2\<rparr>
            else \<exists>b c4. haveConsensus ad r2 (c2\<lparr>cs_result := Some r2\<rparr>) = Some (b, c4)
              \<and> c' = (if b \<and> cs_haveCloseTimeConsensus c4 then accept_round ad c4 else c4))"
  proof (cases "tm_dur (rs_roundTime r) < ledgerMIN_CONSENSUS (ad_parms ad)")
    case True
    then show ?thesis using eq by simp
  next
    case False
    then obtain r2 c2 where u: "updateOurPositions ad r c1 = Some (r2, c2)"
      using eq by (cases "updateOurPositions ad r c1") auto
    show ?thesis
    proof (cases "shouldPause ad r2 (c2\<lparr>cs_result := Some r2\<rparr>)")
      case True
      then show ?thesis using eq False u by simp
    next
      case np: False
      then obtain b c4 where hc: "haveConsensus ad r2 (c2\<lparr>cs_result := Some r2\<rparr>) = Some (b, c4)"
        using eq False u by (cases "haveConsensus ad r2 (c2\<lparr>cs_result := Some r2\<rparr>)") auto
      have "c' = (if b \<and> cs_haveCloseTimeConsensus c4 then accept_round ad c4 else c4)"
        using eq False u np hc by (cases b) (simp_all split: if_splits)
      then show ?thesis using False u np hc by simp
    qed
  qed
  then show ?thesis using r0 r_def c1_def by blast
qed

lemma cinv_accepted: "cinv h B c \<Longrightarrow> cinv h B (c\<lparr>cs_phase := cp_accepted\<rparr>)"
  by (simp add: cinv_def peers_ok_def acquired_ok_def stance_ok_def result_inv_def)

lemma accept_round_inv: "cinv h B c \<Longrightarrow> cinv h B (accept_round ad c)"
  using cinv_accepted by (simp add: accept_round_def Let_def)

lemma phaseEstablish_inv [inv_intros]:
  assumes ok: "adaptor_ok h B ad" and inv: "cinv h B c" and ph: "cs_phase c = cp_establish"
    and res: "phaseEstablish ad c = Some c'"
  shows "cinv h B c'"
proof -
  obtain r0 r c1 where r0: "cs_result c = Some r0"
    and r: "r = r0\<lparr>rs_roundTime := timer_tick (ad_clock ad) (rs_roundTime r0), rs_proposers := length (cs_currPeerPositions c)\<rparr>"
    and c1: "c1 = c\<lparr>cs_peerUnchangedCounter := cs_peerUnchangedCounter c + 1, cs_establishCounter := cs_establishCounter c + 1,
             cs_convergePercent := (tm_dur (rs_roundTime r) * 100)
               sdiv max (cs_prevRoundTime c) (avMIN_CONSENSUS_TIME (ad_parms ad)), cs_result := Some r\<rparr>"
    and out: "if tm_dur (rs_roundTime r) < ledgerMIN_CONSENSUS (ad_parms ad) then c' = c1
       else \<exists>r2 c2. updateOurPositions ad r c1 = Some (r2, c2)
         \<and> (if shouldPause ad r2 (c2\<lparr>cs_result := Some r2\<rparr>) then c' = c2\<lparr>cs_result := Some r2\<rparr>
            else \<exists>b c4. haveConsensus ad r2 (c2\<lparr>cs_result := Some r2\<rparr>) = Some (b, c4)
              \<and> c' = (if b \<and> cs_haveCloseTimeConsensus c4 then accept_round ad c4 else c4))"
    using phaseEstablish_steps [OF res] by blast
  have st: "stance_ok h B c r" using inv r0 by (simp add: cinv_def r)
  then have inv1: "cinv h B c1"
    using inv r0 cinv_store_result [of h B c r] by (simp add: c1) (simp add: cinv_def peers_ok_def acquired_ok_def stance_ok_def result_inv_def)
  show ?thesis
  proof (cases "tm_dur (rs_roundTime r) < ledgerMIN_CONSENSUS (ad_parms ad)")
    case True
    then show ?thesis using out inv1 by simp
  next
    case False
    then obtain r2 c2 where u: "updateOurPositions ad r c1 = Some (r2, c2)"
      and out2: "if shouldPause ad r2 (c2\<lparr>cs_result := Some r2\<rparr>) then c' = c2\<lparr>cs_result := Some r2\<rparr>
            else \<exists>b c4. haveConsensus ad r2 (c2\<lparr>cs_result := Some r2\<rparr>) = Some (b, c4)
              \<and> c' = (if b \<and> cs_haveCloseTimeConsensus c4 then accept_round ad c4 else c4)"
      using out by auto
    have "peers_ok c1" "acquired_ok h B c1" "stance_ok h B c1 r" "cs_phase c1 = cp_establish"
      using inv1 ph by (simp_all add: cinv_def c1)
    then have sp: "peers_ok c2 \<and> acquired_ok h B c2 \<and> stance_ok h B c2 r2 \<and> cs_phase c2 = cp_establish"
      using updateOurPositions_spec [OF ok _ _ _ u] by simp
    then have inv3: "cinv h B (c2\<lparr>cs_result := Some r2\<rparr>)" by (intro cinv_stanceI) simp_all
    show ?thesis
    proof (cases "shouldPause ad r2 (c2\<lparr>cs_result := Some r2\<rparr>)")
      case True
      then show ?thesis using out2 inv3 by simp
    next
      case np: False
      then obtain b c4 where hc: "haveConsensus ad r2 (c2\<lparr>cs_result := Some r2\<rparr>) = Some (b, c4)"
        and c': "c' = (if b \<and> cs_haveCloseTimeConsensus c4 then accept_round ad c4 else c4)"
        using out2 by auto
      have "cinv h B c4 \<and> cs_result c4 \<noteq> None"
        using haveConsensus_inv [OF inv3 _ hc] by simp
      then show ?thesis using accept_round_inv by (simp add: c')
    qed
  qed
qed

section \<open>Rounds\<close>

lemma startRoundInternal_inv:
  assumes ok: "adaptor_ok h B ad" and timer: "\<forall>c c'. cinv h B c \<longrightarrow> timer c = Some c' \<longrightarrow> cinv h B c'"
    and res: "startRoundInternal timer ad now i l m c = Some c'"
  shows "cinv h B c'"
proof -
  define c1 where "c1 = (set_mode m (c\<lparr>cs_phase := cp_open\<rparr>))
       \<lparr>cs_now := now, cs_prevLedgerID := i, cs_previousLedger := l, cs_result := None,
                cs_convergePercent := 0, cs_closeTimeAvalancheState := av_init, cs_haveCloseTimeConsensus := False,
                cs_openTime := timer_reset (ad_clock ad), cs_currPeerPositions := [], cs_acquired := [],
                cs_rawCloseTimes := \<lparr>ct_peers = [], ct_self = 0\<rparr>, cs_deadNodes := [],
                cs_closeResolution := getNextLedgerTimeResolution (cl_closeTimeResolution l) (cl_closeAgree l) (cl_seq l + 1)\<rparr>"
  define c2 where "c2 = playbackProposals ad c1"
  have "cinv h B c1"
    by (simp add: c1_def cinv_def peers_ok_def acquired_ok_def set_mode_def emit_def)
  then have "cinv h B c2" unfolding c2_def by (rule playbackProposals_inv [OF ok])
  moreover have "Some c' = (if cs_prevProposers c2 div 2 < length (cs_currPeerPositions c2) then timer c2 else Some c2)"
    using res unfolding startRoundInternal_def Let_def c2_def c1_def by simp
  ultimately show ?thesis using timer by (simp split: if_splits)
qed

lemma handleWrongLedger_inv:
  assumes ok: "adaptor_ok h B ad" and timer: "\<forall>c c'. cinv h B c \<longrightarrow> timer c = Some c' \<longrightarrow> cinv h B c'"
    and inv: "cinv h B c" and res: "handleWrongLedger timer ad i c = Some c'"
  shows "cinv h B c'"
proof -
  define c1 where "c1 = leaveConsensus c"
  define c2 where "c2 = c1\<lparr>cs_prevLedgerID := i,
                         cs_result := map_option (\<lambda>r. r\<lparr>rs_disputes := [], rs_compares := []\<rparr>) (cs_result c1),
                         cs_currPeerPositions := [],
                         cs_rawCloseTimes := (cs_rawCloseTimes c1)\<lparr>ct_peers := []\<rparr>,
                         cs_deadNodes := []\<rparr>"
  define c3 where "c3 = (if cs_prevLedgerID c1 \<noteq> i then playbackProposals ad c2 else c1)"
  have inv1: "cinv h B c1" unfolding c1_def using inv by (rule leaveConsensus_inv)
  then have "cinv h B c2"
    by (auto simp: c2_def cinv_def peers_ok_def acquired_ok_def stance_ok_def result_inv_def disputes_ok_def compares_ok_def
        compared_def)
  then have inv3: "cinv h B c3"
    using inv1 playbackProposals_inv [OF ok, of c2] by (simp add: c3_def)
  have "Some c' = (if cl_id (cs_previousLedger c3) = cs_prevLedgerID c3 then Some c3
         else case acquireLedger ad (cs_prevLedgerID c3) of
                Some newLedger \<Rightarrow> startRoundInternal timer ad (cs_now c3) i newLedger cm_switchedLedger c3
              | None \<Rightarrow> Some (set_mode cm_wrongLedger c3))"
    using res unfolding handleWrongLedger_def Let_def c3_def c2_def c1_def by simp
  then show ?thesis
    using inv3 startRoundInternal_inv [OF ok timer] by (auto split: if_splits option.splits)
qed

lemma checkLedger_inv:
  assumes "adaptor_ok h B ad" and "\<forall>c c'. cinv h B c \<longrightarrow> timer c = Some c' \<longrightarrow> cinv h B c'"
    and "cinv h B c" and "checkLedger timer ad c = Some c'"
  shows "cinv h B c'"
proof (cases "getPrevLedger ad (cs_prevLedgerID c) (cs_previousLedger c) (cs_mode c) \<noteq> cs_prevLedgerID c
    \<or> cl_id (cs_previousLedger c) \<noteq> cs_prevLedgerID c")
  case True
  then have "handleWrongLedger timer ad (getPrevLedger ad (cs_prevLedgerID c) (cs_previousLedger c) (cs_mode c)) c = Some c'"
    using assms(4) by (simp add: checkLedger_def Let_def split: if_splits)
  then show ?thesis by (rule handleWrongLedger_inv [OF assms(1-3)])
next
  case False
  then show ?thesis using assms(3,4) by (simp add: checkLedger_def)
qed

lemma timerEntry_inv [inv_intros]:
  assumes "adaptor_ok h B ad" and "cinv h B c" and "timerEntry n ad now c = Some c'"
  shows "cinv h B c'"
  using assms(2,3)
proof (induction n arbitrary: now c c')
  case (Suc n)
  show ?case
  proof (cases "cs_phase c = cp_accepted")
    case False
    then obtain c1 where ck: "checkLedger (\<lambda>c. timerEntry n ad (cs_now c) c) ad (c\<lparr>cs_now := now\<rparr>) = Some c1"
      and c': "Some c' = (if cs_phase c1 = cp_open then Some (phaseOpen ad c1)
                    else if cs_phase c1 = cp_establish then phaseEstablish ad c1 else Some c1)"
      using Suc.prems(2) by (auto split: option.splits)
    have "cinv h B c1"
      using Suc.IH Suc.prems(1) by (intro checkLedger_inv [OF assms(1) _ _ ck]) auto
    then show ?thesis
      using c' phaseOpen_inv [OF assms(1), of c1] phaseEstablish_inv [OF assms(1), of c1 c'] by (simp split: if_splits)
  qed (use Suc.prems in simp)
qed simp

lemma startRound_inv [inv_intros]:
  assumes "adaptor_ok h B ad" and "startRound n ad now i l nowUntrusted proposing c = Some c'"
  shows "cinv h B c'"
  using assms(2) unfolding startRound_def Let_def case_prod_unfold
  by (rule startRoundInternal_inv [OF assms(1), rotated]) (blast intro: timerEntry_inv [OF assms(1)])

lemma simulate_inv [inv_intros]:
  assumes "adaptor_ok h B ad" and "cinv h B c" and "cs_phase c = cp_open"
  shows "cinv h B (simulate ad now delay c)"
proof -
  let ?c = "closeLedger ad (c\<lparr>cs_now := now\<rparr>)"
  have c: "cinv h B ?c \<and> cs_phase ?c = cp_establish"
    using assms(2) by (intro closeLedger_spec [OF assms(1)]) (simp_all add: cinv_def peers_ok_def acquired_ok_def)
  then obtain r where r: "cs_result ?c = Some r" "stance_ok h B ?c r" by (auto simp: cinv_def)
  define r' where "r' = r\<lparr>rs_roundTime := timer_tick_fixed (case delay of Some d \<Rightarrow> d | None \<Rightarrow> 100) (rs_roundTime r),
                rs_proposers := length (cs_currPeerPositions ?c)\<rparr>"
  have "cinv h B (?c\<lparr>cs_result := Some r'\<rparr>)"
    using c r by (intro cinv_store_result) (simp_all add: r'_def)
  then have "cinv h B ((?c\<lparr>cs_result := Some r', cs_prevProposers := k, cs_prevRoundTime := t\<rparr>)\<lparr>cs_phase := cp_accepted\<rparr>)" for k t
    by (intro cinv_accepted) simp
  then show ?thesis
    unfolding simulate_def Let_def r(1) option.sel r'_def cinv_emit .
qed

section \<open>Reachable states\<close>

inductive consensus_reach :: "(TxSet \<Rightarrow> uint256) \<Rightarrow> TxSet \<Rightarrow> Consensus \<Rightarrow> bool" for h B where
  new: "consensus_reach h B (new_Consensus seed)"
| start: "consensus_reach h B c \<Longrightarrow> adaptor_ok h B ad
    \<Longrightarrow> startRound n ad now i l nowUntrusted proposing c = Some c' \<Longrightarrow> consensus_reach h B c'"
| timer: "consensus_reach h B c \<Longrightarrow> adaptor_ok h B ad \<Longrightarrow> timerEntry n ad now c = Some c' \<Longrightarrow> consensus_reach h B c'"
| tx_set: "consensus_reach h B c \<Longrightarrow> adaptor_ok h B ad \<Longrightarrow> s \<subseteq> B \<Longrightarrow> consensus_reach h B (gotTxSet ad now s c)"
| proposal: "consensus_reach h B c \<Longrightarrow> adaptor_ok h B ad \<Longrightarrow> consensus_reach h B (snd (peerProposal ad now p c))"
| simulated: "consensus_reach h B c \<Longrightarrow> adaptor_ok h B ad \<Longrightarrow> cs_phase c = cp_open
    \<Longrightarrow> consensus_reach h B (simulate ad now delay c)"

lemma consensus_reach_inv: "consensus_reach h B c \<Longrightarrow> cinv h B c"
proof (induction rule: consensus_reach.induct)
  case (new seed)
  show ?case by (simp add: new_Consensus_def cinv_def peers_ok_def acquired_ok_def)
next
  case (start c ad n now i l nowUntrusted proposing c')
  then show ?case by (blast intro: startRound_inv)
next
  case (timer c ad n now c')
  then show ?case by (blast intro: timerEntry_inv)
next
  case (tx_set c ad s now)
  then show ?case by (blast intro: gotTxSet_inv)
next
  case (proposal c ad now p)
  then show ?case by (blast intro: peerProposal_inv)
next
  case (simulated c ad now delay)
  then show ?case by (blast intro: simulate_inv)
qed

section \<open>A run\<close>

text \<open>Transactions 1 and 2. The server closes with both; its peer proposes the set with transaction 1 only.\<close>

definition demo_B :: TxSet where
  "demo_B = {1, 2}"

definition demo_h :: "TxSet \<Rightarrow> uint256" where
  "demo_h s = (if 1 \<in> s then 1 else 0) + (if 2 \<in> s then 2 else 0)"

definition demo_cx_ledger :: CxLedger where
  "demo_cx_ledger = \<lparr>cl_id = 7, cl_seq = 5, cl_closeTimeResolution = 10, cl_closeAgree = True, cl_closeTime = 1000,
     cl_parentCloseTime = 990\<rparr>"

definition demo_ad :: "int \<Rightarrow> Adaptor" where
  "demo_ad clock = \<lparr>ad_parms = consensusParms, ad_clock = clock, setID = demo_h, acquireLedger = \<lambda>_. None,
     acquireTxSet = \<lambda>i. if i = 1 then Some {1} else None, hasOpenTransactions = True, proposersValidated = \<lambda>_. 0,
     proposersFinished = \<lambda>_ _. 0, getPrevLedger = \<lambda>i _ _. i,
     onClose = \<lambda>l now m. ({1, 2}, \<lparr>pr_previousLedger = cl_id l, pr_position = 3, pr_closeTime = now, pr_time = now,
                                  pr_proposeSeq = 0, pr_nodeID = 11\<rparr>),
     getValidLedgerIndex = 5, getQuorumKeys = (1, []), ad_laggards = \<lambda>_ ks. (0, ks), ad_validator = True,
     haveValidated = True, ad_validating = True\<rparr>"

definition demo_peer :: ConsensusProposal where
  "demo_peer = \<lparr>pr_previousLedger = 7, pr_position = 1, pr_closeTime = 1020, pr_time = 1020, pr_proposeSeq = 0, pr_nodeID = 12\<rparr>"

lemma Pow_demo_B: "Pow demo_B = {{}, {1}, {2}, {1, 2}}"
  unfolding demo_B_def by blast

lemma demo_h_inj: "inj_on demo_h (Pow demo_B)"
  unfolding inj_on_def Pow_demo_B by (simp add: demo_h_def)

lemma demo_ad_ok: "adaptor_ok demo_h demo_B (demo_ad clock)"
  using demo_h_inj
  by (simp add: adaptor_ok_def demo_ad_def demo_B_def) (simp add: demo_h_def isInitial_def seqJoin_def)

definition demo_opened :: Consensus where
  "demo_opened = the (startRound 2 (demo_ad 0) 1010 7 demo_cx_ledger [] True (new_Consensus demo_cx_ledger))"

definition demo_heard :: Consensus where
  "demo_heard = snd (peerProposal (demo_ad 0) 1021 demo_peer demo_opened)"

definition demo_closed :: Consensus where
  "demo_closed = the (timerEntry 2 (demo_ad 10000000000) 1022 demo_heard)"

lemma demo_opened_Some: "startRound 2 (demo_ad 0) 1010 7 demo_cx_ledger [] True (new_Consensus demo_cx_ledger) = Some demo_opened"
proof -
  have "startRound 2 (demo_ad 0) 1010 7 demo_cx_ledger [] True (new_Consensus demo_cx_ledger) \<noteq> None"
    by code_simp
  then show ?thesis by (auto simp: demo_opened_def)
qed

lemma demo_closed_Some: "timerEntry 2 (demo_ad 10000000000) 1022 demo_heard = Some demo_closed"
proof -
  have "timerEntry 2 (demo_ad 10000000000) 1022 demo_heard \<noteq> None"
    by code_simp
  then show ?thesis by (auto simp: demo_closed_def)
qed

lemma demo_closed_reach: "consensus_reach demo_h demo_B demo_closed"
proof -
  have "consensus_reach demo_h demo_B demo_opened"
    using new demo_ad_ok demo_opened_Some by (rule start)
  then have "consensus_reach demo_h demo_B demo_heard"
    unfolding demo_heard_def using demo_ad_ok by (rule proposal)
  then show ?thesis
    using demo_ad_ok demo_closed_Some by (rule timer)
qed

section \<open>Properties\<close>

text \<open>
  C7. The state of a round is well formed, whatever operations run in whatever order. Before the ledger closes the server
  has no position, and in the establish phase it has one, so no assertion of \<^verbatim>\<open>closeLedger\<close>, \<^verbatim>\<open>phaseEstablish\<close>,
  \<^verbatim>\<open>updateOurPositions\<close> or \<^verbatim>\<open>haveConsensus\<close> can fail. The announced position is the hash of the server's own set, and that
  set is among the acquired ones, so the assertion of \<^verbatim>\<open>gotTxSet\<close> holds. Every peer is recorded once, under its own
  identifier, with a proposal for the ledger the server works on, and never after it bowed out.
\<close>

theorem consensus_state_wellformed:
  assumes "consensus_reach h B c"
  shows "(cs_phase c = cp_open \<longrightarrow> cs_result c = None) \<and> (cs_phase c = cp_establish \<longrightarrow> cs_result c \<noteq> None)
    \<and> (\<forall>r. cs_result c = Some r \<longrightarrow> pr_position (rs_position r) = h (rs_txns r) \<and> h (rs_txns r) \<in> keys (cs_acquired c))
    \<and> distinct_keys (cs_currPeerPositions c)
    \<and> (\<forall>n p. (n, p) \<in> set (cs_currPeerPositions c) \<longrightarrow>
         pr_nodeID p = n \<and> pr_previousLedger p = cs_prevLedgerID c \<and> n \<notin> set (cs_deadNodes c) \<and> \<not> isBowOut p)"
  using consensus_reach_inv [OF assms] by (auto simp: cinv_def peers_ok_def stance_ok_def)

theorem consensus_state_wellformed_witness:
  "cs_phase demo_closed = cp_establish \<and> cs_result demo_closed \<noteq> None
   \<and> (12, demo_peer) \<in> set (cs_currPeerPositions demo_closed) \<and> pr_previousLedger demo_peer = cs_prevLedgerID demo_closed"
proof -
  have "cs_phase demo_closed = cp_establish" "(12, demo_peer) \<in> set (cs_currPeerPositions demo_closed)"
    by code_simp+
  then show ?thesis
    using consensus_state_wellformed [OF demo_closed_reach] by blast
qed

text \<open>
  C4. Disputes are exact. In every reachable state with a position, each dispute agrees with the server's own set on
  its transaction, counts only current peers, and its counters are the numbers of their votes. For every peer whose
  transaction set is known, each transaction on which the set differs from ours is in dispute, and the vote recorded for the
  peer in each dispute is whether its set holds the transaction. So once no dispute is left, every peer with
  a known set proposes our set.
\<close>

theorem disputes_exact:
  assumes "consensus_reach h B c" and "cs_result c = Some r"
  shows "(\<forall>i d. (i, d) \<in> set (rs_disputes r) \<longrightarrow>
        disputed_tx d = i \<and> (ourVote d \<longleftrightarrow> i \<in> rs_txns r) \<and> dom (map_of (votes d)) \<subseteq> keys (cs_currPeerPositions c)
        \<and> yays d = int (card {n. map_of (votes d) n = Some True}) \<and> nays d = int (card {n. map_of (votes d) n = Some False}))
    \<and> (\<forall>n p s. (n, p) \<in> set (cs_currPeerPositions c) \<longrightarrow> map_of (cs_acquired c) (pr_position p) = Some s \<longrightarrow>
        (s - rs_txns r) \<union> (rs_txns r - s) \<subseteq> keys (rs_disputes r)
        \<and> (\<forall>i d. (i, d) \<in> set (rs_disputes r) \<longrightarrow> map_of (votes d) n = Some (i \<in> s)))"
proof -
  have st: "stance_ok h B c r" and aq: "acquired_ok h B c"
    using consensus_reach_inv [OF assms(1)] assms(2) by (simp_all add: cinv_def)
  then have dis: "\<forall>(i, d) \<in> set (rs_disputes r). dispute_wf B (keys (cs_currPeerPositions c)) (rs_txns r) i d
      \<and> votes_exact (cs_acquired c) (set (cs_currPeerPositions c)) i d"
    and cmp: "compares_ok h B r" and cd: "compared h (set (cs_currPeerPositions c)) (cs_acquired c) r"
    by (simp_all add: stance_ok_def result_inv_def disputes_ok_def)
  have "disputed_tx d = i \<and> (ourVote d \<longleftrightarrow> i \<in> rs_txns r) \<and> dom (map_of (votes d)) \<subseteq> keys (cs_currPeerPositions c)
      \<and> yays d = int (card {n. map_of (votes d) n = Some True}) \<and> nays d = int (card {n. map_of (votes d) n = Some False})"
    if "(i, d) \<in> set (rs_disputes r)" for i d
  proof -
    have "dispute_wf B (keys (cs_currPeerPositions c)) (rs_txns r) i d" using dis that by auto
    then show ?thesis unfolding dispute_wf_def dispute_inv_def by (simp add: count_votes_card)
  qed
  moreover have "(s - rs_txns r) \<union> (rs_txns r - s) \<subseteq> keys (rs_disputes r)
      \<and> (\<forall>i d. (i, d) \<in> set (rs_disputes r) \<longrightarrow> map_of (votes d) n = Some (i \<in> s))"
    if "(n, p) \<in> set (cs_currPeerPositions c)" and "map_of (cs_acquired c) (pr_position p) = Some s" for n p s
  proof
    show "(s - rs_txns r) \<union> (rs_txns r - s) \<subseteq> keys (rs_disputes r)"
      using that cmp cd acquired_okD [OF aq that(2)] unfolding compares_ok_def compared_def by blast
    show "\<forall>i d. (i, d) \<in> set (rs_disputes r) \<longrightarrow> map_of (votes d) n = Some (i \<in> s)"
      using dis that unfolding votes_exact_def by blast
  qed
  ultimately show ?thesis by blast
qed

theorem disputes_exact_witness:
  "\<exists>r d. cs_result demo_closed = Some r \<and> rs_disputes r = [(2, d)] \<and> ourVote d \<and> map_of (votes d) 12 = Some False
     \<and> nays d = int (card {n. map_of (votes d) n = Some False})"
proof -
  have "map_option (\<lambda>r. map (\<lambda>(i, d). (i, ourVote d, votes d)) (rs_disputes r)) (cs_result demo_closed)
      = Some [(2, True, [(12, False)])]"
    by code_simp
  then obtain r d where r: "cs_result demo_closed = Some r" "rs_disputes r = [(2, d)]" "ourVote d" "votes d = [(12, False)]"
    by (auto simp: map_eq_Cons_conv)
  moreover have "(12, demo_peer) \<in> set (cs_currPeerPositions demo_closed)
      \<and> map_of (cs_acquired demo_closed) (pr_position demo_peer) = Some {1}"
    by code_simp
  ultimately show ?thesis
    using disputes_exact [OF demo_closed_reach r(1)] by simp
qed

end
