(* ===== verification/Consensus_View.thy ===== *)
theory Consensus_View
  imports Consensus_Disputes
begin

text \<open>
  What an observer of the server sees of a round: the ledger it works on, its phase and mode, its own position, and the
  proposals and mode changes it made. Receiving transaction sets and proposals changes none of it.
\<close>

fun stance_event :: "ConsensusEvent \<Rightarrow> bool" where
  "stance_event (ev_modeChange _ _) = True"
| "stance_event (ev_propose _) = True"
| "stance_event _ = False"

definition view ::
  "Consensus \<Rightarrow> uint256 \<times> CxLedger \<times> ConsensusMode \<times> ConsensusPhase \<times> ConsensusProposal option \<times> ConsensusEvent list" where
  "view c = (cs_prevLedgerID c, cs_previousLedger c, cs_mode c, cs_phase c, map_option rs_position (cs_result c),
             filter stance_event (cs_events c))"

lemma view_irrelevant [simp]:
  "view (c\<lparr>cs_now := t\<rparr>) = view c"
  "view (c\<lparr>cs_currPeerPositions := ps\<rparr>) = view c"
  "view (c\<lparr>cs_rawCloseTimes := ct\<rparr>) = view c"
  "view (c\<lparr>cs_acquired := aq\<rparr>) = view c"
  "view (c\<lparr>cs_deadNodes := dn\<rparr>) = view c"
  "view (c\<lparr>cs_recentPeerPositions := rp\<rparr>) = view c"
  by (simp_all add: view_def)

lemma view_emit: "\<not> stance_event e \<Longrightarrow> view (emit e c) = view c"
  by (simp add: view_def emit_def)

lemma view_result: "map_option rs_position r = map_option rs_position (cs_result c) \<Longrightarrow> view (c\<lparr>cs_result := r\<rparr>) = view c"
  by (simp add: view_def)

lemma quiet_view:
  assumes "quiet c c'"
  shows "view c' = view c"
proof -
  obtain k txs where "c' = c\<lparr>cs_peerUnchangedCounter := k, cs_events := cs_events c @ map ev_shareTx txs\<rparr>"
    using assms unfolding quiet_def by blast
  moreover have "filter stance_event (map ev_shareTx txs) = []"
    by (simp add: filter_empty_conv)
  ultimately show ?thesis by (simp add: view_def)
qed

section \<open>Disputes\<close>

lemma dispute_step_quiet:
  assumes "dispute_step i (r, c) = (r', c')"
  shows "quiet c c' \<and> same_stance r r'"
proof (cases "i \<in> keys (rs_disputes r)")
  case True
  then show ?thesis using assms by (simp add: dispute_step_def)
next
  case False
  obtain ch d where pv: "peer_votes (cs_acquired c) (cs_currPeerPositions c) i (new_DisputedTx i (i \<in> rs_txns r)) = (ch, d)"
    by fastforce
  have "r' = r\<lparr>rs_disputes := rs_disputes r @ [(i, d)]\<rparr>"
    and c': "c' = emit (ev_shareTx i) (if ch then c\<lparr>cs_peerUnchangedCounter := 0\<rparr> else c)"
    using False pv assms by (simp_all add: dispute_step_def)
  moreover have "quiet c c'" unfolding c' by (auto intro: quiet_trans)
  ultimately show ?thesis by simp
qed

lemma dispute_steps_quiet:
  "fold dispute_step xs (r, c) = (r', c') \<Longrightarrow> quiet c c' \<and> same_stance r r'"
proof (induction xs arbitrary: r c)
  case (Cons i xs)
  obtain r1 c1 where st: "dispute_step i (r, c) = (r1, c1)" by fastforce
  have "fold dispute_step xs (r1, c1) = (r', c')" using Cons.prems st by simp
  then show ?case
    using Cons.IH dispute_step_quiet [OF st] by (blast intro: quiet_trans same_stance_trans)
qed simp

lemma createDisputes_quiet:
  assumes "createDisputes ad s r c = (r', c')"
  shows "quiet c c' \<and> same_stance r r'"
proof -
  let ?r1 = "r\<lparr>rs_compares := setID ad s # rs_compares r\<rparr>"
  consider "(r', c') \<in> {(r, c), (?r1, c)}" | "fold dispute_step (sorted_list_of_set (rs_txns r - s \<union> (s - rs_txns r))) (?r1, c) = (r', c')"
    using assms by (auto simp: createDisputes_def Let_def split: if_splits)
  then show ?thesis
  proof cases
    case 1
    then show ?thesis by auto
  next
    case 2
    from dispute_steps_quiet [OF this] show ?thesis by (auto simp: same_stance_iff)
  qed
qed

lemma updateDisputes_quiet:
  assumes "updateDisputes ad n s r c = (r', c')"
  shows "quiet c c' \<and> same_stance r r'"
proof -
  obtain r1 c1 where rc1: "(if setID ad s \<notin> set (rs_compares r) then createDisputes ad s r c else (r, c)) = (r1, c1)"
    by fastforce
  have one: "quiet c c1 \<and> same_stance r r1"
  proof (cases "setID ad s \<in> set (rs_compares r)")
    case False
    then show ?thesis using rc1 createDisputes_quiet by simp
  qed (use rc1 in simp)
  have "same_stance r1 r'"
    using assms rc1 by (auto simp: updateDisputes_def Let_def split: if_splits)
  moreover have "c' = c1 \<or> c' = c1\<lparr>cs_peerUnchangedCounter := 0\<rparr>"
    using assms rc1 by (auto simp: updateDisputes_def Let_def case_prod_unfold split: if_splits)
  then have "quiet c1 c'" by auto
  ultimately show ?thesis using one by (blast intro: quiet_trans same_stance_trans)
qed

lemma update_proposers_quiet:
  "update_proposers ad s xs (r, c) = (r', c') \<Longrightarrow> quiet c c' \<and> same_stance r r'"
proof (induction xs arbitrary: r c)
  case Nil
  then show ?case by (simp add: update_proposers_def)
next
  case (Cons x xs)
  obtain r1 c1 where st: "(if pr_position (snd x) = setID ad s then updateDisputes ad (fst x) s r c else (r, c)) = (r1, c1)"
    by fastforce
  have "update_proposers ad s xs (r1, c1) = (r', c')"
    using Cons.prems st by (cases x) (simp add: update_proposers_def split: if_splits)
  moreover have "quiet c c1 \<and> same_stance r r1"
    using st updateDisputes_quiet by (auto split: if_splits)
  ultimately show ?case
    using Cons.IH by (blast intro: quiet_trans same_stance_trans)
qed

lemma view_store_result:
  assumes "quiet c c'" and "same_stance r r'" and "cs_result c = Some r"
  shows "view (store_result (r', c')) = view c"
proof -
  have "view (c'\<lparr>cs_result := Some r'\<rparr>) = view c'"
    using assms by (intro view_result) (simp add: quiet_frame [OF assms(1)] same_stance_iff)
  then show ?thesis by (simp add: store_result_def quiet_view [OF assms(1)])
qed

section \<open>Sets and proposals\<close>

lemma gotTxSet_view [simp]: "view (gotTxSet ad now s c) = view c"
proof (cases "cs_phase c = cp_accepted \<or> setID ad s \<in> keys (cs_acquired c)")
  case True
  then show ?thesis by (elim disjE) (simp_all add: gotTxSet_def Let_def)
next
  case new: False
  let ?c1 = "c\<lparr>cs_now := now, cs_acquired := (setID ad s, s) # cs_acquired c\<rparr>"
  show ?thesis
  proof (cases "cs_result c")
    case None
    then show ?thesis using new by (simp add: gotTxSet_def Let_def)
  next
    case (Some r)
    obtain r' c' where up: "update_proposers ad s (cs_currPeerPositions c) (r, ?c1) = (r', c')" by fastforce
    have "gotTxSet ad now s c = store_result (r', c')"
      using new Some up by (simp add: gotTxSet_def Let_def)
    then show ?thesis
      using view_store_result [of ?c1 c' r r'] update_proposers_quiet [OF up] Some by simp
  qed
qed

lemma record_position_view [simp]: "view (record_position ad p c) = view c"
proof -
  define c1 where "c1 = c\<lparr>cs_currPeerPositions := AList.update (pr_nodeID p) p (cs_currPeerPositions c)\<rparr>"
  define c2 where "c2 = (if isInitial p
      then c1\<lparr>cs_rawCloseTimes := (cs_rawCloseTimes c1)
               \<lparr>ct_peers := increment_at (pr_closeTime p) (ct_peers (cs_rawCloseTimes c1))\<rparr>\<rparr> else c1)"
  have eq: "record_position ad p c =
     (case map_of (cs_acquired c2) (pr_position p) of
           None \<Rightarrow> (case acquireTxSet ad (pr_position p) of
                      Some s \<Rightarrow> gotTxSet ad (cs_now c2) s c2
                    | None \<Rightarrow> c2)
         | Some s \<Rightarrow> (case cs_result c2 of
                       Some r \<Rightarrow> store_result (updateDisputes ad (pr_nodeID p) s r c2)
                     | None \<Rightarrow> c2))"
    unfolding record_position_def c2_def c1_def Let_def by (rule refl)
  have "view c2 = view c" by (simp add: c2_def c1_def)
  moreover have "view (store_result (updateDisputes ad n s r c2)) = view c2" if "cs_result c2 = Some r" for n s r
    using updateDisputes_quiet [of ad n s r c2] that
    by (cases "updateDisputes ad n s r c2") (auto intro: view_store_result)
  ultimately show ?thesis by (simp add: eq split: option.split)
qed

lemma peer_bows_out_view [simp]: "view (peer_bows_out n c) = view c"
  by (cases "cs_result c") (simp_all add: peer_bows_out_def view_def)

lemma peerProposalInternal_view [simp]: "view (snd (peerProposalInternal ad now p c)) = view c"
  by (simp add: peerProposalInternal_def Let_def)

lemma peerProposal_view [simp]: "view (snd (peerProposal ad now p c)) = view c"
  by (simp add: peerProposal_def Let_def)

lemma playbackProposals_view [simp]: "view (playbackProposals ad c) = view c"
proof -
  let ?f = "\<lambda>p c. if pr_previousLedger p = cs_prevLedgerID c
                 then let (relay, c') = peerProposalInternal ad (cs_now c) p c
                      in if relay then emit (ev_sharePosition p) c' else c'
                 else c"
  have "view (?f p c) = view c" for p c
    using peerProposalInternal_view [of ad "cs_now c" p c] by (simp add: Let_def case_prod_unfold view_emit)
  then have "view (fold ?f ps c) = view c" for ps c
    by (induction ps arbitrary: c) simp_all
  then show ?thesis by (simp add: playbackProposals_def)
qed

end
