(* ===== verification/Consensus_Accept.thy ===== *)
theory Consensus_Accept
  imports Consensus_Reach Consensus_View
begin

text \<open>
  When a round of consensus ends: what accepting a ledger implies, that an operation always returns, and that a round
  cannot be kept open for ever. With the built-in parameters.
\<close>

section \<open>The close time\<close>

lemma pick_close_time_spec:
  assumes "pick_close_time tv tc (t0, h0) tally = (t, h)"
  shows "(t, h) = (t0, h0) \<and> (\<forall>(t', v) \<in> set tally. v < tv)
    \<or> (\<exists>v. (t, v) \<in> set tally \<and> tv \<le> v \<and> (\<forall>(t', v') \<in> set tally. v' \<le> v) \<and> (h \<longleftrightarrow> h0 \<or> tc \<le> v))"
  using assms
proof (induction tv tc "(t0, h0)" tally arbitrary: t0 h0 rule: pick_close_time.induct)
  case (1 tv tc t0 h0)
  then show ?case by simp
next
  case (2 tv tc t0 h0 t' v' tally)
  show ?case
  proof (cases "tv \<le> v'")
    case True
    then have "pick_close_time v' tc (t', h0 \<or> tc \<le> v') tally = (t, h)" using "2.prems" by simp
    then have "(t, h) = (t', h0 \<or> tc \<le> v') \<and> (\<forall>(t', v) \<in> set tally. v < v')
      \<or> (\<exists>v. (t, v) \<in> set tally \<and> v' \<le> v \<and> (\<forall>(t', v') \<in> set tally. v' \<le> v) \<and> (h \<longleftrightarrow> (h0 \<or> tc \<le> v') \<or> tc \<le> v))"
      using "2.hyps"(1) [OF True] by blast
    then show ?thesis
    proof
      assume a: "(t, h) = (t', h0 \<or> tc \<le> v') \<and> (\<forall>(t', v) \<in> set tally. v < v')"
      then have "\<forall>(t', v) \<in> set ((t', v') # tally). v \<le> v'" by auto
      then show ?thesis using a True by (intro disjI2 exI [of _ v']) simp
    next
      assume "\<exists>v. (t, v) \<in> set tally \<and> v' \<le> v \<and> (\<forall>(t', v') \<in> set tally. v' \<le> v) \<and> (h \<longleftrightarrow> (h0 \<or> tc \<le> v') \<or> tc \<le> v)"
      then obtain v where "(t, v) \<in> set tally" "v' \<le> v" "\<forall>(t', v') \<in> set tally. v' \<le> v" "h \<longleftrightarrow> (h0 \<or> tc \<le> v') \<or> tc \<le> v"
        by blast
      then show ?thesis using True by (intro disjI2 exI [of _ v]) auto
    qed
  next
    case False
    then have "pick_close_time tv tc (t0, h0) tally = (t, h)" using "2.prems" by simp
    then have "(t, h) = (t0, h0) \<and> (\<forall>(t', v) \<in> set tally. v < tv)
      \<or> (\<exists>v. (t, v) \<in> set tally \<and> tv \<le> v \<and> (\<forall>(t', v') \<in> set tally. v' \<le> v) \<and> (h \<longleftrightarrow> h0 \<or> tc \<le> v))"
      using "2.hyps"(2) [OF False] by blast
    then show ?thesis
    proof
      assume "(t, h) = (t0, h0) \<and> (\<forall>(t', v) \<in> set tally. v < tv)"
      then show ?thesis using False by (intro disjI1) auto
    next
      assume "\<exists>v. (t, v) \<in> set tally \<and> tv \<le> v \<and> (\<forall>(t', v') \<in> set tally. v' \<le> v) \<and> (h \<longleftrightarrow> h0 \<or> tc \<le> v)"
      then obtain v where "(t, v) \<in> set tally" "tv \<le> v" "\<forall>(t', v') \<in> set tally. v' \<le> v" "h \<longleftrightarrow> h0 \<or> tc \<le> v"
        by blast
      then show ?thesis using False by (intro disjI2 exI [of _ v]) auto
    qed
  qed
qed

lemma tallies_bound:
  assumes "tallies m M" and "\<forall>(k, c) \<in> set m. c \<le> v"
  shows "count M k \<le> v"
proof -
  have "(case map_of m k of None \<Rightarrow> 0 | Some c \<Rightarrow> c) = count M k" using assms(1) by (simp add: tallies_def)
  then show ?thesis using assms(2) map_of_SomeD [of m k] by (cases "map_of m k") auto
qed

text \<open>The close times proposed, rounded to the resolution of the round: the peers', and ours if we propose.\<close>

definition close_times :: "Consensus \<Rightarrow> (NodeID \<times> ConsensusProposal) list \<Rightarrow> ConsensusResult \<Rightarrow> u32 multiset" where
  "close_times c peers r =
     mset (map (\<lambda>(_, p). asCloseTime c (pr_closeTime p)) peers)
       + (if cs_mode c = cm_proposing then {#asCloseTime c (pr_closeTime (rs_position r))#} else {#})"

lemma close_time_votes_tallies:
  "tallies (close_time_votes c peers) (mset (map (\<lambda>(_, p). asCloseTime c (pr_closeTime p)) peers))"
proof -
  have "close_time_votes c peers = fold increment_at (map (\<lambda>(_, p). asCloseTime c (pr_closeTime p)) peers) []"
    by (simp add: close_time_votes_def fold_map comp_def case_prod_unfold)
  then show ?thesis using tallies_fold [OF tallies_empty, of "map (\<lambda>(_, p). asCloseTime c (pr_closeTime p)) peers"] by simp
qed

lemma close_time_consensus_spec:
  assumes "close_time_consensus parms (close_time_votes c (cs_currPeerPositions c)) r c = Some (t, hv, av)"
  shows "if cs_currPeerPositions c = [] then hv \<and> t = asCloseTime c (pr_closeTime (rs_position r))
    else hv \<longrightarrow> participantsNeeded (size (close_times c (cs_currPeerPositions c) r)) (avCT_CONSENSUS_PCT parms)
                  \<le> count (close_times c (cs_currPeerPositions c) r) t
           \<and> (\<forall>t'. count (close_times c (cs_currPeerPositions c) r) t' \<le> count (close_times c (cs_currPeerPositions c) r) t)"
proof (cases "cs_currPeerPositions c = []")
  case True
  then show ?thesis using assms by (auto simp: close_time_consensus_def)
next
  case False
  let ?M = "close_times c (cs_currPeerPositions c) r"
  let ?m = "if cs_mode c = cm_proposing
            then increment_at (asCloseTime c (pr_closeTime (rs_position r))) (close_time_votes c (cs_currPeerPositions c))
            else close_time_votes c (cs_currPeerPositions c)"
  have cm: "tallies ?m ?M"
    using tallies_increment [OF close_time_votes_tallies] close_time_votes_tallies by (simp add: close_times_def)
  have sz: "size ?M = length (cs_currPeerPositions c) + (if cs_mode c = cm_proposing then 1 else 0)"
    by (simp add: close_times_def)
  obtain nw where pick: "pick_close_time (participantsNeeded (size ?M) nw)
      (participantsNeeded (size ?M) (avCT_CONSENSUS_PCT parms)) (0, False) ?m = (t, hv)"
    using assms False unfolding sz by (auto simp: close_time_consensus_def Let_def split: option.splits prod.splits)
  have "participantsNeeded (size ?M) (avCT_CONSENSUS_PCT parms) \<le> count ?M t \<and> (\<forall>t'. count ?M t' \<le> count ?M t)" if hv
  proof -
    obtain v where v: "(t, v) \<in> set ?m" "\<forall>(t', v') \<in> set ?m. v' \<le> v" "participantsNeeded (size ?M) (avCT_CONSENSUS_PCT parms) \<le> v"
      using pick_close_time_spec [OF pick] \<open>hv\<close> by auto
    have "count ?M t = v" using tallies_entry [OF cm v(1)] by simp
    moreover have "count ?M t' \<le> v" for t'
      using cm v(2) by (rule tallies_bound)
    ultimately show ?thesis using v(3) by simp
  qed
  then show ?thesis using False by simp
qed

section \<open>One step of the establish phase\<close>

definition fresh_peers :: "Adaptor \<Rightarrow> Consensus \<Rightarrow> (NodeID \<times> ConsensusProposal) list" where
  "fresh_peers ad c =
     filter (\<lambda>(_, p). \<not> isStale (cs_now c - word_of_int (proposeFRESHNESS (ad_parms ad))) p) (cs_currPeerPositions c)"

text \<open>The close time of a position is backed by enough of the times proposed, and by the most.\<close>

definition close_time_backed :: "Adaptor \<Rightarrow> Consensus \<Rightarrow> ConsensusProposal \<Rightarrow> u32 multiset \<Rightarrow> bool" where
  "close_time_backed ad c p M \<longleftrightarrow>
     (\<exists>t. (pr_closeTime p = t \<or> asCloseTime c (pr_closeTime p) = t)
        \<and> participantsNeeded (size M) (avCT_CONSENSUS_PCT (ad_parms ad)) \<le> count M t \<and> (\<forall>t'. count M t' \<le> count M t))"

lemma updateOurPositions_frame:
  assumes ok: "adaptor_ok h B ad" and pk: "peers_ok c" and aq: "acquired_ok h B c" and st: "stance_ok h B c r"
    and res: "updateOurPositions ad r c = Some (r', c')"
  shows "(\<exists>hv av k es aq'. c' = c\<lparr>cs_currPeerPositions := fresh_peers ad c, cs_haveCloseTimeConsensus := hv,
              cs_closeTimeAvalancheState := av, cs_peerUnchangedCounter := k, cs_events := es, cs_acquired := aq'\<rparr>)
    \<and> rs_roundTime r' = rs_roundTime r
    \<and> (fresh_peers ad c = [] \<longrightarrow> cs_haveCloseTimeConsensus c')
    \<and> (cs_haveCloseTimeConsensus c' \<longrightarrow> fresh_peers ad c \<noteq> []
        \<longrightarrow> close_time_backed ad c (rs_position r') (close_times c (fresh_peers ad c) r))"
proof -
  obtain peers r1 ds ms t hv av c1 c2 r2 where
    dr: "drop_stale (cs_now c - word_of_int (proposeFRESHNESS (ad_parms ad))) (cs_currPeerPositions c) r = (peers, r1)"
    and c1: "c1 = c\<lparr>cs_currPeerPositions := peers\<rparr>"
    and vd: "vote_disputes (ad_parms ad) (cs_convergePercent c) (cs_mode c = cm_proposing) (rs_txns r1) None (rs_disputes r1)
        = Some (ds, ms)"
    and r2: "r2 = r1\<lparr>rs_disputes := ds\<rparr>"
    and ct: "close_time_consensus (ad_parms ad) (close_time_votes c peers) r2 c1 = Some (t, hv, av)"
    and c2: "c2 = c1\<lparr>cs_haveCloseTimeConsensus := hv, cs_closeTimeAvalancheState := av\<rparr>"
    and out: "if ms = None \<and> t = asCloseTime c (pr_closeTime (rs_position r2))
          \<and> \<not> isStale (cs_now c - word_of_int (proposeINTERVAL (ad_parms ad))) (rs_position r2)
       then r' = r2 \<and> c' = c2
       else adopt_position ad (current_set (rs_txns r1) ms) t r2 c2 = (r', c')"
    using updateOurPositions_steps [OF res] by blast
  have peers: "peers = fresh_peers ad c"
    using dr by (simp add: fresh_peers_def drop_stale_eq)
  note one = drop_stale_spec [OF st pk dr c1]
  then have r1: "rs_position r1 = rs_position r" "rs_roundTime r1 = rs_roundTime r" by (simp_all add: same_stance_iff)
  have st2: "stance_ok h B c2 r1" and pk2: "peers_ok c2" and aq2: "acquired_ok h B c2"
    using one aq by (simp_all add: c2 c1 stance_ok_def result_inv_def peers_ok_def acquired_ok_def)
  note two = vote_disputes_stance [OF st2 vd refl]
  have step: "(\<exists>k es aq'. c' = c2\<lparr>cs_peerUnchangedCounter := k, cs_events := es, cs_acquired := aq'\<rparr>)
      \<and> rs_roundTime r' = rs_roundTime r2
      \<and> (pr_closeTime (rs_position r') = t \<or> asCloseTime c (pr_closeTime (rs_position r')) = t)"
  proof (cases "ms = None \<and> t = asCloseTime c (pr_closeTime (rs_position r2))
          \<and> \<not> isStale (cs_now c - word_of_int (proposeINTERVAL (ad_parms ad))) (rs_position r2)")
    case True
    have "\<exists>k es aq'. c2 = c2\<lparr>cs_peerUnchangedCounter := k, cs_events := es, cs_acquired := aq'\<rparr>"
      by (intro exI [of _ "cs_peerUnchangedCounter c2"] exI [of _ "cs_events c2"] exI [of _ "cs_acquired c2"]) simp
    then show ?thesis using True out by simp
  next
    case False
    then have ap: "adopt_position ad (current_set (rs_txns r1) ms) t r2 c2 = (r', c')" using out by simp
    have "result_inv h B (set (cs_currPeerPositions c2)) c2 (r2\<lparr>rs_txns := current_set (rs_txns r1) ms, rs_position := p\<rparr>)
        \<and> compared h (set (cs_currPeerPositions c2)) (cs_acquired c2)
            (r2\<lparr>rs_txns := current_set (rs_txns r1) ms, rs_position := p\<rparr>)" for p
      using two by (simp add: r2)
    moreover have "current_set (rs_txns r1) ms \<subseteq> B" using two by blast
    ultimately have "rs_position r' = changePosition (h (current_set (rs_txns r1) ms)) t (cs_now c2) (rs_position r2)
        \<and> (\<exists>k es aq'. c' = c2\<lparr>cs_peerUnchangedCounter := k, cs_events := es, cs_acquired := aq'\<rparr>)
        \<and> rs_roundTime r' = rs_roundTime r2"
      using adopt_position_spec [OF ok pk2 aq2 _ _ ap] by auto
    then show ?thesis by (simp add: changePosition_def Let_def)
  qed
  obtain k es aq' where c': "c' = c2\<lparr>cs_peerUnchangedCounter := k, cs_events := es, cs_acquired := aq'\<rparr>"
    using step by blast
  have "\<exists>hv av k es aq'. c' = c\<lparr>cs_currPeerPositions := fresh_peers ad c, cs_haveCloseTimeConsensus := hv,
              cs_closeTimeAvalancheState := av, cs_peerUnchangedCounter := k, cs_events := es, cs_acquired := aq'\<rparr>"
    by (intro exI [of _ hv] exI [of _ av] exI [of _ k] exI [of _ es] exI [of _ aq']) (simp add: c' c2 c1 peers)
  moreover have hv: "cs_haveCloseTimeConsensus c' = hv" by (simp add: c' c2)
  moreover have "close_times c1 peers r2 = close_times c peers r" "close_time_votes c1 peers = close_time_votes c peers"
    "cs_currPeerPositions c1 = peers"
    using r1 by (simp_all add: close_times_def close_time_votes_def asCloseTime_def c1 r2)
  then have ctc: "if peers = [] then hv
      else hv \<longrightarrow> participantsNeeded (size (close_times c peers r)) (avCT_CONSENSUS_PCT (ad_parms ad)) \<le> count (close_times c peers r) t
           \<and> (\<forall>t'. count (close_times c peers r) t' \<le> count (close_times c peers r) t)"
    using close_time_consensus_spec [of "ad_parms ad" c1 r2 t hv av] ct by (simp split: if_splits)
  moreover have "close_time_backed ad c (rs_position r') (close_times c (fresh_peers ad c) r)"
    if "hv" "fresh_peers ad c \<noteq> []"
    using step ctc that unfolding close_time_backed_def peers by (intro exI [of _ t]) simp
  moreover have "rs_roundTime r' = rs_roundTime r" using step r1 by (simp add: r2)
  ultimately show ?thesis unfolding peers by simp
qed

section \<open>Accepting a ledger\<close>

lemma all_stalled_iff:
  "all_stalled parms pr u ds = Some True \<Longrightarrow> \<forall>(i, d) \<in> set ds. stalled parms pr u d = Some True"
  by (induction parms pr u ds rule: all_stalled.induct) (auto split: option.splits bool.splits)

text \<open>A dispute is lopsided if at least 68% of its voters say yes, or fewer than 33% do; we vote if we are proposing.\<close>

definition lopsided :: "bool \<Rightarrow> (TxID, NodeID) DisputedTx \<Rightarrow> bool" where
  "lopsided proposing d \<longleftrightarrow>
     (let yes = yays d + (if proposing \<and> ourVote d then 1 else 0); total = nays d + yays d + (if proposing then 1 else 0)
      in 68 * total \<le> 100 * yes \<or> 100 * yes < 33 * total)"

lemma checkConsensus_not_No:
  "checkConsensus pp cp ca cf pt t st consensusParms pr \<noteq> No \<Longrightarrow> 1950 < t"
  by (cases "t \<le> 1950") (simp_all add: checkConsensus_def)

lemma leaveConsensus_frame:
  "cs_currPeerPositions (leaveConsensus c) = cs_currPeerPositions c"
  "cs_haveCloseTimeConsensus (leaveConsensus c) = cs_haveCloseTimeConsensus c"
  "cs_establishCounter (leaveConsensus c) = cs_establishCounter c"
  "cs_mode (leaveConsensus c) \<noteq> cm_proposing"
  "cs_phase (leaveConsensus c) = cs_phase c"
  by (auto simp: leaveConsensus_def Let_def set_mode_def emit_def bowOut_def split: option.splits)

lemma leaveConsensus_result:
  assumes "cs_result c = Some r"
  shows "\<exists>p. cs_result (leaveConsensus c) = Some (r\<lparr>rs_position := p\<rparr>)
     \<and> pr_position p = pr_position (rs_position r) \<and> pr_closeTime p = pr_closeTime (rs_position r)"
  using assms
  by (intro exI [of _ "if cs_mode c = cm_proposing \<and> \<not> isBowOut (rs_position r) then bowOut (cs_now c) (rs_position r)
                       else rs_position r"])
     (simp add: leaveConsensus_def Let_def set_mode_def emit_def bowOut_def)

lemma haveConsensus_result:
  assumes "haveConsensus ad r c = Some (b, c')"
  shows "\<exists>r'. cs_result c' = Some r' \<and> rs_txns r' = rs_txns r \<and> rs_disputes r' = rs_disputes r
    \<and> rs_roundTime r' = rs_roundTime r \<and> pr_position (rs_position r') = pr_position (rs_position r)
    \<and> pr_closeTime (rs_position r') = pr_closeTime (rs_position r)
    \<and> cs_currPeerPositions c' = cs_currPeerPositions c \<and> cs_haveCloseTimeConsensus c' = cs_haveCloseTimeConsensus c
    \<and> cs_establishCounter c' = cs_establishCounter c \<and> cs_phase c' = cs_phase c
    \<and> (rs_state r' \<noteq> Expired \<longrightarrow> cs_mode c' = cs_mode c)
    \<and> (b \<longrightarrow> rs_state r' \<noteq> No \<and> (rs_state r' = Expired \<longrightarrow>
         cs_mode c' \<noteq> cm_proposing \<and> minimumCounter (ad_parms ad) \<le> cs_establishCounter c))
    \<and> (\<exists>stl. (if cs_haveCloseTimeConsensus c \<and> rs_disputes r \<noteq> []
               then all_stalled (ad_parms ad) (cs_mode c = cm_proposing) (int (cs_peerUnchangedCounter c)) (rs_disputes r)
               else Some False) = Some stl
         \<and> rs_state r' = checkConsensus (cs_prevProposers c) (length (cs_currPeerPositions c))
             (length (filter (\<lambda>(_, p). pr_position p = pr_position (rs_position r)) (cs_currPeerPositions c)))
             (proposersFinished ad (cs_previousLedger c) (cs_prevLedgerID c)) (cs_prevRoundTime c)
             (tm_dur (rs_roundTime r)) stl (ad_parms ad) (cs_mode c = cm_proposing))"
proof -
  obtain stl st c1 where stl: "(if cs_haveCloseTimeConsensus c \<and> rs_disputes r \<noteq> []
               then all_stalled (ad_parms ad) (cs_mode c = cm_proposing) (int (cs_peerUnchangedCounter c)) (rs_disputes r)
               else Some False) = Some stl"
    and st: "st = checkConsensus (cs_prevProposers c) (length (cs_currPeerPositions c))
             (length (filter (\<lambda>(_, p). pr_position p = pr_position (rs_position r)) (cs_currPeerPositions c)))
             (proposersFinished ad (cs_previousLedger c) (cs_prevLedgerID c)) (cs_prevRoundTime c)
             (tm_dur (rs_roundTime r)) stl (ad_parms ad) (cs_mode c = cm_proposing)"
    and c1: "c1 = c\<lparr>cs_result := Some (r\<lparr>rs_state := st\<rparr>)\<rparr>"
    and b: "b = (st \<noteq> No \<and> (st = Expired \<longrightarrow> minimumCounter (ad_parms ad) \<le> cs_establishCounter c))"
    and c': "c' = (if b \<and> st = Expired then leaveConsensus c1 else c1)"
    using haveConsensus_steps [OF assms] by blast
  have "cs_result c1 = Some (r\<lparr>rs_state := st\<rparr>)" by (simp add: c1)
  then obtain p where p: "cs_result (leaveConsensus c1) = Some (r\<lparr>rs_state := st, rs_position := p\<rparr>)"
    "pr_position p = pr_position (rs_position r)" "pr_closeTime p = pr_closeTime (rs_position r)"
    using leaveConsensus_result [of c1 "r\<lparr>rs_state := st\<rparr>"] by auto
  have "\<exists>r'. cs_result c' = Some r' \<and> rs_state r' = st \<and> rs_txns r' = rs_txns r \<and> rs_disputes r' = rs_disputes r
    \<and> rs_roundTime r' = rs_roundTime r \<and> pr_position (rs_position r') = pr_position (rs_position r)
    \<and> pr_closeTime (rs_position r') = pr_closeTime (rs_position r)"
  proof (cases "b \<and> st = Expired")
    case True
    then have "c' = leaveConsensus c1" by (simp add: c')
    then show ?thesis using p by (intro exI [of _ "r\<lparr>rs_state := st, rs_position := p\<rparr>"]) simp
  next
    case False
    have "c' = c1" by (rule trans [OF c' if_not_P [OF False]])
    then show ?thesis by (intro exI [of _ "r\<lparr>rs_state := st\<rparr>"]) (simp add: c1)
  qed
  then obtain r' where r': "cs_result c' = Some r'" "rs_state r' = st" "rs_txns r' = rs_txns r" "rs_disputes r' = rs_disputes r"
    "rs_roundTime r' = rs_roundTime r" "pr_position (rs_position r') = pr_position (rs_position r)"
    "pr_closeTime (rs_position r') = pr_closeTime (rs_position r)" by blast
  moreover have "cs_currPeerPositions c' = cs_currPeerPositions c \<and> cs_haveCloseTimeConsensus c' = cs_haveCloseTimeConsensus c
    \<and> cs_establishCounter c' = cs_establishCounter c \<and> cs_phase c' = cs_phase c \<and> (st \<noteq> Expired \<longrightarrow> cs_mode c' = cs_mode c)
    \<and> (b \<longrightarrow> st = Expired \<longrightarrow> cs_mode c' \<noteq> cm_proposing)"
  proof -
    have "cs_currPeerPositions c1 = cs_currPeerPositions c" "cs_haveCloseTimeConsensus c1 = cs_haveCloseTimeConsensus c"
      "cs_establishCounter c1 = cs_establishCounter c" "cs_phase c1 = cs_phase c" "cs_mode c1 = cs_mode c"
      by (simp_all add: c1)
    then show ?thesis using leaveConsensus_frame [of c1] by (simp add: c')
  qed
  ultimately show ?thesis
    using b stl st by (intro exI [of _ r']) auto
qed

lemma minimumCounter_default [simp]: "minimumCounter consensusParms = 8"
  by (simp add: minimumCounter_def)

lemma phaseEstablish_early:
  assumes "phaseEstablish ad c = Some c'" and "cs_result c = Some r0"
    and "\<not> ledgerMIN_CONSENSUS (ad_parms ad) \<le> tm_dur (timer_tick (ad_clock ad) (rs_roundTime r0))"
  shows "cs_phase c' = cs_phase c"
  using assms by (auto simp: phaseEstablish_def Let_def)

text \<open>The state right before the verdict, for a step of the establish phase that gets that far.\<close>

lemma phaseEstablish_verdict:
  assumes ok: "adaptor_ok h B ad" and inv: "cinv h B c" and ph: "cs_phase c = cp_establish"
    and res: "phaseEstablish ad c = Some c'" and r0: "cs_result c = Some r0"
    and late: "ledgerMIN_CONSENSUS (ad_parms ad) \<le> tm_dur (timer_tick (ad_clock ad) (rs_roundTime r0))"
  shows "\<exists>r2 c3. cs_result c3 = Some r2 \<and> cinv h B c3 \<and> stance_ok h B c3 r2
    \<and> cs_currPeerPositions c3 = fresh_peers ad c \<and> cs_mode c3 = cs_mode c \<and> cs_prevProposers c3 = cs_prevProposers c
    \<and> cs_prevRoundTime c3 = cs_prevRoundTime c \<and> cs_establishCounter c3 = Suc (cs_establishCounter c)
    \<and> cs_phase c3 = cp_establish \<and> rs_roundTime r2 = timer_tick (ad_clock ad) (rs_roundTime r0)
    \<and> (fresh_peers ad c = [] \<longrightarrow> cs_haveCloseTimeConsensus c3)
    \<and> (cs_haveCloseTimeConsensus c3 \<longrightarrow> fresh_peers ad c \<noteq> []
        \<longrightarrow> close_time_backed ad c (rs_position r2) (close_times c (fresh_peers ad c) r0))
    \<and> (if shouldPause ad r2 c3 then c' = c3
       else \<exists>b c4. haveConsensus ad r2 c3 = Some (b, c4)
              \<and> c' = (if b \<and> cs_haveCloseTimeConsensus c4 then accept_round ad c4 else c4))"
proof -
  obtain q r c1 where q: "cs_result c = Some q" and
    r': "r = q\<lparr>rs_roundTime := timer_tick (ad_clock ad) (rs_roundTime q), rs_proposers := length (cs_currPeerPositions c)\<rparr>"
    and c1: "c1 = c\<lparr>cs_peerUnchangedCounter := cs_peerUnchangedCounter c + 1, cs_establishCounter := cs_establishCounter c + 1,
             cs_convergePercent := (tm_dur (rs_roundTime r) * 100)
               sdiv max (cs_prevRoundTime c) (avMIN_CONSENSUS_TIME (ad_parms ad)), cs_result := Some r\<rparr>"
    and out: "if tm_dur (rs_roundTime r) < ledgerMIN_CONSENSUS (ad_parms ad) then c' = c1
       else \<exists>r2 c2. updateOurPositions ad r c1 = Some (r2, c2)
         \<and> (if shouldPause ad r2 (c2\<lparr>cs_result := Some r2\<rparr>) then c' = c2\<lparr>cs_result := Some r2\<rparr>
            else \<exists>b c4. haveConsensus ad r2 (c2\<lparr>cs_result := Some r2\<rparr>) = Some (b, c4)
              \<and> c' = (if b \<and> cs_haveCloseTimeConsensus c4 then accept_round ad c4 else c4))"
    using phaseEstablish_steps [OF res] by blast
  have "q = r0" using q r0 by simp
  note r = r' [unfolded this]
  have "tm_dur (rs_roundTime r) = tm_dur (timer_tick (ad_clock ad) (rs_roundTime r0))" by (simp add: r)
  then obtain r2 c2 where u: "updateOurPositions ad r c1 = Some (r2, c2)"
    and out2: "if shouldPause ad r2 (c2\<lparr>cs_result := Some r2\<rparr>) then c' = c2\<lparr>cs_result := Some r2\<rparr>
            else \<exists>b c4. haveConsensus ad r2 (c2\<lparr>cs_result := Some r2\<rparr>) = Some (b, c4)
              \<and> c' = (if b \<and> cs_haveCloseTimeConsensus c4 then accept_round ad c4 else c4)"
    using out late by auto
  have pk: "peers_ok c1" and aq: "acquired_ok h B c1" and st: "stance_ok h B c1 r"
    using inv r0 by (simp_all add: cinv_def c1 r peers_ok_def acquired_ok_def)
      (simp add: stance_ok_def result_inv_def disputes_ok_def compares_ok_def compared_def)
  have fp: "fresh_peers ad c1 = fresh_peers ad c" and ct: "close_times c1 (fresh_peers ad c) r = close_times c (fresh_peers ad c) r0"
    and cb: "close_time_backed ad c1 = close_time_backed ad c"
    by (simp_all add: fresh_peers_def close_times_def asCloseTime_def c1 r close_time_backed_def fun_eq_iff)
  note sp = updateOurPositions_spec [OF ok pk aq st u]
  note fr = updateOurPositions_frame [OF ok pk aq st u, unfolded fp ct cb]
  obtain hv av k es aq' where c2: "c2 = c1\<lparr>cs_currPeerPositions := fresh_peers ad c, cs_haveCloseTimeConsensus := hv,
              cs_closeTimeAvalancheState := av, cs_peerUnchangedCounter := k, cs_events := es, cs_acquired := aq'\<rparr>"
    using fr by blast
  define c3 where "c3 = c2\<lparr>cs_result := Some r2\<rparr>"
  have "cs_phase c2 = cp_establish" using sp ph by (simp add: c1)
  then have inv3: "cinv h B c3"
    unfolding c3_def using sp by (intro cinv_stanceI) simp_all
  have fr3: "cs_currPeerPositions c3 = fresh_peers ad c \<and> cs_mode c3 = cs_mode c \<and> cs_prevProposers c3 = cs_prevProposers c
    \<and> cs_prevRoundTime c3 = cs_prevRoundTime c \<and> cs_establishCounter c3 = Suc (cs_establishCounter c)
    \<and> cs_phase c3 = cp_establish \<and> rs_roundTime r2 = timer_tick (ad_clock ad) (rs_roundTime r0)"
    using fr ph by (simp add: c3_def c2 c1 r)
  have "cs_haveCloseTimeConsensus c3 = cs_haveCloseTimeConsensus c2" by (simp add: c3_def)
  moreover have "cs_result c3 = Some r2" by (simp add: c3_def)
  moreover from this inv3 have "stance_ok h B c3 r2" by (simp add: cinv_def)
  ultimately show ?thesis
    using inv3 fr3 fr out2 [folded c3_def] by (intro exI [of _ r2] exI [of _ c3]) simp
qed

lemma checkConsensus_Yes_default:
  assumes "checkConsensus pp n ca cf pt t stl consensusParms pr = Yes"
  shows "if n = 0 then 15000 < t else stl \<or> 67 * (n + (if pr then 1 else 0)) \<le> 100 * (ca + (if pr then 1 else 0))"
proof -
  have "checkConsensusReached ca n pr 67 (15000 < t) stl"
    using assms by (simp add: checkConsensus_def Let_def split: if_splits)
  then show ?thesis by (simp add: checkConsensusReached_iff split: if_splits)
qed

text \<open>
  C3. What accepting a ledger means. When the establish phase ends a round, no peer whose proposal is stale counts any more,
  more than 1950 ms have passed since the ledger closed, and the verdict is not "no". If the verdict is "yes", then either no
  peer is left and 15 s have passed, or at least 67% of the proposers (with us, if we propose) hold exactly the
  transaction set we accept, or there are disputed transactions and every one is lopsided, with at least 68% or fewer than
  33% of its voters in favour. If the verdict is "expired", we have stopped proposing and took at least eight steps. Where peers
  remain, the close time of our position is the one most of the proposers ask for, and three quarters of them
  (rounded) do.
\<close>

theorem accept_needs_agreement:
  assumes "consensus_reach h B c" and "adaptor_ok h B ad" and "ad_parms ad = consensusParms"
    and "cs_phase c = cp_establish" and "cs_result c = Some r0" and "phaseEstablish ad c = Some c'" and "cs_phase c' = cp_accepted"
    and "peers = cs_currPeerPositions c'" and "self = (if cs_mode c = cm_proposing then 1 else 0)"
  shows "\<exists>r. cs_result c' = Some r \<and> peers = fresh_peers ad c \<and> pr_position (rs_position r) = h (rs_txns r)
    \<and> rs_state r \<noteq> No \<and> 1950 < tm_dur (rs_roundTime r)
    \<and> (rs_state r = Yes \<longrightarrow>
         (if peers = [] then 15000 < tm_dur (rs_roundTime r)
          else 67 * (length peers + self) \<le> 100 * (length (filter (\<lambda>(_, p). pr_position p = h (rs_txns r)) peers) + self)
            \<or> rs_disputes r \<noteq> [] \<and> (\<forall>i d. (i, d) \<in> set (rs_disputes r) \<longrightarrow> lopsided (cs_mode c = cm_proposing) d)))
    \<and> (rs_state r = Expired \<longrightarrow> cs_mode c' \<noteq> cm_proposing \<and> 8 \<le> Suc (cs_establishCounter c))
    \<and> (peers \<noteq> [] \<longrightarrow> close_time_backed ad c (rs_position r) (close_times c peers r0))"
proof -
  have inv: "cinv h B c" using assms(1) by (rule consensus_reach_inv)
  have late: "ledgerMIN_CONSENSUS (ad_parms ad) \<le> tm_dur (timer_tick (ad_clock ad) (rs_roundTime r0))"
  proof (rule ccontr)
    assume "\<not> ?thesis"
    from phaseEstablish_early [OF assms(6,5) this] show False using assms(4,7) by simp
  qed
  obtain r2 c3 where r2: "cs_result c3 = Some r2" "stance_ok h B c3 r2"
    and c3: "cs_currPeerPositions c3 = fresh_peers ad c" "cs_mode c3 = cs_mode c" "cs_phase c3 = cp_establish"
      "cs_establishCounter c3 = Suc (cs_establishCounter c)"
    and ct: "cs_haveCloseTimeConsensus c3 \<longrightarrow> fresh_peers ad c \<noteq> []
        \<longrightarrow> close_time_backed ad c (rs_position r2) (close_times c (fresh_peers ad c) r0)"
    and out: "if shouldPause ad r2 c3 then c' = c3
       else \<exists>b c4. haveConsensus ad r2 c3 = Some (b, c4)
              \<and> c' = (if b \<and> cs_haveCloseTimeConsensus c4 then accept_round ad c4 else c4)"
    using phaseEstablish_verdict [OF assms(2) inv assms(4,6,5) late] by (elim exE conjE) (rule that)
  have "\<not> shouldPause ad r2 c3" using out c3(3) assms(7) by auto
  then obtain b c4 where hc: "haveConsensus ad r2 c3 = Some (b, c4)"
    and c': "c' = (if b \<and> cs_haveCloseTimeConsensus c4 then accept_round ad c4 else c4)" using out by auto
  obtain r' stl where r': "cs_result c4 = Some r'" "rs_txns r' = rs_txns r2" "rs_disputes r' = rs_disputes r2"
      "rs_roundTime r' = rs_roundTime r2" "pr_position (rs_position r') = pr_position (rs_position r2)"
      "pr_closeTime (rs_position r') = pr_closeTime (rs_position r2)"
    and c4: "cs_currPeerPositions c4 = cs_currPeerPositions c3" "cs_haveCloseTimeConsensus c4 = cs_haveCloseTimeConsensus c3"
      "cs_phase c4 = cs_phase c3"
    and b: "b \<longrightarrow> rs_state r' \<noteq> No \<and> (rs_state r' = Expired \<longrightarrow>
         cs_mode c4 \<noteq> cm_proposing \<and> minimumCounter (ad_parms ad) \<le> cs_establishCounter c3)"
    and stl: "(if cs_haveCloseTimeConsensus c3 \<and> rs_disputes r2 \<noteq> []
               then all_stalled (ad_parms ad) (cs_mode c3 = cm_proposing) (int (cs_peerUnchangedCounter c3)) (rs_disputes r2)
               else Some False) = Some stl"
    and st: "rs_state r' = checkConsensus (cs_prevProposers c3) (length (cs_currPeerPositions c3))
             (length (filter (\<lambda>(_, p). pr_position p = pr_position (rs_position r2)) (cs_currPeerPositions c3)))
             (proposersFinished ad (cs_previousLedger c3) (cs_prevLedgerID c3)) (cs_prevRoundTime c3)
             (tm_dur (rs_roundTime r2)) stl (ad_parms ad) (cs_mode c3 = cm_proposing)"
    using haveConsensus_result [OF hc] by (elim exE conjE) (rule that)
  have acc: "b" "cs_haveCloseTimeConsensus c4" "c' = accept_round ad c4"
    using c' c3(3) c4(3) assms(7) by (auto split: if_splits)
  have fr: "cs_result c' = Some r'" "cs_currPeerPositions c' = fresh_peers ad c" "cs_mode c' = cs_mode c4"
    using acc(3) r'(1) c4(1) c3(1) by (simp_all add: accept_round_def Let_def emit_def)
  have pos: "pr_position (rs_position r2) = h (rs_txns r2)" using r2(2) by (simp add: stance_ok_def)
  have "1950 < tm_dur (rs_roundTime r')"
    using checkConsensus_not_No b acc(1) st assms(3) r'(4) by metis
  moreover have "if peers = [] then 15000 < tm_dur (rs_roundTime r')
      else 67 * (length peers + self) \<le> 100 * (length (filter (\<lambda>(_, p). pr_position p = h (rs_txns r')) peers) + self)
            \<or> rs_disputes r' \<noteq> [] \<and> (\<forall>i d. (i, d) \<in> set (rs_disputes r') \<longrightarrow> lopsided (cs_mode c = cm_proposing) d)"
    if yes: "rs_state r' = Yes"
  proof -
    have "\<forall>i d. (i, d) \<in> set (rs_disputes r') \<longrightarrow> lopsided (cs_mode c = cm_proposing) d" if stl
    proof (intro allI impI)
      fix i d assume d: "(i, d) \<in> set (rs_disputes r')"
      have "all_stalled consensusParms (cs_mode c = cm_proposing) (int (cs_peerUnchangedCounter c3)) (rs_disputes r2) = Some True"
        using stl \<open>stl\<close> assms(3) c3(2) by (simp split: if_splits)
      then have sd: "stalled consensusParms (cs_mode c = cm_proposing) (int (cs_peerUnchangedCounter c3)) d = Some True"
        using all_stalled_iff d r'(3) by fastforce
      have "dispute_inv d"
        using r2(2) d r'(3) by (auto simp: stance_ok_def result_inv_def disputes_ok_def dispute_wf_def)
      from stalled_means_lopsided [OF this sd] show "lopsided (cs_mode c = cm_proposing) d"
        unfolding lopsided_def Let_def by blast
    qed
    moreover have "rs_disputes r' \<noteq> []" if stl using stl \<open>stl\<close> r'(3) by (simp split: if_splits)
    ultimately show ?thesis
      using checkConsensus_Yes_default [OF st [unfolded yes assms(3), symmetric]] assms(8,9) fr(2) c3(1,2) r'(2,4) pos
      by (auto split: if_splits)
  qed
  moreover have "close_time_backed ad c (rs_position r') (close_times c peers r0)" if "peers \<noteq> []"
    using ct acc(2) c4(2) that fr(2) assms(8) r'(6) by (simp add: close_time_backed_def)
  moreover have "peers = fresh_peers ad c" "pr_position (rs_position r') = h (rs_txns r')" "rs_state r' \<noteq> No"
    "rs_state r' = Expired \<longrightarrow> cs_mode c' \<noteq> cm_proposing \<and> 8 \<le> Suc (cs_establishCounter c)"
    using fr r' b acc(1) assms(3,8) c3(4) pos by simp_all
  ultimately show ?thesis
    using fr(1) by (intro exI [of _ r'] conjI impI) simp_all
qed

definition demo_agreed :: Consensus where
  "demo_agreed = the (phaseEstablish (demo_ad 13000000000) demo_closed)"

lemma demo_agreed_Some: "phaseEstablish (demo_ad 13000000000) demo_closed = Some demo_agreed"
proof -
  have "phaseEstablish (demo_ad 13000000000) demo_closed \<noteq> None"
    by code_simp
  then show ?thesis by (auto simp: demo_agreed_def)
qed

theorem accept_needs_agreement_witness:
  "\<exists>r. cs_result demo_agreed = Some r \<and> rs_state r \<noteq> No \<and> 1950 < tm_dur (rs_roundTime r)
     \<and> pr_position (rs_position r) = demo_h (rs_txns r)"
proof -
  have ph: "cs_phase demo_closed = cp_establish" by code_simp
  then obtain r0 where r0: "cs_result demo_closed = Some r0"
    using consensus_reach_inv [OF demo_closed_reach] by (auto simp: cinv_def)
  have acc: "cs_phase demo_agreed = cp_accepted" by code_simp
  have parms: "ad_parms (demo_ad 13000000000) = consensusParms" by (simp add: demo_ad_def)
  from accept_needs_agreement [OF demo_closed_reach demo_ad_ok parms ph r0 demo_agreed_Some acc refl refl]
  show ?thesis by blast
qed

section \<open>Operations return\<close>

lemma vote_disputes_default: "vote_disputes consensusParms pct pr txns ms ds \<noteq> None"
proof (induction ds arbitrary: ms)
  case (Cons x ds)
  obtain i d where x: "x = (i, d)" by fastforce
  obtain ch d' where "updateVote pct pr consensusParms d = Some (ch, d')" using updateVote_default by blast
  then show ?case using Cons.IH by (simp add: x Let_def del: not_None_eq)
qed simp

lemma close_time_consensus_default: "\<exists>x. close_time_consensus consensusParms tally r c = Some x"
proof -
  obtain pct ns where "getNeededWeight consensusParms (cs_closeTimeAvalancheState c) (cs_convergePercent c) 0 0 = Some (pct, ns)"
    using getNeededWeight_default by blast
  then show ?thesis by (auto simp: close_time_consensus_def Let_def split: prod.splits)
qed

lemma stalled_total: "\<exists>b. stalled consensusParms pr u d = Some b"
  by (cases "avalancheState d") (auto simp: stalled_def Let_def)

lemma all_stalled_total: "\<exists>b. all_stalled consensusParms pr u ds = Some b"
proof (induction ds)
  case (Cons x ds)
  obtain i d where x: "x = (i, d)" by fastforce
  obtain b where "stalled consensusParms pr u d = Some b" using stalled_total by blast
  then show ?case using Cons.IH by (cases b) (auto simp: x)
qed auto

lemma updateOurPositions_total:
  assumes "ad_parms ad = consensusParms"
  shows "\<exists>x. updateOurPositions ad r c = Some x"
proof -
  obtain peers r1 where ds: "drop_stale (cs_now c - word_of_int (proposeFRESHNESS (ad_parms ad))) (cs_currPeerPositions c) r
      = (peers, r1)" by fastforce
  obtain d ms where vd: "vote_disputes (ad_parms ad) (cs_convergePercent c) (cs_mode c = cm_proposing) (rs_txns r1) None
      (rs_disputes r1) = Some (d, ms)"
    using vote_disputes_default assms by (metis not_None_eq surj_pair)
  obtain t hv av where "close_time_consensus (ad_parms ad) (close_time_votes c peers) (r1\<lparr>rs_disputes := d\<rparr>)
      (c\<lparr>cs_currPeerPositions := peers\<rparr>) = Some (t, hv, av)"
    using close_time_consensus_default assms by (metis surj_pair)
  then show ?thesis
    using vd unfolding updateOurPositions_def Let_def ds by (auto split: option.split)
qed

lemma haveConsensus_total:
  assumes "ad_parms ad = consensusParms"
  shows "\<exists>x. haveConsensus ad r c = Some x"
proof -
  obtain stl where "(if cs_haveCloseTimeConsensus c \<and> rs_disputes r \<noteq> []
               then all_stalled (ad_parms ad) (cs_mode c = cm_proposing) (int (cs_peerUnchangedCounter c)) (rs_disputes r)
               else Some False) = Some stl"
    using all_stalled_total [of "cs_mode c = cm_proposing" "int (cs_peerUnchangedCounter c)" "rs_disputes r"] assms
    by (cases "cs_haveCloseTimeConsensus c \<and> rs_disputes r \<noteq> []") auto
  then show ?thesis unfolding haveConsensus_def Let_def by (auto split: if_splits)
qed

lemma phaseEstablish_total:
  assumes "ad_parms ad = consensusParms" and "cs_result c \<noteq> None"
  shows "\<exists>c'. phaseEstablish ad c = Some c'"
proof -
  obtain r0 where r0: "cs_result c = Some r0" using assms(2) by blast
  define r where "r = r0\<lparr>rs_roundTime := timer_tick (ad_clock ad) (rs_roundTime r0), rs_proposers := length (cs_currPeerPositions c)\<rparr>"
  define c1 where "c1 = c\<lparr>cs_peerUnchangedCounter := cs_peerUnchangedCounter c + 1, cs_establishCounter := cs_establishCounter c + 1,
             cs_convergePercent := (tm_dur (rs_roundTime r) * 100)
               sdiv max (cs_prevRoundTime c) (avMIN_CONSENSUS_TIME (ad_parms ad)), cs_result := Some r\<rparr>"
  obtain r2 c2 where u: "updateOurPositions ad r c1 = Some (r2, c2)"
    using updateOurPositions_total [OF assms(1)] by (metis surj_pair)
  obtain b c4 where hc: "haveConsensus ad r2 (c2\<lparr>cs_result := Some r2\<rparr>) = Some (b, c4)"
    using haveConsensus_total [OF assms(1)] by (metis surj_pair)
  have "phaseEstablish ad c = (if tm_dur (rs_roundTime r) < ledgerMIN_CONSENSUS (ad_parms ad) then Some c1
             else if shouldPause ad r2 (c2\<lparr>cs_result := Some r2\<rparr>) then Some (c2\<lparr>cs_result := Some r2\<rparr>)
             else if b \<and> cs_haveCloseTimeConsensus c4 then Some (accept_round ad c4) else Some c4)"
    using u hc unfolding phaseEstablish_def Let_def r0 r_def c1_def by (cases b) simp_all
  then show ?thesis by simp
qed

text \<open>
  The answers of the adaptor about ledgers: an acquired ledger has the identifier asked for, and the network's preferred
  ledger stays the same when we ask again after switching to it.
\<close>

definition ledger_answers_ok :: "Adaptor \<Rightarrow> bool" where
  "ledger_answers_ok ad \<longleftrightarrow>
     (\<forall>i l. acquireLedger ad i = Some l \<longrightarrow> cl_id l = i)
     \<and> (\<forall>i l m l' m'. cl_id l' = getPrevLedger ad i l m
          \<longrightarrow> getPrevLedger ad (getPrevLedger ad i l m) l' m' = getPrevLedger ad i l m)"

text \<open>On the right ledger, a timer entry does not look further.\<close>

lemma timerEntry_on_ledger:
  assumes "getPrevLedger ad (cs_prevLedgerID c) (cs_previousLedger c) (cs_mode c) = cs_prevLedgerID c"
    and "cl_id (cs_previousLedger c) = cs_prevLedgerID c"
  shows "timerEntry (Suc n) ad now c =
     (if cs_phase c = cp_accepted then Some c
      else if cs_phase c = cp_open then Some (phaseOpen ad (c\<lparr>cs_now := now\<rparr>))
      else phaseEstablish ad (c\<lparr>cs_now := now\<rparr>))"
  using assms by (cases "cs_phase c") (simp_all add: checkLedger_def)

lemma timerEntry_on_ledger_total:
  assumes "ad_parms ad = consensusParms" and "cinv h B c"
    and "getPrevLedger ad (cs_prevLedgerID c) (cs_previousLedger c) (cs_mode c) = cs_prevLedgerID c"
    and "cl_id (cs_previousLedger c) = cs_prevLedgerID c"
  shows "\<exists>c'. \<forall>n. timerEntry (Suc n) ad now c = Some c'"
proof (cases "cs_phase c = cp_establish")
  case True
  then have "cs_result (c\<lparr>cs_now := now\<rparr>) \<noteq> None" using assms(2) by (simp add: cinv_def)
  then show ?thesis
    using phaseEstablish_total [OF assms(1)] timerEntry_on_ledger [OF assms(3,4)] True by auto
next
  case False
  then show ?thesis
    using timerEntry_on_ledger [OF assms(3,4)] by (cases "cs_phase c") auto
qed

lemma startRoundInternal_total:
  assumes "adaptor_ok h B ad" and "\<forall>c. cinv h B c \<longrightarrow> cs_prevLedgerID c = i \<longrightarrow> cs_previousLedger c = l \<longrightarrow> cs_mode c = m
      \<longrightarrow> (\<exists>c'. \<forall>n. timer n c = Some c')"
  shows "\<exists>c'. \<forall>n. startRoundInternal (timer n) ad now i l m c = Some c'"
proof -
  define c1 where "c1 = (set_mode m (c\<lparr>cs_phase := cp_open\<rparr>))
       \<lparr>cs_now := now, cs_prevLedgerID := i, cs_previousLedger := l, cs_result := None,
                cs_convergePercent := 0, cs_closeTimeAvalancheState := av_init, cs_haveCloseTimeConsensus := False,
                cs_openTime := timer_reset (ad_clock ad), cs_currPeerPositions := [], cs_acquired := [],
                cs_rawCloseTimes := \<lparr>ct_peers = [], ct_self = 0\<rparr>, cs_deadNodes := [],
                cs_closeResolution := getNextLedgerTimeResolution (cl_closeTimeResolution l) (cl_closeAgree l) (cl_seq l + 1)\<rparr>"
  define c2 where "c2 = playbackProposals ad c1"
  have "cinv h B c1"
    by (simp add: c1_def cinv_def peers_ok_def acquired_ok_def set_mode_def emit_def)
  then have inv: "cinv h B c2" unfolding c2_def by (rule playbackProposals_inv [OF assms(1)])
  have "view c2 = view c1" by (simp add: c2_def)
  then have "cs_prevLedgerID c2 = i" "cs_previousLedger c2 = l" "cs_mode c2 = m"
    by (simp_all add: view_def c1_def set_mode_def)
  then obtain c' where c': "\<forall>n. timer n c2 = Some c'" using assms(2) inv by blast
  have "startRoundInternal (timer n) ad now i l m c
      = (if cs_prevProposers c2 div 2 < length (cs_currPeerPositions c2) then timer n c2 else Some c2)" for n
    unfolding startRoundInternal_def Let_def c2_def c1_def by simp
  then show ?thesis using c' by auto
qed

lemma handleWrongLedger_total:
  assumes ok: "adaptor_ok h B ad" and parms: "ad_parms ad = consensusParms" and la: "ledger_answers_ok ad"
    and i: "i = getPrevLedger ad i0 l0 m0"
  shows "\<exists>c'. \<forall>n. handleWrongLedger (\<lambda>c. timerEntry (Suc n) ad (cs_now c) c) ad i c = Some c'"
proof -
  define c1 where "c1 = leaveConsensus c"
  define c3 where "c3 = (if cs_prevLedgerID c1 \<noteq> i then playbackProposals ad (c1\<lparr>cs_prevLedgerID := i,
                         cs_result := map_option (\<lambda>r. r\<lparr>rs_disputes := [], rs_compares := []\<rparr>) (cs_result c1),
                         cs_currPeerPositions := [],
                         cs_rawCloseTimes := (cs_rawCloseTimes c1)\<lparr>ct_peers := []\<rparr>,
                         cs_deadNodes := []\<rparr>) else c1)"
  have i3: "cs_prevLedgerID c3 = i"
    using playbackProposals_view [of ad "c1\<lparr>cs_prevLedgerID := i,
                         cs_result := map_option (\<lambda>r. r\<lparr>rs_disputes := [], rs_compares := []\<rparr>) (cs_result c1),
                         cs_currPeerPositions := [],
                         cs_rawCloseTimes := (cs_rawCloseTimes c1)\<lparr>ct_peers := []\<rparr>,
                         cs_deadNodes := []\<rparr>"]
    by (auto simp: c3_def view_def)
  have "handleWrongLedger timer ad i c = (if cl_id (cs_previousLedger c3) = cs_prevLedgerID c3 then Some c3
         else case acquireLedger ad (cs_prevLedgerID c3) of
                Some newLedger \<Rightarrow> startRoundInternal timer ad (cs_now c3) i newLedger cm_switchedLedger c3
              | None \<Rightarrow> Some (set_mode cm_wrongLedger c3))" for timer
    unfolding handleWrongLedger_def Let_def c3_def c1_def by (rule refl)
  note eq = this [unfolded i3]
  show ?thesis
  proof (cases "acquireLedger ad i")
    case None
    then show ?thesis by (cases "cl_id (cs_previousLedger c3) = i") (simp_all add: eq)
  next
    case (Some l)
    then have l: "cl_id l = i" using la by (simp add: ledger_answers_ok_def)
    then have "getPrevLedger ad i l m = i" for m using la unfolding i ledger_answers_ok_def by blast
    then have "\<forall>c. cinv h B c \<longrightarrow> cs_prevLedgerID c = i \<longrightarrow> cs_previousLedger c = l \<longrightarrow> cs_mode c = cm_switchedLedger
        \<longrightarrow> (\<exists>c'. \<forall>n. timerEntry (Suc n) ad (cs_now c) c = Some c')"
      using timerEntry_on_ledger_total [OF parms] l by simp
    from startRoundInternal_total [OF ok this, of "cs_now c3" c3] show ?thesis
      using Some by (cases "cl_id (cs_previousLedger c3) = i") (auto simp: eq)
  qed
qed

lemma checkLedger_eq:
  "checkLedger timer ad c =
     (if getPrevLedger ad (cs_prevLedgerID c) (cs_previousLedger c) (cs_mode c) \<noteq> cs_prevLedgerID c
         \<or> cl_id (cs_previousLedger c) \<noteq> cs_prevLedgerID c
      then handleWrongLedger timer ad (getPrevLedger ad (cs_prevLedgerID c) (cs_previousLedger c) (cs_mode c)) c
      else Some c)"
  by (simp add: checkLedger_def Let_def)

lemma timerEntry_total:
  assumes ok: "adaptor_ok h B ad" and parms: "ad_parms ad = consensusParms" and la: "ledger_answers_ok ad" and inv: "cinv h B c"
  shows "\<exists>c'. \<forall>n. timerEntry (Suc (Suc n)) ad now c = Some c'"
proof (cases "cs_phase c = cp_accepted")
  case False
  let ?c = "c\<lparr>cs_now := now\<rparr>"
  let ?i = "getPrevLedger ad (cs_prevLedgerID ?c) (cs_previousLedger ?c) (cs_mode ?c)"
  have "\<exists>c1. \<forall>n. checkLedger (\<lambda>c. timerEntry (Suc n) ad (cs_now c) c) ad ?c = Some c1"
  proof (cases "?i \<noteq> cs_prevLedgerID ?c \<or> cl_id (cs_previousLedger ?c) \<noteq> cs_prevLedgerID ?c")
    case True
    then have "checkLedger timer ad ?c = handleWrongLedger timer ad ?i ?c" for timer
      unfolding checkLedger_eq by (rule if_P)
    then show ?thesis using handleWrongLedger_total [OF ok parms la refl] by (simp del: timerEntry.simps)
  next
    case False
    then have "checkLedger timer ad ?c = Some ?c" for timer
      unfolding checkLedger_eq by (rule if_not_P)
    then show ?thesis by (simp del: timerEntry.simps)
  qed
  then obtain c1 where c1: "\<forall>n. checkLedger (\<lambda>c. timerEntry (Suc n) ad (cs_now c) c) ad ?c = Some c1" by blast
  have "\<forall>c c'. cinv h B c \<longrightarrow> timerEntry (Suc 0) ad (cs_now c) c = Some c' \<longrightarrow> cinv h B c'"
    by (blast intro: timerEntry_inv [OF ok])
  moreover have "cinv h B ?c" using inv by simp
  ultimately have inv1: "cinv h B c1" using checkLedger_inv [OF ok _ _ spec [OF c1]] by blast
  have eq: "timerEntry (Suc (Suc n)) ad now c = (if cs_phase c1 = cp_open then Some (phaseOpen ad c1)
               else if cs_phase c1 = cp_establish then phaseEstablish ad c1 else Some c1)" for n
    unfolding timerEntry.simps(2) [of "Suc n"] using False c1 by (simp del: timerEntry.simps)
  show ?thesis
  proof (cases "cs_phase c1 = cp_establish")
    case True
    then have "cs_result c1 \<noteq> None" using inv1 by (simp add: cinv_def)
    then show ?thesis using phaseEstablish_total [OF parms] True unfolding eq by auto
  next
    case False
    then show ?thesis unfolding eq by simp
  qed
qed simp

text \<open>
  C6. Operations return. With the built-in parameters, a server in any reachable state answers a timer entry and starts a
  round without failing a table look-up, and the mutual recursion of \<^verbatim>\<open>timerEntry\<close>, \<^verbatim>\<open>handleWrongLedger\<close> and
  \<^verbatim>\<open>startRoundInternal\<close> never goes deeper than two timer entries: whatever larger bound is chosen gives the
  same result. The adaptor must hand out ledgers under their own identifier, and must not change its mind about the network's
  preferred ledger as soon as the server has switched to it.
\<close>

theorem consensus_operations_return:
  assumes "consensus_reach h B c" and "adaptor_ok h B ad" and "ad_parms ad = consensusParms" and "ledger_answers_ok ad"
  shows "(\<exists>c'. \<forall>n. timerEntry (n + 2) ad now c = Some c')
    \<and> (\<exists>c'. \<forall>n. startRound (n + 2) ad now i l nowUntrusted proposing c = Some c')"
proof
  have inv: "cinv h B c" using assms(1) by (rule consensus_reach_inv)
  show "\<exists>c'. \<forall>n. timerEntry (n + 2) ad now c = Some c'"
    using timerEntry_total [OF assms(2-4) inv] by (simp del: timerEntry.simps)
  have timer: "\<forall>c. cinv h B c \<longrightarrow> cs_prevLedgerID c = i \<longrightarrow> cs_previousLedger c = l' \<longrightarrow> cs_mode c = m
      \<longrightarrow> (\<exists>c'. \<forall>n. timerEntry (n + 2) ad (cs_now c) c = Some c')" for l' m
    using timerEntry_total [OF assms(2-4)] by (simp del: timerEntry.simps)
  show "\<exists>c'. \<forall>n. startRound (n + 2) ad now i l nowUntrusted proposing c = Some c'"
    unfolding startRound_def Let_def case_prod_unfold
    by (rule startRoundInternal_total [OF assms(2) timer])
qed

lemma demo_answers_ok: "ledger_answers_ok (demo_ad clock)"
  by (simp add: ledger_answers_ok_def demo_ad_def)

theorem consensus_operations_return_witness:
  "\<exists>c'. \<forall>n. timerEntry (n + 2) (demo_ad 13000000000) 1025 demo_closed = Some c'"
proof -
  have "ad_parms (demo_ad 13000000000) = consensusParms" by (simp add: demo_ad_def)
  from consensus_operations_return [OF demo_closed_reach demo_ad_ok this demo_answers_ok, of 1025 0 demo_cx_ledger "[]" True]
  show ?thesis by blast
qed

section \<open>A round ends\<close>

text \<open>
  C5. A round cannot stay open for ever. Suppose the server is on the network's ledger, took at least seven steps in
  the establish phase, and at the next timer entry more than 120 s have passed since it closed the ledger, and at least 1950 ms
  more than the previous round took. Then this timer entry accepts the ledger, unless the remaining peers do not agree on a
  close time; and if all peers fell silent it accepts in any case. Neither the disputes, nor the votes, nor lagging
  validators can prevent that.
\<close>

theorem round_ends:
  assumes "consensus_reach h B c" and "adaptor_ok h B ad" and "ad_parms ad = consensusParms"
    and "cs_phase c = cp_establish" and "cs_result c = Some r0"
    and "getPrevLedger ad (cs_prevLedgerID c) (cs_previousLedger c) (cs_mode c) = cs_prevLedgerID c"
    and "cl_id (cs_previousLedger c) = cs_prevLedgerID c"
    and "120000 < tm_dur (timer_tick (ad_clock ad) (rs_roundTime r0))"
    and "cs_prevRoundTime c + 1950 \<le> tm_dur (timer_tick (ad_clock ad) (rs_roundTime r0))"
    and "7 \<le> cs_establishCounter c"
  shows "\<exists>c'. (\<forall>n. timerEntry (n + 1) ad now c = Some c')
    \<and> (cs_phase c' = cp_accepted \<or> \<not> cs_haveCloseTimeConsensus c')
    \<and> (fresh_peers ad (c\<lparr>cs_now := now\<rparr>) = [] \<longrightarrow> cs_phase c' = cp_accepted)"
proof -
  let ?c = "c\<lparr>cs_now := now\<rparr>"
  have inv: "cinv h B ?c" using consensus_reach_inv [OF assms(1)] by simp
  have ph: "cs_phase ?c = cp_establish" and r0: "cs_result ?c = Some r0" using assms(4,5) by simp_all
  obtain c' where c': "phaseEstablish ad ?c = Some c'"
    using phaseEstablish_total [OF assms(3), of ?c] r0 by auto
  have te: "\<forall>n. timerEntry (n + 1) ad now c = Some c'"
    using timerEntry_on_ledger [OF assms(6,7)] assms(4) c' by simp
  have late: "ledgerMIN_CONSENSUS (ad_parms ad) \<le> tm_dur (timer_tick (ad_clock ad) (rs_roundTime r0))"
    using assms(3,8) by simp
  obtain r2 c3 where r2: "cs_result c3 = Some r2"
    and c3: "cs_currPeerPositions c3 = fresh_peers ad ?c" "cs_prevRoundTime c3 = cs_prevRoundTime ?c"
      "cs_establishCounter c3 = Suc (cs_establishCounter ?c)" "rs_roundTime r2 = timer_tick (ad_clock ad) (rs_roundTime r0)"
    and ct: "fresh_peers ad ?c = [] \<longrightarrow> cs_haveCloseTimeConsensus c3"
    and out: "if shouldPause ad r2 c3 then c' = c3
       else \<exists>b c4. haveConsensus ad r2 c3 = Some (b, c4)
              \<and> c' = (if b \<and> cs_haveCloseTimeConsensus c4 then accept_round ad c4 else c4)"
    using phaseEstablish_verdict [OF assms(2) inv ph c' r0 late] by (elim exE conjE) (rule that)
  have "\<not> shouldPause ad r2 c3"
    using assms(3,8) c3(4) by (simp add: shouldPause_def Let_def case_prod_unfold)
  then obtain b c4 where hc: "haveConsensus ad r2 c3 = Some (b, c4)"
    and c4: "c' = (if b \<and> cs_haveCloseTimeConsensus c4 then accept_round ad c4 else c4)" using out by auto
  obtain stl st c1 where st: "st = checkConsensus (cs_prevProposers c3) (length (cs_currPeerPositions c3))
             (length (filter (\<lambda>(_, p). pr_position p = pr_position (rs_position r2)) (cs_currPeerPositions c3)))
             (proposersFinished ad (cs_previousLedger c3) (cs_prevLedgerID c3)) (cs_prevRoundTime c3)
             (tm_dur (rs_roundTime r2)) stl (ad_parms ad) (cs_mode c3 = cm_proposing)"
    and b: "b = (st \<noteq> No \<and> (st = Expired \<longrightarrow> minimumCounter (ad_parms ad) \<le> cs_establishCounter c3))"
    using haveConsensus_steps [OF hc] by (elim exE conjE) (rule that)
  have "st \<noteq> No"
    unfolding st assms(3) using assms(8,9) c3(2,4) by (intro checkConsensus_bounded) simp_all
  then have "b" using assms(3,10) c3(3) by (simp add: b)
  moreover have "cs_haveCloseTimeConsensus c4 = cs_haveCloseTimeConsensus c3"
    using haveConsensus_result [OF hc] by blast
  ultimately have "cs_phase c' = cp_accepted \<or> \<not> cs_haveCloseTimeConsensus c'"
    and "fresh_peers ad ?c = [] \<longrightarrow> cs_phase c' = cp_accepted"
    using c4 ct by (auto simp: accept_round_def Let_def emit_def)
  then show ?thesis using te by blast
qed

text \<open>Seven early timer entries.\<close>

fun demo_wait :: "nat \<Rightarrow> Consensus" where
  "demo_wait 0 = demo_closed"
| "demo_wait (Suc n) = the (timerEntry 2 (demo_ad 10500000000) 1023 (demo_wait n))"

lemma demo_timer_reach:
  assumes "consensus_reach demo_h demo_B c"
  shows "consensus_reach demo_h demo_B (the (timerEntry 2 (demo_ad t) now c))"
proof -
  have "ad_parms (demo_ad t) = consensusParms" by (simp add: demo_ad_def)
  then obtain c' where "\<forall>n. timerEntry (Suc (Suc n)) (demo_ad t) now c = Some c'"
    using timerEntry_total [OF demo_ad_ok _ demo_answers_ok consensus_reach_inv [OF assms]] by blast
  then have "timerEntry 2 (demo_ad t) now c = Some c'" by (metis Suc_1 One_nat_def)
  then show ?thesis using assms demo_ad_ok timer by fastforce
qed

lemma demo_wait_reach: "consensus_reach demo_h demo_B (demo_wait n)"
  by (induction n) (simp_all add: demo_closed_reach demo_timer_reach del: timerEntry.simps)

theorem round_ends_witness:
  "\<exists>c'. timerEntry 1 (demo_ad 131000000000) 2000 (demo_wait 7) = Some c' \<and> cs_phase c' = cp_accepted"
proof -
  let ?c = "demo_wait 7" and ?ad = "demo_ad 131000000000"
  have ph: "cs_phase ?c = cp_establish" by code_simp
  then obtain r0 where r0: "cs_result ?c = Some r0"
    using consensus_reach_inv [OF demo_wait_reach, of 7] by (auto simp: cinv_def)
  have "map_option (\<lambda>r. tm_dur (timer_tick (ad_clock ?ad) (rs_roundTime r))) (cs_result ?c) = Some 121000"
    by code_simp
  then have dur: "tm_dur (timer_tick (ad_clock ?ad) (rs_roundTime r0)) = 121000" by (simp add: r0)
  have parms: "ad_parms ?ad = consensusParms" by (simp add: demo_ad_def)
  have ledger: "getPrevLedger ?ad (cs_prevLedgerID ?c) (cs_previousLedger ?c) (cs_mode ?c) = cs_prevLedgerID ?c"
    by (simp add: demo_ad_def)
  have id: "cl_id (cs_previousLedger ?c) = cs_prevLedgerID ?c" by code_simp
  have prev: "cs_prevRoundTime ?c = 15000 \<and> cs_establishCounter ?c = 7" by code_simp
  have "fresh_peers ?ad (?c\<lparr>cs_now := 2000\<rparr>) = []" by code_simp
  then show ?thesis
    using round_ends [OF demo_wait_reach demo_ad_ok parms ph r0 ledger id, of 2000] dur prev
    by (auto dest: spec [of _ 0] simp del: timerEntry.simps)
qed

end
