(* ===== verification/Consensus_Proposals.thy ===== *)
theory Consensus_Proposals
  imports Consensus_Accept
begin

text \<open>
  What a server announces during consensus. \<open>announce\<close> is the protocol of a proposer as an automaton over its mode changes and
  proposals. A server proposes only in proposing mode. The first proposal after a mode change opens the round, with sequence number
  0; every later one continues the one before, for the same ledger and from the same node, with a larger sequence number. Every
  round starts with a mode change, so a round has one opening proposal. Every run of the state machine follows the
  protocol, so a peer that runs the same code takes every proposal for newer than the one before.
\<close>

section \<open>The protocol\<close>

definition continues :: "ConsensusProposal \<Rightarrow> ConsensusProposal \<Rightarrow> bool" where
  "continues p q \<longleftrightarrow> pr_proposeSeq p < pr_proposeSeq q \<and> pr_previousLedger q = pr_previousLedger p \<and> pr_nodeID q = pr_nodeID p"

fun announce :: "ConsensusMode \<times> ConsensusProposal option \<Rightarrow> ConsensusEvent list
    \<Rightarrow> (ConsensusMode \<times> ConsensusProposal option) option" where
  "announce s [] = Some s"
| "announce (m, lp) (ev_modeChange a b # es) = (if a = m then announce (b, None) es else None)"
| "announce (m, lp) (ev_propose q # es) =
     (if m = cm_proposing \<and> (case lp of None \<Rightarrow> isInitial q | Some p \<Rightarrow> continues p q)
      then announce (m, Some q) es else None)"
| "announce s (e # es) = announce s es"

lemma announce_append:
  "announce s (es @ es') = (case announce s es of None \<Rightarrow> None | Some s' \<Rightarrow> announce s' es')"
  by (induction s es rule: announce.induct) auto

lemma announce_filter: "announce s (filter stance_event es) = announce s es"
  by (induction s es rule: announce.induct) auto

section \<open>The invariant\<close>

definition proposer_inv :: "Consensus \<Rightarrow> bool" where
  "proposer_inv c \<longleftrightarrow>
     (\<exists>lp. announce (cm_observing, None) (cs_events c) = Some (cs_mode c, lp)
       \<and> (cs_mode c = cm_proposing \<longrightarrow>
            (case map_option rs_position (cs_result c) of
               None \<Rightarrow> lp = None
             | Some p \<Rightarrow> (\<exists>q. lp = Some q \<and> pr_proposeSeq q \<le> pr_proposeSeq p
                 \<and> pr_previousLedger q = pr_previousLedger p \<and> pr_nodeID q = pr_nodeID p))))"

lemma proposer_inv_cong:
  assumes m: "cs_mode c' = cs_mode c" and p: "map_option rs_position (cs_result c') = map_option rs_position (cs_result c)"
    and e: "filter stance_event (cs_events c') = filter stance_event (cs_events c)"
  shows "proposer_inv c' = proposer_inv c"
proof -
  have "announce s (cs_events c') = announce s (cs_events c)" for s
    using e announce_filter by metis
  then show ?thesis unfolding proposer_inv_def m p by simp
qed

lemma proposer_inv_view: "view c' = view c \<Longrightarrow> proposer_inv c' = proposer_inv c"
  by (rule proposer_inv_cong) (simp_all add: view_def)

lemma proposer_inv_no_result:
  "proposer_inv c \<Longrightarrow> cs_result c' = None \<Longrightarrow> cs_mode c' = m
     \<Longrightarrow> cs_events c' = cs_events c @ [ev_modeChange (cs_mode c) m] \<Longrightarrow> proposer_inv c'"
  by (auto simp: proposer_inv_def announce_append)

lemma proposer_inv_set_mode:
  assumes "proposer_inv c" and "m \<noteq> cm_proposing"
  shows "proposer_inv (set_mode m c)"
  using assms by (auto simp: proposer_inv_def announce_append set_mode_def emit_def)

text \<open>A new position that continues the old one, announced or not.\<close>

lemma proposer_inv_position:
  assumes "proposer_inv c" and "cs_result c = Some r" and "cs_result c' = Some r'"
    and "cs_mode c' = cs_mode c"
    and "cs_events c' = cs_events c @ es \<and> filter stance_event es = (if b then [ev_propose (rs_position r')] else [])"
    and "cs_mode c = cm_proposing \<longrightarrow> (if b then continues (rs_position r) (rs_position r')
           else pr_proposeSeq (rs_position r) \<le> pr_proposeSeq (rs_position r')
             \<and> pr_previousLedger (rs_position r') = pr_previousLedger (rs_position r)
             \<and> pr_nodeID (rs_position r') = pr_nodeID (rs_position r))"
    and "b \<longrightarrow> cs_mode c = cm_proposing"
  shows "proposer_inv c'"
proof -
  obtain lp where lp: "announce (cm_observing, None) (cs_events c) = Some (cs_mode c, lp)"
    and q: "cs_mode c = cm_proposing \<longrightarrow> (\<exists>q. lp = Some q \<and> pr_proposeSeq q \<le> pr_proposeSeq (rs_position r)
               \<and> pr_previousLedger q = pr_previousLedger (rs_position r) \<and> pr_nodeID q = pr_nodeID (rs_position r))"
    using assms(1,2) unfolding proposer_inv_def by auto
  have "announce (cm_observing, None) (cs_events c') = announce (cs_mode c, lp) es"
    using lp assms(5) by (simp add: announce_append)
  also have "\<dots> = announce (cs_mode c, lp) (if b then [ev_propose (rs_position r')] else [])"
    using assms(5) announce_filter by metis
  finally have an: "announce (cm_observing, None) (cs_events c')
      = announce (cs_mode c, lp) (if b then [ev_propose (rs_position r')] else [])" .
  show ?thesis
  proof (cases b)
    case True
    then have m: "cs_mode c = cm_proposing" using assms(7) by simp
    then obtain q where "lp = Some q" "pr_proposeSeq q \<le> pr_proposeSeq (rs_position r)"
      "pr_previousLedger q = pr_previousLedger (rs_position r)" "pr_nodeID q = pr_nodeID (rs_position r)" using q by blast
    moreover from this have "continues q (rs_position r')" using assms(6) True m by (auto simp: continues_def)
    ultimately show ?thesis using an True m assms(3,4) by (simp add: proposer_inv_def)
  next
    case False
    then show ?thesis using an q assms(3,4,6) by (auto simp: proposer_inv_def)
  qed
qed

lemma seqLeave_max: "seqLeave = - 1"
  unfolding seqLeave_def by simp

lemma changePosition_continues:
  "\<not> isBowOut (changePosition i t now p) \<Longrightarrow> continues p (changePosition i t now p)"
  "pr_proposeSeq p \<le> pr_proposeSeq (changePosition i t now p)"
  "pr_previousLedger (changePosition i t now p) = pr_previousLedger p" "pr_nodeID (changePosition i t now p) = pr_nodeID p"
proof -
  have lt: "pr_proposeSeq p < pr_proposeSeq p + 1" if "pr_proposeSeq p \<noteq> seqLeave"
  proof -
    have "pr_proposeSeq p \<noteq> - 1" using that seqLeave_max by simp
    then show ?thesis using inc_less_eq_self_iff_eq [of "pr_proposeSeq p"] by (simp add: not_le [symmetric])
  qed
  show "\<not> isBowOut (changePosition i t now p) \<Longrightarrow> continues p (changePosition i t now p)"
    using lt by (auto simp: changePosition_def Let_def isBowOut_def continues_def split: if_splits)
  show "pr_proposeSeq p \<le> pr_proposeSeq (changePosition i t now p)"
    using lt by (auto simp: changePosition_def Let_def)
qed (simp_all add: changePosition_def Let_def)

lemma bowOut_continues:
  assumes "\<not> isBowOut p"
  shows "continues p (bowOut now p)"
proof -
  have "pr_proposeSeq p \<le> seqLeave" unfolding seqLeave_max by (rule word_order.extremum)
  moreover have "pr_proposeSeq p \<noteq> seqLeave" using assms by (simp add: isBowOut_def)
  ultimately show ?thesis by (simp add: continues_def bowOut_def)
qed

section \<open>The operations keep it\<close>

lemma leaveConsensus_proposer:
  assumes "proposer_inv c"
  shows "proposer_inv (leaveConsensus c)"
proof (cases "cs_mode c = cm_proposing")
  case True
  show ?thesis
  proof (cases "\<exists>r. cs_result c = Some r \<and> \<not> isBowOut (rs_position r)")
    case False
    then have "leaveConsensus c = set_mode cm_observing c"
      using True by (auto simp: leaveConsensus_def Let_def split: option.splits)
    then show ?thesis using assms proposer_inv_set_mode by simp
  next
    case True': True
    then obtain r where r: "cs_result c = Some r" "\<not> isBowOut (rs_position r)" by blast
    let ?p = "bowOut (cs_now c) (rs_position r)"
    let ?c1 = "emit (ev_propose ?p) (c\<lparr>cs_result := Some (r\<lparr>rs_position := ?p\<rparr>)\<rparr>)"
    have "proposer_inv ?c1"
    proof (rule proposer_inv_position [OF assms r(1), of _ "r\<lparr>rs_position := ?p\<rparr>" "[ev_propose ?p]" True])
      show "cs_mode c = cm_proposing \<longrightarrow> (if True then continues (rs_position r) (rs_position (r\<lparr>rs_position := ?p\<rparr>))
           else pr_proposeSeq (rs_position r) \<le> pr_proposeSeq (rs_position (r\<lparr>rs_position := ?p\<rparr>))
             \<and> pr_previousLedger (rs_position (r\<lparr>rs_position := ?p\<rparr>)) = pr_previousLedger (rs_position r)
             \<and> pr_nodeID (rs_position (r\<lparr>rs_position := ?p\<rparr>)) = pr_nodeID (rs_position r))"
        using bowOut_continues [OF r(2)] by simp
    qed (use True in \<open>simp_all add: emit_def\<close>)
    moreover have "leaveConsensus c = set_mode cm_observing ?c1"
      using True r by (simp add: leaveConsensus_def Let_def)
    ultimately show ?thesis using proposer_inv_set_mode by simp
  qed
next
  case False
  then show ?thesis using assms by (simp add: leaveConsensus_def)
qed

lemma compare_positions_quiet:
  "fold (compare_position ad) xs (r, c) = (r', c') \<Longrightarrow> quiet c c' \<and> same_stance r r'"
proof (induction xs arbitrary: r c)
  case (Cons x xs)
  obtain r1 c1 where st: "compare_position ad x (r, c) = (r1, c1)" by fastforce
  have "quiet c c1 \<and> same_stance r r1"
    using st createDisputes_quiet by (auto simp: compare_position_def split: prod.splits option.splits)
  moreover have "fold (compare_position ad) xs (r1, c1) = (r', c')" using Cons.prems st by simp
  ultimately show ?case using Cons.IH by (blast intro: quiet_trans same_stance_trans)
qed simp

lemma closeLedger_proposer:
  assumes "adaptor_ok h B ad" and "proposer_inv c" and "cs_result c = None"
  shows "proposer_inv (closeLedger ad c)"
proof -
  define c0 where "c0 = c\<lparr>cs_phase := cp_establish, cs_rawCloseTimes := (cs_rawCloseTimes c)\<lparr>ct_self := cs_now c\<rparr>,
                 cs_peerUnchangedCounter := 0, cs_establishCounter := 0\<rparr>"
  define tp where "tp = onClose ad (cs_previousLedger c) (cs_now c) (cs_mode c)"
  define r where "r = (new_ConsensusResult (fst tp) (snd tp))\<lparr>rs_roundTime := timer_reset (ad_clock ad)\<rparr>"
  define c1 where "c1 = (if setID ad (fst tp) \<in> keys (cs_acquired c) then c0
                else emit (ev_shareSet (fst tp)) (c0\<lparr>cs_acquired := (setID ad (fst tp), fst tp) # cs_acquired c\<rparr>))"
  define c2 where "c2 = (if cs_mode c = cm_proposing then emit (ev_propose (snd tp)) c1 else c1)"
  obtain r' c' where cp: "fold (compare_position ad) (cs_currPeerPositions c) (r, c2) = (r', c')" by fastforce
  have eq: "closeLedger ad c = c'\<lparr>cs_result := Some r'\<rparr>"
    using cp unfolding closeLedger_eq Let_def tp_def r_def c2_def c1_def c0_def by (simp add: store_result_def)
  note q = compare_positions_quiet [OF cp]
  have vw: "view (c'\<lparr>cs_result := Some r'\<rparr>) = view (c2\<lparr>cs_result := Some r\<rparr>)"
  proof -
    have "view c' = view c2" using q quiet_view by blast
    then show ?thesis using q by (simp add: view_def same_stance_iff)
  qed
  have ini: "isInitial (snd tp)" using assms(1) by (simp add: adaptor_ok_def tp_def)
  obtain lp where "announce (cm_observing, None) (cs_events c) = Some (cs_mode c, lp)" "cs_mode c = cm_proposing \<longrightarrow> lp = None"
    using assms(2,3) by (auto simp: proposer_inv_def)
  then have "proposer_inv (c2\<lparr>cs_result := Some r\<rparr>)"
    using ini by (auto simp: proposer_inv_def c2_def c1_def c0_def emit_def announce_append r_def new_ConsensusResult_def)
  then show ?thesis unfolding eq using proposer_inv_view [OF vw] by simp
qed

lemma phaseOpen_proposer:
  assumes "adaptor_ok h B ad" and "proposer_inv c" and "cs_result c = None"
  shows "proposer_inv (phaseOpen ad c)"
proof -
  let ?c = "c\<lparr>cs_openTime := timer_tick (ad_clock ad) (cs_openTime c)\<rparr>"
  have "view ?c = view c" by (simp add: view_def)
  then have "proposer_inv ?c" using assms(2) proposer_inv_view by blast
  moreover from this have "proposer_inv (closeLedger ad ?c)"
    using closeLedger_proposer [OF assms(1), of ?c] assms(3) by simp
  ultimately show ?thesis by (simp add: phaseOpen_def Let_def)
qed

lemma adopt_position_announces:
  assumes "adopt_position ad txns t r c = (r', c')" and "p = changePosition (setID ad txns) t (cs_now c) (rs_position r)"
  shows "\<exists>es. cs_events c' = cs_events c @ es
      \<and> filter stance_event es = (if \<not> isBowOut p \<and> cs_mode c = cm_proposing then [ev_propose p] else [])
    \<and> rs_position r' = p \<and> cs_mode c' = cs_mode c"
proof -
  define r1 where "r1 = r\<lparr>rs_txns := txns, rs_position := p\<rparr>"
  define c1 where "c1 = c\<lparr>cs_acquired := (setID ad txns, txns) # cs_acquired c\<rparr>"
  define c2 where "c2 = (if \<not> isBowOut p then emit (ev_shareSet txns) c1 else c1)"
  obtain r3 c3 where rc3: "(if setID ad txns \<in> keys (cs_acquired c) then (r1, c)
                    else update_proposers ad txns (cs_currPeerPositions c2) (r1, c2)) = (r3, c3)" by fastforce
  have "adopt_position ad txns t r c =
      (case (if setID ad txns \<in> keys (cs_acquired c) then (r1, c)
             else update_proposers ad txns (cs_currPeerPositions c2) (r1, c2)) of
         (r, c) \<Rightarrow> (r, if \<not> isBowOut (rs_position r) \<and> cs_mode c = cm_proposing then emit (ev_propose (rs_position r)) c else c))"
    unfolding adopt_position_def Let_def r1_def c2_def c1_def assms(2) by simp
  then have c': "c' = (if \<not> isBowOut (rs_position r3) \<and> cs_mode c3 = cm_proposing
                       then emit (ev_propose (rs_position r3)) c3 else c3)"
    and r': "r' = r3"
    using assms(1) unfolding rc3 by simp_all
  have "\<exists>es. cs_events c3 = cs_events c @ es \<and> filter stance_event es = [] \<and> rs_position r3 = p \<and> cs_mode c3 = cs_mode c"
  proof (cases "setID ad txns \<in> keys (cs_acquired c)")
    case True
    then have "r3 = r1" "c3 = c" using rc3 by simp_all
    then show ?thesis by (simp add: r1_def)
  next
    case False
    then have "update_proposers ad txns (cs_currPeerPositions c2) (r1, c2) = (r3, c3)" using rc3 by simp
    then have q: "quiet c2 c3" "same_stance r1 r3" using update_proposers_quiet by blast+
    then obtain txs where "cs_events c3 = cs_events c2 @ map ev_shareTx txs" unfolding quiet_def by auto
    moreover have "cs_events c2 = cs_events c @ (if \<not> isBowOut p then [ev_shareSet txns] else [])"
      by (simp add: c2_def c1_def emit_def)
    moreover have "filter stance_event (map ev_shareTx txs) = []" by (simp add: filter_empty_conv)
    moreover have "cs_mode c2 = cs_mode c" by (simp add: c2_def c1_def emit_def)
    ultimately show ?thesis using quiet_frame(4) [OF q(1)] q(2) by (auto simp: same_stance_iff r1_def)
  qed
  then obtain es where es: "cs_events c3 = cs_events c @ es" "filter stance_event es = []" "rs_position r3 = p"
    "cs_mode c3 = cs_mode c" by blast
  show ?thesis
  proof (cases "\<not> isBowOut p \<and> cs_mode c = cm_proposing")
    case True
    then show ?thesis using es by (intro exI [of _ "es @ [ev_propose p]"]) (simp add: c' r' emit_def)
  next
    case False
    then show ?thesis using es by (intro exI [of _ es]) (auto simp: c' r')
  qed
qed

lemma updateOurPositions_proposer:
  assumes "updateOurPositions ad r c = Some (r', c')" and "proposer_inv c" and "cs_result c = Some r"
  shows "proposer_inv (c'\<lparr>cs_result := Some r'\<rparr>)"
proof -
  obtain peers r1 ds ms t hv av c1 c2 r2 where
    dr: "drop_stale (cs_now c - word_of_int (proposeFRESHNESS (ad_parms ad))) (cs_currPeerPositions c) r = (peers, r1)"
    and c1: "c1 = c\<lparr>cs_currPeerPositions := peers\<rparr>"
    and r2: "r2 = r1\<lparr>rs_disputes := ds\<rparr>"
    and c2: "c2 = c1\<lparr>cs_haveCloseTimeConsensus := hv, cs_closeTimeAvalancheState := av\<rparr>"
    and out: "if ms = None \<and> t = asCloseTime c (pr_closeTime (rs_position r2))
          \<and> \<not> isStale (cs_now c - word_of_int (proposeINTERVAL (ad_parms ad))) (rs_position r2)
       then r' = r2 \<and> c' = c2
       else adopt_position ad (current_set (rs_txns r1) ms) t r2 c2 = (r', c')"
    using updateOurPositions_steps [OF assms(1)] by (elim exE conjE) (rule that)
  have p2: "rs_position r2 = rs_position r" using dr by (simp add: drop_stale_eq r2) (auto simp: r2)
  have fr: "cs_mode c2 = cs_mode c" "cs_events c2 = cs_events c" "cs_now c2 = cs_now c" by (simp_all add: c2 c1)
  show ?thesis
  proof (cases "ms = None \<and> t = asCloseTime c (pr_closeTime (rs_position r2))
          \<and> \<not> isStale (cs_now c - word_of_int (proposeINTERVAL (ad_parms ad))) (rs_position r2)")
    case True
    then have "r' = r2" "c' = c2" using out by simp_all
    then have "view (c'\<lparr>cs_result := Some r'\<rparr>) = view c" using p2 assms(3) by (simp add: view_def c2 c1)
    then show ?thesis using proposer_inv_view assms(2) by blast
  next
    case False
    then have ap: "adopt_position ad (current_set (rs_txns r1) ms) t r2 c2 = (r', c')" using out by argo
    let ?p = "changePosition (setID ad (current_set (rs_txns r1) ms)) t (cs_now c2) (rs_position r2)"
    obtain es where es: "cs_events c' = cs_events c2 @ es"
      "filter stance_event es = (if \<not> isBowOut ?p \<and> cs_mode c2 = cm_proposing then [ev_propose ?p] else [])"
      "rs_position r' = ?p" "cs_mode c' = cs_mode c2"
      using adopt_position_announces [OF ap refl] by blast
    show ?thesis
      using assms(3) es fr p2 changePosition_continues [where p = "rs_position r2"]
      by (intro proposer_inv_position [OF assms(2,3), of _ r' es "\<not> isBowOut ?p \<and> cs_mode c2 = cm_proposing"]) auto
  qed
qed

lemma haveConsensus_proposer:
  assumes "haveConsensus ad r c = Some (b, c')" and "proposer_inv c" and "cs_result c = Some r"
  shows "proposer_inv c'"
proof -
  obtain st c1 where c1: "c1 = c\<lparr>cs_result := Some (r\<lparr>rs_state := st\<rparr>)\<rparr>"
    and c': "c' = (if b \<and> st = Expired then leaveConsensus c1 else c1)"
    using haveConsensus_steps [OF assms(1)] by blast
  have "proposer_inv c1 = proposer_inv c"
    by (rule proposer_inv_view) (simp add: c1 view_def assms(3))
  then show ?thesis using assms(2) leaveConsensus_proposer by (simp add: c')
qed

lemma accept_round_proposer: "proposer_inv (accept_round ad c) = proposer_inv c"
  by (rule proposer_inv_cong) (simp_all add: accept_round_def Let_def emit_def)

lemma phaseEstablish_proposer:
  assumes "phaseEstablish ad c = Some c'" and "proposer_inv c"
  shows "proposer_inv c'"
proof -
  obtain r0 r c1 where r0: "cs_result c = Some r0"
    and r: "r = r0\<lparr>rs_roundTime := timer_tick (ad_clock ad) (rs_roundTime r0), rs_proposers := length (cs_currPeerPositions c)\<rparr>"
    and c1: "c1 = c\<lparr>cs_peerUnchangedCounter := cs_peerUnchangedCounter c + 1, cs_establishCounter := cs_establishCounter c + 1,
             cs_convergePercent := (tm_dur (rs_roundTime r) * 100)
               sdiv max (cs_prevRoundTime c) (avMIN_CONSENSUS_TIME (ad_parms ad)), cs_result := Some r\<rparr>"
    and out: "if tm_dur (rs_roundTime r) < ledgerMIN_CONSENSUS (ad_parms ad) then c' = c1
       else \<exists>r2 c2. updateOurPositions ad r c1 = Some (r2, c2)
         \<and> (if shouldPause ad r2 (c2\<lparr>cs_result := Some r2\<rparr>) then c' = c2\<lparr>cs_result := Some r2\<rparr>
            else \<exists>b c4. haveConsensus ad r2 (c2\<lparr>cs_result := Some r2\<rparr>) = Some (b, c4)
              \<and> c' = (if b \<and> cs_haveCloseTimeConsensus c4 then accept_round ad c4 else c4))"
    using phaseEstablish_steps [OF assms(1)] by (elim exE conjE) (rule that)
  have "proposer_inv c1 = proposer_inv c"
    by (rule proposer_inv_cong) (simp_all add: c1 r0 r)
  then have inv1: "proposer_inv c1" using assms(2) by simp
  show ?thesis
  proof (cases "tm_dur (rs_roundTime r) < ledgerMIN_CONSENSUS (ad_parms ad)")
    case True
    then show ?thesis using out inv1 by simp
  next
    case False
    then obtain r2 c2 where u: "updateOurPositions ad r c1 = Some (r2, c2)"
      and out2: "if shouldPause ad r2 (c2\<lparr>cs_result := Some r2\<rparr>) then c' = c2\<lparr>cs_result := Some r2\<rparr>
            else \<exists>b c4. haveConsensus ad r2 (c2\<lparr>cs_result := Some r2\<rparr>) = Some (b, c4)
              \<and> c' = (if b \<and> cs_haveCloseTimeConsensus c4 then accept_round ad c4 else c4)"
      using out by auto
    have inv2: "proposer_inv (c2\<lparr>cs_result := Some r2\<rparr>)"
      by (rule updateOurPositions_proposer [OF u inv1]) (simp add: c1)
    show ?thesis
    proof (cases "shouldPause ad r2 (c2\<lparr>cs_result := Some r2\<rparr>)")
      case True
      then show ?thesis using out2 inv2 by simp
    next
      case np: False
      then obtain b c4 where hc: "haveConsensus ad r2 (c2\<lparr>cs_result := Some r2\<rparr>) = Some (b, c4)"
        and c': "c' = (if b \<and> cs_haveCloseTimeConsensus c4 then accept_round ad c4 else c4)"
        using out2 by auto
      have "proposer_inv c4" by (rule haveConsensus_proposer [OF hc inv2]) simp
      then show ?thesis by (simp add: c' accept_round_proposer)
    qed
  qed
qed

lemma startRoundInternal_proposer:
  assumes "adaptor_ok h B ad"
    and timer: "\<forall>c c'. cinv h B c \<longrightarrow> proposer_inv c \<longrightarrow> timer c = Some c' \<longrightarrow> proposer_inv c'"
    and "proposer_inv c" and res: "startRoundInternal timer ad now i l m c = Some c'"
  shows "proposer_inv c'"
proof -
  define c1 where "c1 = (set_mode m (c\<lparr>cs_phase := cp_open\<rparr>))
       \<lparr>cs_now := now, cs_prevLedgerID := i, cs_previousLedger := l, cs_result := None,
                cs_convergePercent := 0, cs_closeTimeAvalancheState := av_init, cs_haveCloseTimeConsensus := False,
                cs_openTime := timer_reset (ad_clock ad), cs_currPeerPositions := [], cs_acquired := [],
                cs_rawCloseTimes := \<lparr>ct_peers = [], ct_self = 0\<rparr>, cs_deadNodes := [],
                cs_closeResolution := getNextLedgerTimeResolution (cl_closeTimeResolution l) (cl_closeAgree l) (cl_seq l + 1)\<rparr>"
  define c2 where "c2 = playbackProposals ad c1"
  have "cinv h B c1"
    by (simp add: c1_def cinv_def peers_ok_def acquired_ok_def set_mode_def emit_def)
  then have "cinv h B c2" unfolding c2_def by (rule playbackProposals_inv [OF assms(1)])
  moreover have "proposer_inv c1"
    by (rule proposer_inv_no_result [OF assms(3), of _ m]) (simp_all add: c1_def set_mode_def emit_def)
  then have "proposer_inv c2" using proposer_inv_view [OF playbackProposals_view] by (simp add: c2_def)
  moreover have "Some c' = (if cs_prevProposers c2 div 2 < length (cs_currPeerPositions c2) then timer c2 else Some c2)"
    using res unfolding startRoundInternal_def Let_def c2_def c1_def by simp
  ultimately show ?thesis using timer by (simp split: if_splits)
qed

lemma handleWrongLedger_proposer:
  assumes ok: "adaptor_ok h B ad"
    and timer: "\<forall>c c'. cinv h B c \<longrightarrow> proposer_inv c \<longrightarrow> timer c = Some c' \<longrightarrow> proposer_inv c'"
    and inv: "proposer_inv c" and res: "handleWrongLedger timer ad i c = Some c'"
  shows "proposer_inv c'"
proof -
  define c1 where "c1 = leaveConsensus c"
  define c2 where "c2 = c1\<lparr>cs_prevLedgerID := i,
                         cs_result := map_option (\<lambda>r. r\<lparr>rs_disputes := [], rs_compares := []\<rparr>) (cs_result c1),
                         cs_currPeerPositions := [],
                         cs_rawCloseTimes := (cs_rawCloseTimes c1)\<lparr>ct_peers := []\<rparr>,
                         cs_deadNodes := []\<rparr>"
  define c3 where "c3 = (if cs_prevLedgerID c1 \<noteq> i then playbackProposals ad c2 else c1)"
  have inv1: "proposer_inv c1" unfolding c1_def using inv by (rule leaveConsensus_proposer)
  moreover have "proposer_inv c2 = proposer_inv c1"
    by (rule proposer_inv_cong) (simp_all add: c2_def option.map_comp comp_def)
  ultimately have inv3: "proposer_inv c3"
    using proposer_inv_view [OF playbackProposals_view] by (simp add: c3_def)
  have "Some c' = (if cl_id (cs_previousLedger c3) = cs_prevLedgerID c3 then Some c3
         else case acquireLedger ad (cs_prevLedgerID c3) of
                Some newLedger \<Rightarrow> startRoundInternal timer ad (cs_now c3) i newLedger cm_switchedLedger c3
              | None \<Rightarrow> Some (set_mode cm_wrongLedger c3))"
    using res unfolding handleWrongLedger_def Let_def c3_def c2_def c1_def by simp
  then show ?thesis
    using inv3 startRoundInternal_proposer [OF ok timer inv3] proposer_inv_set_mode [OF inv3]
    by (auto split: if_splits option.splits)
qed

lemma timerEntry_proposer:
  assumes "adaptor_ok h B ad" and "cinv h B c" and "proposer_inv c" and "timerEntry n ad now c = Some c'"
  shows "proposer_inv c'"
  using assms(2-4)
proof (induction n arbitrary: now c c')
  case (Suc n)
  let ?t = "\<lambda>c. timerEntry n ad (cs_now c) c"
  let ?c = "c\<lparr>cs_now := now\<rparr>"
  let ?i = "getPrevLedger ad (cs_prevLedgerID ?c) (cs_previousLedger ?c) (cs_mode ?c)"
  show ?case
  proof (cases "cs_phase c = cp_accepted")
    case False
    then obtain c1 where ck: "checkLedger ?t ad ?c = Some c1"
      and c': "Some c' = (if cs_phase c1 = cp_open then Some (phaseOpen ad c1)
                    else if cs_phase c1 = cp_establish then phaseEstablish ad c1 else Some c1)"
      using Suc.prems(3) by (auto split: option.splits)
    have now: "cinv h B ?c" "proposer_inv ?c" using Suc.prems(1,2) proposer_inv_view [OF view_irrelevant(1)] by simp_all
    have timer: "\<forall>c c'. cinv h B c \<longrightarrow> proposer_inv c \<longrightarrow> ?t c = Some c' \<longrightarrow> proposer_inv c'"
      using Suc.IH by blast
    have inv1: "proposer_inv c1"
    proof (cases "?i \<noteq> cs_prevLedgerID ?c \<or> cl_id (cs_previousLedger ?c) \<noteq> cs_prevLedgerID ?c")
      case True
      then have wl: "handleWrongLedger ?t ad ?i ?c = Some c1"
        using ck unfolding checkLedger_eq by (simp only: if_True)
      show ?thesis by (rule handleWrongLedger_proposer [OF assms(1) timer now(2) wl])
    next
      case False
      then have "?c = c1" using ck unfolding checkLedger_eq by (simp only: if_False option.inject)
      then show ?thesis using now(2) by simp
    qed
    have "\<forall>c c'. cinv h B c \<longrightarrow> ?t c = Some c' \<longrightarrow> cinv h B c'"
      using timerEntry_inv [OF assms(1)] by blast
    then have "cinv h B c1" using now(1) by (rule checkLedger_inv [OF assms(1) _ _ ck])
    then have "cs_phase c1 = cp_open \<Longrightarrow> cs_result c1 = None" by (simp add: cinv_def)
    then show ?thesis
      using c' inv1 phaseOpen_proposer [OF assms(1), of c1] phaseEstablish_proposer [of ad c1 c'] by (simp split: if_splits)
  qed (use Suc.prems in simp)
qed simp

lemma startRound_proposer:
  assumes "adaptor_ok h B ad" and "proposer_inv c" and "startRound n ad now i l nowUntrusted proposing c = Some c'"
  shows "proposer_inv c'"
proof -
  define c1 where "c1 = (if cs_firstRound c
               then c\<lparr>cs_prevRoundTime := ledgerIDLE_INTERVAL (ad_parms ad), cs_prevCloseTime := cl_closeTime l,
                      cs_firstRound := False\<rparr>
               else c\<lparr>cs_prevCloseTime := ct_self (cs_rawCloseTimes c)\<rparr>)"
  define c2 where "c2 = c1\<lparr>cs_recentPeerPositions := fold AList.delete nowUntrusted (cs_recentPeerPositions c1)\<rparr>"
  have "proposer_inv c2 = proposer_inv c" by (rule proposer_inv_view) (simp add: c2_def c1_def view_def)
  then have inv: "proposer_inv c2" using assms(2) by simp
  have timer: "\<forall>c c'. cinv h B c \<longrightarrow> proposer_inv c \<longrightarrow> timerEntry n ad (cs_now c) c = Some c' \<longrightarrow> proposer_inv c'"
    using timerEntry_proposer [OF assms(1)] by blast
  show ?thesis
    using assms(3) unfolding startRound_def Let_def case_prod_unfold c1_def [symmetric] c2_def [symmetric]
    by (rule startRoundInternal_proposer [OF assms(1) timer inv])
qed

lemma simulate_proposer:
  assumes "adaptor_ok h B ad" and "cinv h B c" and "proposer_inv c" and "cs_phase c = cp_open"
  shows "proposer_inv (simulate ad now delay c)"
proof -
  let ?c = "closeLedger ad (c\<lparr>cs_now := now\<rparr>)"
  have c: "cinv h B ?c \<and> cs_phase ?c = cp_establish"
    using assms(2,4) by (intro closeLedger_spec [OF assms(1)]) (simp_all add: cinv_def peers_ok_def acquired_ok_def)
  then obtain r where r: "cs_result ?c = Some r" by (auto simp: cinv_def)
  have "proposer_inv (c\<lparr>cs_now := now\<rparr>)" using assms(3) proposer_inv_view [OF view_irrelevant(1)] by simp
  then have "proposer_inv ?c"
    using assms(2,4) by (intro closeLedger_proposer [OF assms(1)]) (simp_all add: cinv_def)
  moreover have "proposer_inv (simulate ad now delay c) = proposer_inv ?c"
    by (rule proposer_inv_cong) (simp_all add: simulate_def Let_def r emit_def)
  ultimately show ?thesis by simp
qed

lemma consensus_reach_proposer: "consensus_reach h B c \<Longrightarrow> proposer_inv c"
proof (induction rule: consensus_reach.induct)
  case (new seed)
  show ?case by (simp add: new_Consensus_def proposer_inv_def)
next
  case (start c ad n now i l nowUntrusted proposing c')
  then show ?case by (blast intro: startRound_proposer)
next
  case (timer c ad n now c')
  then show ?case using consensus_reach_inv by (blast intro: timerEntry_proposer)
next
  case (tx_set c ad s now)
  then show ?case using proposer_inv_view [OF gotTxSet_view] by simp
next
  case (proposal c ad now p)
  then show ?case using proposer_inv_view [OF peerProposal_view] by simp
next
  case (simulated c ad now delay)
  then show ?case using consensus_reach_inv by (blast intro: simulate_proposer)
qed

section \<open>How a peer hears it\<close>

lemma gotTxSet_positions: "cs_currPeerPositions (gotTxSet ad now s c) = cs_currPeerPositions c"
proof (cases "cs_phase c = cp_accepted \<or> setID ad s \<in> keys (cs_acquired c)")
  case True
  then show ?thesis by (elim disjE) (simp_all add: gotTxSet_def Let_def)
next
  case new: False
  let ?c1 = "c\<lparr>cs_now := now, cs_acquired := (setID ad s, s) # cs_acquired c\<rparr>"
  show ?thesis
  proof (cases "cs_result c")
    case (Some r)
    obtain r' c' where up: "update_proposers ad s (cs_currPeerPositions c) (r, ?c1) = (r', c')" by fastforce
    then have "gotTxSet ad now s c = c'\<lparr>cs_result := Some r'\<rparr>"
      using new Some by (simp add: gotTxSet_def Let_def store_result_def)
    then show ?thesis using update_proposers_quiet [OF up] quiet_frame(2) [of ?c1 c'] by simp
  qed (use new in \<open>simp add: gotTxSet_def Let_def\<close>)
qed

lemma record_position_recorded:
  "cs_currPeerPositions (record_position ad q c) = AList.update (pr_nodeID q) q (cs_currPeerPositions c)"
proof -
  define c1 where "c1 = c\<lparr>cs_currPeerPositions := AList.update (pr_nodeID q) q (cs_currPeerPositions c)\<rparr>"
  define c2 where "c2 = (if isInitial q
               then c1\<lparr>cs_rawCloseTimes := (cs_rawCloseTimes c1)
                        \<lparr>ct_peers := increment_at (pr_closeTime q) (ct_peers (cs_rawCloseTimes c1))\<rparr>\<rparr>
               else c1)"
  have c2: "cs_currPeerPositions c2 = AList.update (pr_nodeID q) q (cs_currPeerPositions c)"
    by (simp add: c2_def c1_def)
  have eq: "record_position ad q c = (case map_of (cs_acquired c2) (pr_position q) of
           None \<Rightarrow> (case acquireTxSet ad (pr_position q) of
                      Some s \<Rightarrow> gotTxSet ad (cs_now c2) s c2
                    | None \<Rightarrow> c2)
         | Some s \<Rightarrow> (case cs_result c2 of
                       Some r \<Rightarrow> store_result (updateDisputes ad (pr_nodeID q) s r c2)
                     | None \<Rightarrow> c2))"
    unfolding record_position_def Let_def c2_def c1_def ..
  have "cs_currPeerPositions (store_result (updateDisputes ad n s r c2)) = cs_currPeerPositions c2" for n s r
  proof -
    obtain r' c' where up: "updateDisputes ad n s r c2 = (r', c')" by fastforce
    then show ?thesis using updateDisputes_quiet [OF up] quiet_frame(2) [of c2 c'] by (simp add: store_result_def)
  qed
  then show ?thesis unfolding eq by (simp add: c2 gotTxSet_positions split: option.split)
qed

text \<open>Two proposals with neither a proposal nor a mode change in between: the second continues the first.\<close>

lemma announce_consecutive:
  assumes "announce s (es @ ev_propose p # mid @ ev_propose q # rest) \<noteq> None" and "\<forall>x. ev_propose x \<notin> set mid"
    and "\<forall>a b. ev_modeChange a b \<notin> set mid"
  shows "continues p q"
proof -
  have keep: "announce (m, lp) mid = Some (m', lp') \<Longrightarrow> lp' = lp" for m m' lp lp'
    using assms(2,3) by (induction "(m, lp)" mid arbitrary: m lp rule: announce.induct) (auto split: if_splits)
  obtain m lp where "announce s es = Some (m, lp)"
    and "announce (m, lp) (ev_propose p # mid @ ev_propose q # rest) \<noteq> None"
    using assms(1) by (auto simp: announce_append split: option.splits)
  then have "announce (m, Some p) (mid @ ev_propose q # rest) \<noteq> None" by (simp split: if_splits)
  then obtain m' lp' where mid: "announce (m, Some p) mid = Some (m', lp')"
    and next_q: "announce (m', lp') (ev_propose q # rest) \<noteq> None"
    by (auto simp: announce_append split: option.splits)
  have "lp' = Some p" by (rule keep [OF mid])
  then show ?thesis using next_q by (auto split: if_splits)
qed

section \<open>A run\<close>

text \<open>The server of \<open>demo_closed\<close> gives in to its peer and proposes again; a second peer has heard its first position.\<close>

definition demo_second :: Consensus where
  "demo_second = the (timerEntry 2 (demo_ad 13000000000) 1023 demo_closed)"

definition demo_p :: ConsensusProposal where
  "demo_p = \<lparr>pr_previousLedger = 7, pr_position = 3, pr_closeTime = 1022, pr_time = 1022, pr_proposeSeq = 0, pr_nodeID = 11\<rparr>"

definition demo_q :: ConsensusProposal where
  "demo_q = \<lparr>pr_previousLedger = 7, pr_position = 1, pr_closeTime = 1020, pr_time = 1023, pr_proposeSeq = 1, pr_nodeID = 11\<rparr>"

definition demo_listener :: Consensus where
  "demo_listener = snd (peerProposal (demo_ad 0) 1022 demo_p demo_opened)"

lemma demo_second_Some: "timerEntry 2 (demo_ad 13000000000) 1023 demo_closed = Some demo_second"
proof -
  have "timerEntry 2 (demo_ad 13000000000) 1023 demo_closed \<noteq> None"
    by code_simp
  then show ?thesis by (auto simp: demo_second_def)
qed

lemma demo_second_reach: "consensus_reach demo_h demo_B demo_second"
  using demo_closed_reach demo_ad_ok demo_second_Some by (rule timer)

section \<open>Properties\<close>

text \<open>
  C8. Whatever a server does, what it announces follows the proposer's protocol: the mode changes it reports are one chain
  that ends in its current mode, it proposes only while proposing, the first proposal after a mode change has sequence number
  0, and every further one has a larger sequence number than the one before, for the same ledger and from the same node. In
  particular a server that bowed out is silent until its mode changes, since no sequence number is above that of a bow-out.
\<close>

theorem proposals_follow_protocol:
  assumes "consensus_reach h B c"
  shows "\<exists>lp. announce (cm_observing, None) (cs_events c) = Some (cs_mode c, lp)"
  using consensus_reach_proposer [OF assms] unfolding proposer_inv_def by (elim exE conjE) (rule exI)

theorem proposals_follow_protocol_witness:
  "\<exists>lp. announce (cm_observing, None) (cs_events demo_closed) = Some (cs_mode demo_closed, lp)"
  using proposals_follow_protocol [OF demo_closed_reach] .

text \<open>
  C9. Two servers that run this code understand each other. When a server announces two positions, one after the other and
  without a mode change (and so without a new round) in between, a peer that works on the same ledger and has recorded the first takes the second: it records it in the place
  of the first, or, when the second is a bow-out, forgets the server and ignores it for the rest of the round. No position
  is dropped as old.
\<close>

theorem peer_takes_next_position:
  assumes "consensus_reach h B c" and "cs_events c = es @ ev_propose p # mid @ ev_propose q # rest"
    and "\<forall>x. ev_propose x \<notin> set mid" and "\<forall>a b. ev_modeChange a b \<notin> set mid"
    and "cs_phase s \<noteq> cp_accepted" and "cs_prevLedgerID s = pr_previousLedger p"
    and "pr_nodeID p \<notin> set (cs_deadNodes s)" and "map_of (cs_currPeerPositions s) (pr_nodeID p) = Some p"
  shows "fst (peerProposalInternal ad now q s)
    \<and> (let s' = snd (peerProposalInternal ad now q s)
       in if isBowOut q then map_of (cs_currPeerPositions s') (pr_nodeID p) = None \<and> pr_nodeID p \<in> set (cs_deadNodes s')
          else map_of (cs_currPeerPositions s') (pr_nodeID p) = Some q)"
proof -
  have "announce (cm_observing, None) (es @ ev_propose p # mid @ ev_propose q # rest) \<noteq> None"
    using consensus_reach_proposer [OF assms(1)] assms(2) by (auto simp: proposer_inv_def)
  then have ct: "continues p q" using announce_consecutive [OF _ assms(3,4)] by blast
  then have eq: "peerProposalInternal ad now q s = (True,
      if isBowOut q then peer_bows_out (pr_nodeID p) (s\<lparr>cs_now := now\<rparr>) else record_position ad q (s\<lparr>cs_now := now\<rparr>))"
    using assms(5-8) by (simp add: peerProposalInternal_def Let_def continues_def not_le)
  show ?thesis
  proof (cases "isBowOut q")
    case True
    then show ?thesis by (simp add: eq Let_def peer_bows_out_def map_of_eq_None_iff)
  next
    case False
    then show ?thesis using ct by (simp add: eq Let_def record_position_recorded continues_def update_Some_unfold)
  qed
qed

theorem peer_takes_next_position_witness:
  "fst (peerProposalInternal (demo_ad 0) 1024 demo_q demo_listener)
    \<and> map_of (cs_currPeerPositions (snd (peerProposalInternal (demo_ad 0) 1024 demo_q demo_listener))) 11 = Some demo_q"
proof -
  have ev: "cs_events demo_second = [ev_modeChange cm_observing cm_proposing, ev_shareSet {1, 2}]
      @ ev_propose demo_p # [ev_shareTx 2] @ ev_propose demo_q # drop 5 (cs_events demo_second)"
    by code_simp
  have mid: "\<forall>x. ev_propose x \<notin> set [ev_shareTx 2]" by simp
  have q: "\<forall>a b. ev_modeChange a b \<notin> set [ev_shareTx 2]" by simp
  have bow: "\<not> isBowOut demo_q" and node: "pr_nodeID demo_p = 11" by code_simp+
  have ph: "cs_phase demo_listener \<noteq> cp_accepted" and id: "cs_prevLedgerID demo_listener = pr_previousLedger demo_p"
    and live: "pr_nodeID demo_p \<notin> set (cs_deadNodes demo_listener)"
    and heard: "map_of (cs_currPeerPositions demo_listener) (pr_nodeID demo_p) = Some demo_p"
    by code_simp+
  show ?thesis
    using peer_takes_next_position [OF demo_second_reach ev mid q ph id live heard, of "demo_ad 0" 1024] bow node
    by (simp add: Let_def)
qed

end
