(* ===== verification/Ledger_Objects.thy ===== *)
theory Ledger_Objects
  imports Prelude
begin

text \<open>
  Ledger objects that several components read and write.

  An account's exclusion list (field \<^verbatim>\<open>sfExclusionList\<close>) is an \<^verbatim>\<open>STArray\<close> of entries, each with an
  optional \<^verbatim>\<open>sfAccount\<close>: \<open>AccountID option list\<close>. A field that may be absent is an \<open>option\<close>.
  \<open>read_exclusions\<close> is the loop with which \<^verbatim>\<open>rebuildCache\<close>, \<^verbatim>\<open>initialize\<close>,
  \<^verbatim>\<open>getCurrentExclusionsFromLedger\<close> and \<^verbatim>\<open>applyValidatorVote\<close> read such a list into a set.
\<close>

record AccountRoot =
  ar_Account :: AccountID
  ar_Balance :: int
  ar_Sequence :: u32
  ar_OwnerCount :: u32
  ar_ExclusionList :: "AccountID option list option"

fun read_entries :: "AccountID option list \<Rightarrow> AccountID list \<Rightarrow> AccountID list" where
  "read_entries [] acc = acc"
| "read_entries (None # es) acc = read_entries es acc"
| "read_entries (Some a # es) acc = read_entries es (List.insert a acc)"

definition read_exclusions :: "AccountRoot option \<Rightarrow> AccountID list" where
  "read_exclusions sle =
     (case sle of
        None \<Rightarrow> []
      | Some ar \<Rightarrow> (case ar_ExclusionList ar of None \<Rightarrow> [] | Some es \<Rightarrow> read_entries es []))"

lemma set_read_entries [simp]: "set (read_entries es acc) = {a. Some a \<in> set es} \<union> set acc"
  by (induction es acc rule: read_entries.induct) auto

lemma distinct_read_entries [simp, intro]: "distinct acc \<Longrightarrow> distinct (read_entries es acc)"
  by (induction es acc rule: read_entries.induct) auto

lemma distinct_read_exclusions [simp]: "distinct (read_exclusions sle)"
  by (auto simp: read_exclusions_def split: option.splits)

definition list_of_account :: "AccountRoot option \<Rightarrow> AccountID set" where
  "list_of_account sle =
     (case sle of
        None \<Rightarrow> {}
      | Some ar \<Rightarrow> (case ar_ExclusionList ar of None \<Rightarrow> {} | Some es \<Rightarrow> {a. Some a \<in> set es}))"

lemma set_read_exclusions [simp]: "set (read_exclusions sle) = list_of_account sle"
  by (auto simp: read_exclusions_def list_of_account_def split: option.splits)

lemma finite_list_of_account [simp]: "finite (list_of_account sle)"
  unfolding set_read_exclusions [symmetric] by simp

end
