(* ===== verification/Remote_Fetcher.thy ===== *)
theory Remote_Fetcher
  imports Prelude "HOL-Library.List_Lexorder" "HOL-Library.Char_ord"
begin

text \<open>
  The fetcher of remote exclusion lists, \<^verbatim>\<open>src/xrpld/app/misc/RemoteExclusionListFetcher.cpp\<close>.
  A fetch cycle starts one request per configured source (\<open>fetchAllLists\<close>), the responses arrive in
  any order (\<open>onFetchComplete\<close>, \<open>onTextFetch\<close>), and the last one publishes the result
  (\<open>onAllFetchesComplete\<close>).

  The JSON reader, the base-58 codec, the URL parser, hex decoding, hashing and the signature
  primitives are the fields of the record \<open>fetch_env\<close>. Timers, worker objects and the two time stamps
  that nothing reads are left out. An exception inside \<^verbatim>\<open>parseExclusionList\<close> or
  \<^verbatim>\<open>verifySignature\<close> is caught there and gives \<open>None\<close> or \<open>False\<close>.

  The lemmas show that a signature binds the issuer and the multiset of excluded addresses, that a
  cycle ends whatever the order of the responses, and what it publishes.
\<close>

section \<open>JSON values\<close>

text \<open>
  The part of \<^verbatim>\<open>Json::Value\<close> the fetcher reads. A real number is represented by the text
  \<^verbatim>\<open>std::to_string\<close> gives for it.
\<close>

datatype Json =
    JNull
  | JBool bool
  | JInt int
  | JReal string
  | JString string
  | JArray "Json list"
  | JObject "(string \<times> Json) list"

fun isMember :: "Json \<Rightarrow> string \<Rightarrow> bool" where
  "isMember (JObject kvs) k = (map_of kvs k \<noteq> None)"
| "isMember _ k = False"

fun member_of :: "Json \<Rightarrow> string \<Rightarrow> Json" where
  "member_of (JObject kvs) k = (case map_of kvs k of None \<Rightarrow> JNull | Some v \<Rightarrow> v)"
| "member_of _ k = JNull"

text \<open>\<^verbatim>\<open>std::to_string\<close> on integers.\<close>

definition digit_char :: "nat \<Rightarrow> char" where
  "digit_char d = char_of (48 + d)"

fun nat_string :: "nat \<Rightarrow> string" where
  "nat_string n = (if n < 10 then [digit_char n] else nat_string (n div 10) @ [digit_char (n mod 10)])"

definition int_string :: "int \<Rightarrow> string" where
  "int_string i = (if i < 0 then CHR ''-'' # nat_string (nat (- i)) else nat_string (nat i))"

text \<open>\<^verbatim>\<open>Value::asString\<close>; \<open>None\<close> is the exception for arrays and objects.\<close>

fun asString :: "Json \<Rightarrow> string option" where
  "asString JNull = Some ''''"
| "asString (JString s) = Some s"
| "asString (JBool b) = Some (if b then ''true'' else ''false'')"
| "asString (JInt i) = Some (int_string i)"
| "asString (JReal s) = Some s"
| "asString (JArray _) = None"
| "asString (JObject _) = None"

section \<open>State\<close>

record ExclusionEntry =
  address :: AccountID
  entry_reason :: string
  entry_dateAdded :: string

record ExclusionList =
  version :: string
  timestamp :: string
  issuerAddress :: AccountID
  blacklist :: "ExclusionEntry list"
  verified :: bool

record SourceResult =
  success :: bool
  result_list :: "ExclusionList option"
  errorMessage :: string

record ExclusionSource =
  url :: string
  pubkey :: string

record Fetcher =
  cachedLists :: "(string \<times> ExclusionList) list"
  combinedExclusions :: "AccountID list"
  fetchResults :: "SourceResult list"
  running :: bool
  fetching :: bool
  stopping :: bool
  hasModifications :: bool
  allSourcesAccessible :: bool
  initialFetchComplete :: bool

record parsedURL =
  scheme :: string
  domain :: string
  port :: "nat option"
  url_path :: string

record fetch_env =
  reader_parse :: "string \<Rightarrow> Json option"
  parseBase58_account :: "string \<Rightarrow> AccountID option"
  parseBase58_node :: "string \<Rightarrow> PublicKey option"
  toBase58 :: "AccountID \<Rightarrow> string"
  strUnHex :: "string \<Rightarrow> Blob option"
  sha512Half :: "string \<Rightarrow> uint256"
  verify_msg :: "PublicKey \<Rightarrow> string \<Rightarrow> Blob \<Rightarrow> bool \<Rightarrow> bool"
  verifyDigest :: "PublicKey \<Rightarrow> uint256 \<Rightarrow> Blob \<Rightarrow> bool \<Rightarrow> bool"
  parseUrl :: "string \<Rightarrow> parsedURL option"

definition empty_result :: SourceResult where
  "empty_result = \<lparr>success = False, result_list = None, errorMessage = ''''\<rparr>"

definition new_fetcher :: "ExclusionSource list \<Rightarrow> Fetcher" where
  "new_fetcher sources = \<lparr>cachedLists = [], combinedExclusions = [],
     fetchResults = replicate (length sources) empty_result, running = False, fetching = False,
     stopping = False, hasModifications = False, allSourcesAccessible = False,
     initialFetchComplete = False\<rparr>"

section \<open>Requests\<close>

datatype request = ReqSSL string string nat | ReqPlain string string nat | ReqFile string

definition makeRequest :: "fetch_env \<Rightarrow> ExclusionSource \<Rightarrow> string + request" where
  "makeRequest env source =
     (case parseUrl env (url source) of
        None \<Rightarrow> Inl (''Invalid URL: '' @ url source)
      | Some pUrl \<Rightarrow>
          let path = (if url_path pUrl = '''' then ''/'' else url_path pUrl) in
          if scheme pUrl = ''https'' then
            (if domain pUrl = '''' then Inl ''https URI must contain a hostname''
             else Inr (ReqSSL (domain pUrl) path (case port pUrl of None \<Rightarrow> 443 | Some p \<Rightarrow> p)))
          else if scheme pUrl = ''http'' then
            (if domain pUrl = '''' then Inl ''http URI must contain a hostname''
             else Inr (ReqPlain (domain pUrl) path (case port pUrl of None \<Rightarrow> 80 | Some p \<Rightarrow> p)))
          else if scheme pUrl = ''file'' then
            (if domain pUrl \<noteq> '''' then Inl ''file URI cannot contain a hostname''
             else if url_path pUrl = '''' then Inl ''file URI must contain a path''
             else Inr (ReqFile (url_path pUrl)))
          else Inl (''Unsupported scheme: '' @ scheme pUrl))"

section \<open>Parsing and verification\<close>

definition string_field :: "Json \<Rightarrow> string \<Rightarrow> string option" where
  "string_field json k = (if isMember json k then asString (member_of json k) else Some '''')"

text \<open>
  One entry of the array: \<open>None\<close> is an exception, \<open>Some None\<close> a skipped entry. An entry without
  an address keeps the default account, zero.
\<close>

definition parse_entry :: "fetch_env \<Rightarrow> Json \<Rightarrow> ExclusionEntry option option" where
  "parse_entry env entry =
     (let rest = (\<lambda>addr.
        case string_field entry ''reason'' of None \<Rightarrow> None | Some r \<Rightarrow>
        (case string_field entry ''date_added'' of None \<Rightarrow> None | Some t \<Rightarrow>
           Some (Some \<lparr>address = addr, entry_reason = r, entry_dateAdded = t\<rparr>)))
      in if isMember entry ''address'' then
           (case asString (member_of entry ''address'') of
              None \<Rightarrow> None
            | Some s \<Rightarrow>
                (case parseBase58_account env s of None \<Rightarrow> Some None | Some addr \<Rightarrow> rest addr))
         else rest 0)"

fun parse_entries :: "fetch_env \<Rightarrow> Json list \<Rightarrow> ExclusionEntry list option" where
  "parse_entries env [] = Some []"
| "parse_entries env (e # es) =
     (case parse_entry env e of
        None \<Rightarrow> None
      | Some x \<Rightarrow>
          (case parse_entries env es of
             None \<Rightarrow> None
           | Some xs \<Rightarrow> Some (case x of None \<Rightarrow> xs | Some y \<Rightarrow> y # xs)))"

definition parseExclusionList :: "fetch_env \<Rightarrow> string \<Rightarrow> ExclusionList option" where
  "parseExclusionList env content =
     (case reader_parse env content of
        None \<Rightarrow> None
      | Some json \<Rightarrow>
     (case string_field json ''version'' of None \<Rightarrow> None | Some v \<Rightarrow>
     (case string_field json ''timestamp'' of None \<Rightarrow> None | Some ts \<Rightarrow>
     (case (if isMember json ''issuer_address''
            then (case asString (member_of json ''issuer_address'') of
                    None \<Rightarrow> None | Some s \<Rightarrow> parseBase58_account env s)
            else Some 0) of
        None \<Rightarrow> None
      | Some issuer \<Rightarrow>
     (case (case member_of json ''exclusions'' of JArray es \<Rightarrow> parse_entries env es | _ \<Rightarrow> Some []) of
        None \<Rightarrow> None
      | Some bl \<Rightarrow>
          Some \<lparr>version = v, timestamp = ts, issuerAddress = issuer, blacklist = bl,
                verified = False\<rparr>)))))"

text \<open>The signed message: a prefix, then the sorted addresses, one per line.\<close>

definition canonicalMessage :: "fetch_env \<Rightarrow> ExclusionList \<Rightarrow> string" where
  "canonicalMessage env list =
     ''v1:'' @ version list @ '':'' @ timestamp list @ '':'' @ toBase58 env (issuerAddress list) @ '':''
     @ concat (map (\<lambda>addr. addr @ [CHR 0x0A])
         (sort (map (\<lambda>e. toBase58 env (address e)) (blacklist list))))"

definition verifyEd25519Signature :: "fetch_env \<Rightarrow> string \<Rightarrow> string \<Rightarrow> PublicKey \<Rightarrow> bool" where
  "verifyEd25519Signature env message signatureHex pk =
     (case strUnHex env signatureHex of
        None \<Rightarrow> False
      | Some sig \<Rightarrow> if length sig \<noteq> 64 then False else verify_msg env pk message sig True)"

definition verifySecp256k1Signature :: "fetch_env \<Rightarrow> string \<Rightarrow> string \<Rightarrow> PublicKey \<Rightarrow> bool" where
  "verifySecp256k1Signature env message signatureHex pk =
     (case strUnHex env signatureHex of
        None \<Rightarrow> False
      | Some sig \<Rightarrow> verifyDigest env pk (sha512Half env message) sig False)"

definition verifySignature :: "fetch_env \<Rightarrow> ExclusionList \<Rightarrow> string \<Rightarrow> string \<Rightarrow> bool" where
  "verifySignature env list pubkeyStr rawContent =
     (case reader_parse env rawContent of
        None \<Rightarrow> False
      | Some json \<Rightarrow>
          if \<not> isMember json ''signature'' then False
          else let sig = member_of json ''signature'' in
     (case string_field sig ''algorithm'' of None \<Rightarrow> False | Some algorithm \<Rightarrow>
     (case string_field sig ''public_key'' of None \<Rightarrow> False | Some sigPubKey \<Rightarrow>
     (case string_field sig ''signature'' of None \<Rightarrow> False | Some signature \<Rightarrow>
          if sigPubKey \<noteq> pubkeyStr then False
          else (case parseBase58_node env pubkeyStr of
                  None \<Rightarrow> False
                | Some pk \<Rightarrow>
                    if algorithm = ''ed25519''
                    then verifyEd25519Signature env (canonicalMessage env list) signature pk
                    else if algorithm = ''secp256k1''
                    then verifySecp256k1Signature env (canonicalMessage env list) signature pk
                    else False)))))"

section \<open>Publishing\<close>

definition union_lists :: "(string \<times> ExclusionList) list \<Rightarrow> AccountID list" where
  "union_lists cached =
     foldl (\<lambda>acc (u, l). if verified l
              then foldl (\<lambda>s e. List.insert (address e) s) acc (blacklist l) else acc) [] cached"

definition updateCombinedExclusions :: "Fetcher \<Rightarrow> Fetcher" where
  "updateCombinedExclusions f =
     (let newCombined = union_lists (cachedLists f) in
      if set newCombined \<noteq> set (combinedExclusions f)
      then (if allSourcesAccessible f
            then f\<lparr>combinedExclusions := newCombined, hasModifications := True\<rparr>
            else f\<lparr>combinedExclusions := newCombined\<rparr>)
      else f)"

text \<open>The loop of \<^verbatim>\<open>onAllFetchesComplete\<close>: the new lists by URL, whether all succeeded, how many did.\<close>

fun collect_results ::
  "(ExclusionSource \<times> SourceResult) list \<Rightarrow> (string \<times> ExclusionList) list \<times> bool \<times> nat
     \<Rightarrow> (string \<times> ExclusionList) list \<times> bool \<times> nat" where
  "collect_results [] acc = acc"
| "collect_results ((source, r) # rs) (newLists, allSuccessful, successCount) =
     (case (success r, result_list r) of
        (True, Some l) \<Rightarrow>
          collect_results rs (AList.update (url source) l newLists, allSuccessful, successCount + 1)
      | _ \<Rightarrow> collect_results rs (newLists, False, successCount))"

definition onAllFetchesComplete :: "ExclusionSource list \<Rightarrow> Fetcher \<Rightarrow> Fetcher" where
  "onAllFetchesComplete sources f =
     (let (newLists, allSuccessful, successCount) =
            collect_results (zip sources (fetchResults f)) ([], True, 0);
          f1 = (if allSuccessful
                then updateCombinedExclusions (f\<lparr>cachedLists := newLists, allSourcesAccessible := True\<rparr>)
                else if initialFetchComplete f \<and> 0 < successCount
                then f\<lparr>allSourcesAccessible := False\<rparr>
                else if \<not> initialFetchComplete f
                then f\<lparr>cachedLists := [], combinedExclusions := [], allSourcesAccessible := False\<rparr>
                else f)
      in f1\<lparr>initialFetchComplete := True, fetching := False\<rparr>)"

definition fetch_done :: "SourceResult \<Rightarrow> bool" where
  "fetch_done r \<longleftrightarrow> success r \<or> errorMessage r \<noteq> ''''"

definition checkAllFetchesComplete :: "ExclusionSource list \<Rightarrow> Fetcher \<Rightarrow> Fetcher" where
  "checkAllFetchesComplete sources f =
     (if \<exists>r\<in>set (fetchResults f). \<not> success r \<and> errorMessage r = '''' then f
      else onAllFetchesComplete sources f)"

definition set_failed :: "nat \<Rightarrow> string \<Rightarrow> Fetcher \<Rightarrow> Fetcher" where
  "set_failed i msg f = f\<lparr>fetchResults :=
     (fetchResults f)[i := (fetchResults f ! i)\<lparr>success := False, errorMessage := msg\<rparr>]\<rparr>"

text \<open>The text of a response, or the message of the error that ended it.\<close>

definition onTextFetch ::
  "fetch_env \<Rightarrow> ExclusionSource list \<Rightarrow> string + string \<Rightarrow> nat \<Rightarrow> Fetcher \<Rightarrow> Fetcher" where
  "onTextFetch env sources res i f =
     checkAllFetchesComplete sources
       (case res of
          Inl msg \<Rightarrow> set_failed i msg f
        | Inr text \<Rightarrow>
            (case parseExclusionList env text of
               Some list \<Rightarrow>
                 if verifySignature env list (pubkey (sources ! i)) text
                 then f\<lparr>fetchResults := (fetchResults f)[i := (fetchResults f ! i)
                          \<lparr>success := True, result_list := Some (list\<lparr>verified := True\<rparr>)\<rparr>]\<rparr>
                 else set_failed i ''Parse/verify failed'' f
             | None \<Rightarrow> set_failed i ''Parse/verify failed'' f))"

definition onFetchComplete ::
  "fetch_env \<Rightarrow> ExclusionSource list \<Rightarrow> string + (nat \<times> string) \<Rightarrow> nat \<Rightarrow> Fetcher \<Rightarrow> Fetcher" where
  "onFetchComplete env sources res i f =
     (case res of
        Inl msg \<Rightarrow> checkAllFetchesComplete sources (set_failed i msg f)
      | Inr (status, body) \<Rightarrow>
          if status = 200 then onTextFetch env sources (Inr body) i f
          else checkAllFetchesComplete sources (set_failed i (''HTTP '' @ nat_string status) f))"

definition fetchFromSource :: "fetch_env \<Rightarrow> ExclusionSource list \<Rightarrow> nat \<Rightarrow> Fetcher \<Rightarrow> Fetcher" where
  "fetchFromSource env sources i f =
     (case makeRequest env (sources ! i) of
        Inr _ \<Rightarrow> f
      | Inl what \<Rightarrow>
          let f1 = set_failed i what f in
          if \<forall>r\<in>set (fetchResults f1). \<not> (\<not> success r \<and> errorMessage r = '''')
          then onAllFetchesComplete sources f1 else f1)"

definition fetchAllLists :: "fetch_env \<Rightarrow> ExclusionSource list \<Rightarrow> Fetcher \<Rightarrow> Fetcher" where
  "fetchAllLists env sources f =
     (if fetching f then f
      else fold (fetchFromSource env sources) [0..<length sources]
             (f\<lparr>fetching := True, fetchResults := replicate (length sources) empty_result\<rparr>))"

definition start :: "fetch_env \<Rightarrow> ExclusionSource list \<Rightarrow> Fetcher \<Rightarrow> Fetcher" where
  "start env sources f =
     (if running f then f else if sources = [] then f
      else fetchAllLists env sources (f\<lparr>running := True, stopping := False\<rparr>))"

text \<open>The first part of \<^verbatim>\<open>stop\<close>; it then waits until \<open>fetching\<close> is false.\<close>

definition stop :: "Fetcher \<Rightarrow> Fetcher" where
  "stop f = (if \<not> running f then f else f\<lparr>running := False, stopping := True\<rparr>)"

text \<open>The timer's callback.\<close>

definition onTimer :: "fetch_env \<Rightarrow> ExclusionSource list \<Rightarrow> Fetcher \<Rightarrow> Fetcher" where
  "onTimer env sources f = (if \<not> running f \<or> stopping f then f else fetchAllLists env sources f)"

definition getExclusionReasons :: "Fetcher \<Rightarrow> (AccountID \<times> string \<times> string) list" where
  "getExclusionReasons f =
     foldl (\<lambda>acc (u, l). if verified l
              then foldl (\<lambda>m e. AList.update (address e) (entry_reason e, entry_dateAdded e) m)
                     acc (blacklist l)
              else acc) [] (cachedLists f)"

definition hasBeenModified :: "bool \<Rightarrow> Fetcher \<Rightarrow> bool \<times> Fetcher" where
  "hasBeenModified resetFlag f =
     (hasModifications f, if resetFlag then f\<lparr>hasModifications := False\<rparr> else f)"

text \<open>A response of a source: from an HTTP worker or from a file worker.\<close>

datatype response = HttpResponse "string + (nat \<times> string)" | FileResponse "string + string"

fun deliver :: "fetch_env \<Rightarrow> ExclusionSource list \<Rightarrow> nat \<times> response \<Rightarrow> Fetcher \<Rightarrow> Fetcher" where
  "deliver env sources (i, HttpResponse res) f = onFetchComplete env sources res i f"
| "deliver env sources (i, FileResponse res) f = onTextFetch env sources res i f"

text \<open>Every history of a fetcher.\<close>

inductive fetcher_reach :: "fetch_env \<Rightarrow> ExclusionSource list \<Rightarrow> Fetcher \<Rightarrow> bool"
  for env sources where
  new: "fetcher_reach env sources (new_fetcher sources)"
| start: "fetcher_reach env sources f \<Longrightarrow> fetcher_reach env sources (start env sources f)"
| stop: "fetcher_reach env sources f \<Longrightarrow> fetcher_reach env sources (stop f)"
| timer: "fetcher_reach env sources f \<Longrightarrow> fetcher_reach env sources (onTimer env sources f)"
| response: "fetcher_reach env sources f \<Longrightarrow> i < length sources \<Longrightarrow>
    fetcher_reach env sources (deliver env sources (i, r) f)"
| read: "fetcher_reach env sources f \<Longrightarrow> fetcher_reach env sources (snd (hasBeenModified reset f))"

section \<open>The signed message\<close>

declare nat_string.simps [simp del]

text \<open>What the base-58 codec promises: distinct accounts print differently, without separators.\<close>

definition base58_ok :: "fetch_env \<Rightarrow> bool" where
  "base58_ok env \<longleftrightarrow> inj (toBase58 env)
     \<and> (\<forall>a. CHR '':'' \<notin> set (toBase58 env a) \<and> CHR 0x0A \<notin> set (toBase58 env a))"

lemma split_at_first:
  assumes "c \<notin> set a" and "c \<notin> set a'"
  shows "a @ c # x = a' @ c # x' \<longleftrightarrow> a = a' \<and> x = x'"
  using assms
proof (induction a arbitrary: a')
  case Nil
  then show ?case by (cases a') auto
next
  case (Cons b a)
  then show ?case by (cases a') auto
qed

lemma split_at_last:
  assumes "c \<notin> set a" and "c \<notin> set a'"
  shows "x @ c # a = x' @ c # a' \<longleftrightarrow> x = x' \<and> a = a'"
proof -
  have "x @ c # a = x' @ c # a' \<longleftrightarrow> rev a @ c # rev x = rev a' @ c # rev x'"
    by (metis rev_append rev_is_rev_conv rev.simps(2) append_assoc append_Cons append_Nil)
  also have "\<dots> \<longleftrightarrow> rev a = rev a' \<and> rev x = rev x'"
    using assms by (intro split_at_first) auto
  finally show ?thesis by auto
qed

lemma lines_inj:
  assumes "\<forall>l\<in>set ls. c \<notin> set l" and "\<forall>l\<in>set ls'. c \<notin> set l"
    and "concat (map (\<lambda>l. l @ [c]) ls) = concat (map (\<lambda>l. l @ [c]) ls')"
  shows "ls = ls'"
  using assms
proof (induction ls arbitrary: ls')
  case Nil
  then show ?case by (cases ls') auto
next
  case (Cons l ls)
  from Cons.prems obtain l' ls'' where ls': "ls' = l' # ls''"
    by (cases ls') auto
  have "l @ c # concat (map (\<lambda>l. l @ [c]) ls) = l' @ c # concat (map (\<lambda>l. l @ [c]) ls'')"
    using Cons.prems ls' by simp
  then have "l = l'" and "concat (map (\<lambda>l. l @ [c]) ls) = concat (map (\<lambda>l. l @ [c]) ls'')"
    using Cons.prems ls' by (simp_all add: split_at_first)
  with Cons.IH [of ls''] Cons.prems ls' show ?case by simp
qed

lemma mset_map_inj:
  assumes "inj f" and "image_mset f A = image_mset f B"
  shows "A = B"
proof -
  have "image_mset (inv f) (image_mset f A) = image_mset (inv f) (image_mset f B)"
    using assms(2) by simp
  then show ?thesis
    using assms(1) by (simp add: multiset.map_comp o_def inv_f_f)
qed

lemma canonicalMessage_binds:
  assumes "base58_ok env" and eq: "canonicalMessage env l = canonicalMessage env l'"
  shows "issuerAddress l = issuerAddress l'"
    and "mset (map address (blacklist l)) = mset (map address (blacklist l'))"
proof -
  let ?b = "toBase58 env"
  define addrs where "addrs = (\<lambda>l :: ExclusionList. sort (map (\<lambda>e. ?b (address e)) (blacklist l)))"
  define lines where "lines = (\<lambda>l :: ExclusionList. concat (map (\<lambda>addr. addr @ [CHR 0x0A]) (addrs l)))"
  have clean: "CHR '':'' \<notin> set (?b a)" "CHR 0x0A \<notin> set (?b a)" for a
    using assms(1) by (auto simp: base58_ok_def)
  have colon: "CHR '':'' \<notin> set (lines l)" for l
    using clean by (auto simp: lines_def addrs_def)
  have e: "(''v1:'' @ version l @ '':'' @ timestamp l @ '':'' @ ?b (issuerAddress l)) @ CHR '':'' # lines l =
      (''v1:'' @ version l' @ '':'' @ timestamp l' @ '':'' @ ?b (issuerAddress l')) @ CHR '':'' # lines l'"
    using eq by (simp add: canonicalMessage_def lines_def addrs_def)
  then have pre: "''v1:'' @ version l @ '':'' @ timestamp l @ '':'' @ ?b (issuerAddress l) =
      ''v1:'' @ version l' @ '':'' @ timestamp l' @ '':'' @ ?b (issuerAddress l')"
    and body: "lines l = lines l'"
    using split_at_last [OF colon colon] by blast+
  from pre have "(version l @ '':'' @ timestamp l) @ CHR '':'' # ?b (issuerAddress l) =
      (version l' @ '':'' @ timestamp l') @ CHR '':'' # ?b (issuerAddress l')"
    by simp
  then have "?b (issuerAddress l) = ?b (issuerAddress l')"
    using split_at_last [OF clean(1) clean(1)] by blast
  then show "issuerAddress l = issuerAddress l'"
    using assms(1) by (auto simp: base58_ok_def dest: injD)
  have "addrs l = addrs l'"
    using body clean by (intro lines_inj [where c = "CHR 0x0A"]) (auto simp: addrs_def lines_def)
  then have "mset (addrs l) = mset (addrs l')" by simp
  then have "image_mset ?b (mset (map address (blacklist l))) =
      image_mset ?b (mset (map address (blacklist l')))"
    by (simp add: addrs_def multiset.map_comp o_def)
  moreover have "inj ?b"
    using assms(1) by (simp add: base58_ok_def)
  ultimately show "mset (map address (blacklist l)) = mset (map address (blacklist l'))"
    by (rule mset_map_inj [rotated])
qed

section \<open>One fetch cycle\<close>

text \<open>What a response records, before the check whether it was the last one.\<close>

definition text_result :: "fetch_env \<Rightarrow> ExclusionSource \<Rightarrow> string + string \<Rightarrow> SourceResult \<Rightarrow> SourceResult" where
  "text_result env source res r =
     (case res of
        Inl msg \<Rightarrow> r\<lparr>success := False, errorMessage := msg\<rparr>
      | Inr text \<Rightarrow>
          (case parseExclusionList env text of
             Some list \<Rightarrow>
               if verifySignature env list (pubkey source) text
               then r\<lparr>success := True, result_list := Some (list\<lparr>verified := True\<rparr>)\<rparr>
               else r\<lparr>success := False, errorMessage := ''Parse/verify failed''\<rparr>
           | None \<Rightarrow> r\<lparr>success := False, errorMessage := ''Parse/verify failed''\<rparr>))"

fun response_result :: "fetch_env \<Rightarrow> ExclusionSource \<Rightarrow> response \<Rightarrow> SourceResult \<Rightarrow> SourceResult" where
  "response_result env source (FileResponse res) r = text_result env source res r"
| "response_result env source (HttpResponse (Inl msg)) r = r\<lparr>success := False, errorMessage := msg\<rparr>"
| "response_result env source (HttpResponse (Inr (status, body))) r =
     (if status = 200 then text_result env source (Inr body) r
      else r\<lparr>success := False, errorMessage := ''HTTP '' @ nat_string status\<rparr>)"

definition record_response ::
  "fetch_env \<Rightarrow> ExclusionSource list \<Rightarrow> nat \<times> response \<Rightarrow> Fetcher \<Rightarrow> Fetcher" where
  "record_response env sources = (\<lambda>(i, r) f. f\<lparr>fetchResults :=
     (fetchResults f)[i := response_result env (sources ! i) r (fetchResults f ! i)]\<rparr>)"

lemma deliver_eq:
  "deliver env sources (i, r) f = checkAllFetchesComplete sources (record_response env sources (i, r) f)"
proof (cases r)
  case (HttpResponse res)
  then show ?thesis
    by (cases res)
       (auto simp: onFetchComplete_def onTextFetch_def record_response_def text_result_def
         set_failed_def split: option.splits)
next
  case (FileResponse res)
  then show ?thesis
    by (cases res)
       (auto simp: onTextFetch_def record_response_def text_result_def set_failed_def
         split: option.splits)
qed

text \<open>A response whose error, if it is one, has a message.\<close>

fun has_message :: "response \<Rightarrow> bool" where
  "has_message (HttpResponse (Inl msg)) = (msg \<noteq> '''')"
| "has_message (FileResponse (Inl msg)) = (msg \<noteq> '''')"
| "has_message _ = True"

lemma response_result_done: "has_message r \<Longrightarrow> fetch_done (response_result env source r sr)"
  by (cases "(env, source, r, sr)" rule: response_result.cases)
     (auto simp: fetch_done_def text_result_def split: option.splits sum.splits)

lemma record_response_frame [simp]:
  "fetching (record_response env sources e f) = fetching f"
  "length (fetchResults (record_response env sources e f)) = length (fetchResults f)"
  by (simp_all add: record_response_def split: prod.splits)

lemma checkAll_pending:
  "j < length (fetchResults f) \<Longrightarrow> \<not> fetch_done (fetchResults f ! j) \<Longrightarrow>
     checkAllFetchesComplete sources f = f"
  using nth_mem [of j "fetchResults f"] by (auto simp: checkAllFetchesComplete_def fetch_done_def)

lemma checkAll_done:
  "\<forall>j < length (fetchResults f). fetch_done (fetchResults f ! j) \<Longrightarrow>
     checkAllFetchesComplete sources f = onAllFetchesComplete sources f"
  by (auto simp: checkAllFetchesComplete_def fetch_done_def in_set_conv_nth)

text \<open>The responses still to come are those of the sources that are not done.\<close>

lemma deliver_all:
  assumes "evs \<noteq> []" and "distinct (map fst evs)" and "\<forall>e\<in>set evs. has_message (snd e)"
    and "fst ` set evs \<subseteq> {..<length (fetchResults f)}"
    and "\<forall>j < length (fetchResults f). fetch_done (fetchResults f ! j) \<longleftrightarrow> j \<notin> fst ` set evs"
  shows "fold (deliver env sources) evs f =
    onAllFetchesComplete sources (fold (record_response env sources) evs f)"
  using assms
proof (induction evs arbitrary: f)
  case (Cons e evs)
  obtain i r where e: "e = (i, r)" by (cases e)
  let ?f = "record_response env sources e f"
  have i: "i < length (fetchResults f)"
    using Cons.prems(4) e by auto
  have dn: "fetch_done (fetchResults ?f ! j) \<longleftrightarrow> j \<notin> fst ` set evs"
    if "j < length (fetchResults f)" for j
    using that i Cons.prems e response_result_done
    by (cases "j = i") (auto simp: record_response_def)
  show ?case
  proof (cases "evs = []")
    case True
    then show ?thesis
      using checkAll_done [of ?f] dn e by (simp add: deliver_eq)
  next
    case False
    then obtain j where j: "j \<in> fst ` set evs" by (cases evs) auto
    then have "checkAllFetchesComplete sources ?f = ?f"
      using Cons.prems(4) dn by (intro checkAll_pending [of j]) auto
    then have "deliver env sources e f = ?f"
      using e by (simp add: deliver_eq)
    then show ?thesis
      using Cons.IH [of ?f] False Cons.prems dn by auto
  qed
qed simp

lemma record_response_commute:
  assumes "fst e \<noteq> fst e'"
  shows "record_response env sources e \<circ> record_response env sources e' =
    record_response env sources e' \<circ> record_response env sources e"
  using assms
  by (auto simp: record_response_def fun_eq_iff list_update_swap split: prod.splits)

lemma record_responses_perm:
  assumes "distinct (map fst evs)" and "mset evs = mset evs'"
  shows "fold (record_response env sources) evs f = fold (record_response env sources) evs' f"
proof -
  have "fold (record_response env sources) evs = fold (record_response env sources) evs'"
  proof (rule fold_multiset_equiv [OF _ assms(2)])
    fix x y assume "x \<in> set evs" "y \<in> set evs"
    then show "record_response env sources x \<circ> record_response env sources y =
        record_response env sources y \<circ> record_response env sources x"
      using assms(1) record_response_commute [of x y env sources]
      by (cases "x = y") (auto simp: distinct_map inj_on_def)
  qed
  then show ?thesis by simp
qed

section \<open>Every published list is signed\<close>

definition signed :: "fetch_env \<Rightarrow> string \<Rightarrow> ExclusionList \<Rightarrow> bool" where
  "signed env pk l \<longleftrightarrow> verified l
     \<and> (\<exists>k sig. parseBase58_node env pk = Some k
          \<and> (length sig = 64 \<and> verify_msg env k (canonicalMessage env l) sig True
             \<or> verifyDigest env k (sha512Half env (canonicalMessage env l)) sig False))"

lemma canonicalMessage_verified [simp]:
  "canonicalMessage env (l\<lparr>verified := b\<rparr>) = canonicalMessage env l"
  by (simp add: canonicalMessage_def)

lemma verifySignature_signed:
  assumes "verifySignature env l pk text"
  shows "signed env pk (l\<lparr>verified := True\<rparr>)"
proof -
  let ?m = "canonicalMessage env l"
  from assms obtain k s where "parseBase58_node env pk = Some k"
    and "verifyEd25519Signature env ?m s k \<or> verifySecp256k1Signature env ?m s k"
    unfolding verifySignature_def Let_def
    by (auto split: option.split_asm if_split_asm)
  then show ?thesis
    by (auto simp: signed_def verifyEd25519Signature_def verifySecp256k1Signature_def
        split: option.split_asm if_split_asm)
qed

definition result_ok :: "fetch_env \<Rightarrow> ExclusionSource \<Rightarrow> SourceResult \<Rightarrow> bool" where
  "result_ok env source r \<longleftrightarrow>
     (success r \<longrightarrow> (\<exists>l. result_list r = Some l \<and> signed env (pubkey source) l))"

definition fetcher_inv :: "fetch_env \<Rightarrow> ExclusionSource list \<Rightarrow> Fetcher \<Rightarrow> bool" where
  "fetcher_inv env sources f \<longleftrightarrow>
     list_all2 (result_ok env) sources (fetchResults f)
     \<and> (\<forall>(u, l)\<in>set (cachedLists f). \<exists>s\<in>set sources. url s = u \<and> signed env (pubkey s) l)
     \<and> set (combinedExclusions f) = set (union_lists (cachedLists f))"

lemma result_ok_response: "result_ok env source (response_result env source r sr)"
  by (cases "(env, source, r, sr)" rule: response_result.cases)
     (auto simp: result_ok_def text_result_def split: option.splits sum.splits
       intro: verifySignature_signed)

lemma list_all2_update:
  assumes "list_all2 P xs ys" and "i < length xs \<Longrightarrow> P (xs ! i) y"
  shows "list_all2 P xs (ys[i := y])"
proof (rule list_all2_all_nthI)
  fix j assume "j < length xs"
  with assms show "P (xs ! j) (ys[i := y] ! j)"
    by (cases "i = j") (simp_all add: list_all2_conv_all_nth)
qed (use assms(1) in \<open>simp add: list_all2_lengthD\<close>)

lemma foldl_insert_set: "set (foldl (\<lambda>s e. List.insert (g e) s) acc es) = set acc \<union> g ` set es"
  by (induction es arbitrary: acc) auto

lemma foldl_union_set:
  "set (foldl (\<lambda>acc (u, l). if verified l
          then foldl (\<lambda>s e. List.insert (address e) s) acc (blacklist l) else acc) a c) =
     set a \<union> (\<Union>(u, l)\<in>{x \<in> set c. verified (snd x)}. address ` set (blacklist l))"
  by (induction c arbitrary: a) (auto simp: foldl_insert_set)

lemma set_union_lists:
  "set (union_lists c) = (\<Union>(u, l)\<in>{x \<in> set c. verified (snd x)}. address ` set (blacklist l))"
  unfolding union_lists_def foldl_union_set by simp

lemma collect_results_lists:
  "set (fst (collect_results rs acc)) \<subseteq> set (fst acc)
     \<union> {(url s, l) | s r l. (s, r) \<in> set rs \<and> success r \<and> result_list r = Some l}"
proof (induction rs arbitrary: acc)
  case (Cons e rs)
  obtain source r where e: "e = (source, r)" by (cases e)
  obtain newLists b n where acc: "acc = (newLists, b, n)" by (cases acc)
  consider (ok) l where "success r" "result_list r = Some l"
    | (failed) "collect_results (e # rs) acc = collect_results rs (newLists, False, n)"
    by (cases "success r"; cases "result_list r") (auto simp: e acc)
  then show ?case
  proof cases
    case (ok l)
    then have "collect_results (e # rs) acc =
        collect_results rs (AList.update (url source) l newLists, b, n + 1)"
      by (simp add: e acc)
    then show ?thesis
      using Cons.IH [of "(AList.update (url source) l newLists, b, n + 1)"]
        set_update_subset [of "url source" l newLists] ok e acc by fastforce
  next
    case failed
    then show ?thesis
      using Cons.IH [of "(newLists, False, n)"] acc by fastforce
  qed
qed simp

lemma updateCombined_frame [simp]:
  "cachedLists (updateCombinedExclusions f) = cachedLists f"
  "fetchResults (updateCombinedExclusions f) = fetchResults f"
  "allSourcesAccessible (updateCombinedExclusions f) = allSourcesAccessible f"
  "set (combinedExclusions (updateCombinedExclusions f)) = set (union_lists (cachedLists f))"
  by (simp_all add: updateCombinedExclusions_def Let_def)

lemma fetcher_inv_complete [inv_intros]:
  assumes "fetcher_inv env sources f"
  shows "fetcher_inv env sources (onAllFetchesComplete sources f)"
proof -
  obtain nl b n where c: "collect_results (zip sources (fetchResults f)) ([], True, 0) = (nl, b, n)"
    by (metis prod_cases3)
  have "\<exists>s\<in>set sources. url s = u \<and> signed env (pubkey s) l" if "(u, l) \<in> set nl" for u l
  proof -
    from that obtain s r where sr: "(s, r) \<in> set (zip sources (fetchResults f))"
      "success r" "result_list r = Some l" "u = url s"
      using collect_results_lists [of "zip sources (fetchResults f)" "([], True, 0)"] c by auto
    moreover have "result_ok env s r"
      using assms sr(1) by (auto simp: fetcher_inv_def list_all2_iff)
    ultimately show ?thesis
      by (auto simp: result_ok_def dest: set_zip_leftD)
  qed
  then show ?thesis
    using assms c
    by (auto simp: fetcher_inv_def onAllFetchesComplete_def Let_def set_union_lists)
qed

lemma fetcher_inv_record:
  "fetcher_inv env sources f \<Longrightarrow> fetcher_inv env sources (record_response env sources (i, r) f)"
  by (auto simp: fetcher_inv_def record_response_def
      intro!: list_all2_update result_ok_response)

lemma fetcher_inv_deliver [inv_intros]:
  "fetcher_inv env sources f \<Longrightarrow> fetcher_inv env sources (deliver env sources (i, r) f)"
  by (auto simp: deliver_eq checkAllFetchesComplete_def
      intro: fetcher_inv_record fetcher_inv_complete)

lemma fetcher_inv_set_failed:
  "fetcher_inv env sources f \<Longrightarrow> fetcher_inv env sources (set_failed i msg f)"
  by (auto simp: fetcher_inv_def set_failed_def result_ok_def intro!: list_all2_update)

lemma fetcher_inv_fetchFromSource [inv_intros]:
  "fetcher_inv env sources f \<Longrightarrow> fetcher_inv env sources (fetchFromSource env sources i f)"
  by (auto simp: fetchFromSource_def Let_def split: sum.split
      intro!: fetcher_inv_complete fetcher_inv_set_failed)

lemma fetcher_inv_fold:
  "fetcher_inv env sources f \<Longrightarrow> fetcher_inv env sources (fold (fetchFromSource env sources) is f)"
  by (induction "is" arbitrary: f) (auto intro: fetcher_inv_fetchFromSource)

lemma fetcher_inv_fetchAll [inv_intros]:
  assumes "fetcher_inv env sources f"
  shows "fetcher_inv env sources (fetchAllLists env sources f)"
proof -
  have "fetcher_inv env sources
      (f\<lparr>fetching := True, fetchResults := replicate (length sources) empty_result\<rparr>)"
    using assms by (auto simp: fetcher_inv_def list_all2_conv_all_nth result_ok_def empty_result_def)
  then show ?thesis
    using assms by (auto simp: fetchAllLists_def intro: fetcher_inv_fold)
qed

lemma fetcher_inv_reach: "fetcher_reach env sources f \<Longrightarrow> fetcher_inv env sources f"
proof (induction rule: fetcher_reach.induct)
  case new
  then show ?case
    by (auto simp: fetcher_inv_def new_fetcher_def list_all2_conv_all_nth result_ok_def
        empty_result_def union_lists_def)
next
  case (start f)
  then have "fetcher_inv env sources (f\<lparr>running := True, stopping := False\<rparr>)"
    by (simp add: fetcher_inv_def)
  with start show ?case by (auto simp: start_def intro: fetcher_inv_fetchAll)
next
  case (response f i r)
  then show ?case by (auto intro: fetcher_inv_deliver)
qed (auto simp: stop_def onTimer_def hasBeenModified_def intro: fetcher_inv_fetchAll,
     auto simp: fetcher_inv_def)

lemma fetchAll_started:
  assumes "\<not> fetching f" and "\<forall>s\<in>set sources. \<exists>r. makeRequest env s = Inr r"
  shows "fetchAllLists env sources f =
    f\<lparr>fetching := True, fetchResults := replicate (length sources) empty_result\<rparr>"
proof -
  have "fold (fetchFromSource env sources) is g = g" if "set is \<subseteq> {..<length sources}" for "is" g
    using that
  proof (induction "is" arbitrary: g)
    case (Cons i "is")
    then have "sources ! i \<in> set sources" by simp
    then obtain r where "makeRequest env (sources ! i) = Inr r" using assms(2) by blast
    then have "fetchFromSource env sources i g = g" by (simp add: fetchFromSource_def)
    with Cons show ?case by simp
  qed simp
  from this [of "[0..<length sources]"] show ?thesis
    using assms(1) by (simp add: fetchAllLists_def atLeast0LessThan)
qed

lemma onAllFetchesComplete_done [simp]:
  "fetching (onAllFetchesComplete sources f) = False"
  "initialFetchComplete (onAllFetchesComplete sources f) = True"
  by (simp_all add: onAllFetchesComplete_def split: prod.split)

lemma collect_results_failed:
  "\<forall>(s, r)\<in>set rs. \<not> success r \<Longrightarrow>
     collect_results rs (nl, b, n) = (nl, b \<and> rs = [], n)"
  by (induction rs arbitrary: b) auto

section \<open>Properties\<close>

text \<open>
  C36. The message a remote list is signed over determines its issuer and its excluded addresses: two
  lists with the same message have the same issuer and the same addresses, counted with
  multiplicity, whatever their order, version and time stamp. So a signature for one list
  cannot be used for a list with other addresses.
\<close>

theorem signed_message_determines_list:
  assumes "base58_ok env" and "canonicalMessage env l = canonicalMessage env l'"
  shows "issuerAddress l = issuerAddress l'
    \<and> mset (map address (blacklist l)) = mset (map address (blacklist l'))"
  using canonicalMessage_binds [OF assms] by simp

text \<open>An environment to evaluate the fetcher in: every signature is valid, one account is listed.\<close>

definition demo_json :: Json where
  "demo_json = JObject
     [(''exclusions'', JArray [JObject [(''address'', JString ''rr''), (''reason'', JString ''x'')]]),
      (''signature'', JObject [(''algorithm'', JString ''secp256k1''), (''public_key'', JString ''k'')])]"

definition demo_env :: fetch_env where
  "demo_env = \<lparr>reader_parse = (\<lambda>_. Some demo_json),
     parseBase58_account = (\<lambda>s. Some (of_nat (length s))), parseBase58_node = (\<lambda>_. Some []),
     toBase58 = (\<lambda>a. replicate (unat a) CHR ''r''), strUnHex = (\<lambda>_. Some []),
     sha512Half = (\<lambda>_. 0), verify_msg = (\<lambda>_ _ _ _. True), verifyDigest = (\<lambda>_ _ _ _. True),
     parseUrl = (\<lambda>u. Some \<lparr>scheme = ''http'', domain = u, port = None, url_path = ''''\<rparr>)\<rparr>"

definition demo_entry :: "AccountID \<Rightarrow> ExclusionEntry" where
  "demo_entry a = \<lparr>address = a, entry_reason = '''', entry_dateAdded = ''''\<rparr>"

definition demo_list :: "AccountID list \<Rightarrow> ExclusionList" where
  "demo_list as = \<lparr>version = ''1'', timestamp = '''', issuerAddress = 5,
     blacklist = map demo_entry as, verified = True\<rparr>"

lemma demo_env_base58: "base58_ok demo_env"
  by (auto simp: base58_ok_def demo_env_def inj_def intro: unsigned_word_eqI)

theorem signed_message_determines_list_witness:
  "mset (map address (blacklist (demo_list [1, 2]))) = mset (map address (blacklist (demo_list [2, 1])))"
  using signed_message_determines_list [OF demo_env_base58, of "demo_list [1, 2]" "demo_list [2, 1]"]
  by (simp add: canonicalMessage_def demo_list_def demo_entry_def demo_env_def)

text \<open>
  C35. Every address in the combined remote exclusions, at any point of the fetcher's life, is on a
  cached list that carries a valid signature under the public key configured for its source.
  Failed, forged, partial or interleaved responses never put an address there.
\<close>

theorem remote_exclusions_are_signed:
  assumes "fetcher_reach env sources f" and "a \<in> set (combinedExclusions f)"
  shows "\<exists>s\<in>set sources. \<exists>l. (url s, l) \<in> set (cachedLists f) \<and> signed env (pubkey s) l
    \<and> a \<in> address ` set (blacklist l)"
  using fetcher_inv_reach [OF assms(1)] assms(2)
  by (fastforce simp: fetcher_inv_def set_union_lists)

text \<open>
  C37. A fetch cycle ends and does not depend on timing: when all requests could be started and every
  source answers once (with a list, an HTTP status or an error that has a message), then after the
  last answer the fetcher is idle again with its initial fetch complete, and any order of the
  answers gives the same final state.
\<close>

theorem fetch_cycle_any_order:
  assumes "sources \<noteq> []" and "\<not> fetching f" and "\<forall>s\<in>set sources. \<exists>r. makeRequest env s = Inr r"
    and "distinct (map fst evs)" and "fst ` set evs = {..<length sources}"
    and "\<forall>e\<in>set evs. has_message (snd e)" and "mset evs' = mset evs"
  shows "fold (deliver env sources) evs' (fetchAllLists env sources f) =
      fold (deliver env sources) evs (fetchAllLists env sources f)
    \<and> \<not> fetching (fold (deliver env sources) evs (fetchAllLists env sources f))
    \<and> initialFetchComplete (fold (deliver env sources) evs (fetchAllLists env sources f))"
proof -
  let ?f = "f\<lparr>fetching := True, fetchResults := replicate (length sources) empty_result\<rparr>"
  have all: "fold (deliver env sources) es ?f =
      onAllFetchesComplete sources (fold (record_response env sources) es ?f)"
    if "mset es = mset evs" for es
  proof (rule deliver_all)
    have s: "set es = set evs" using that by (metis set_mset_mset)
    show "es \<noteq> []" using s assms(1,5) by (cases sources) auto
    show "distinct (map fst es)"
      using that assms(4) by (metis mset_map mset_eq_imp_distinct_iff)
    show "\<forall>e\<in>set es. has_message (snd e)" using s assms(6) by simp
    show "fst ` set es \<subseteq> {..<length (fetchResults ?f)}" using s assms(5) by simp
    show "\<forall>j<length (fetchResults ?f). fetch_done (fetchResults ?f ! j) \<longleftrightarrow> j \<notin> fst ` set es"
      using s assms(5) by (auto simp: fetch_done_def empty_result_def)
  qed
  show ?thesis
    using all [OF assms(7)] all [OF refl]
      record_responses_perm [OF assms(4), of evs' env sources ?f] assms(7)
    by (simp add: fetchAll_started [OF assms(2,3)])
qed

definition demo_sources :: "ExclusionSource list" where
  "demo_sources = [\<lparr>url = ''a'', pubkey = ''k''\<rparr>, \<lparr>url = ''b'', pubkey = ''k''\<rparr>]"

theorem fetch_cycle_any_order_witness:
  "\<not> fetching (fold (deliver demo_env demo_sources)
      [(0, HttpResponse (Inr (404, ''''))), (1, FileResponse (Inl ''gone''))]
      (fetchAllLists demo_env demo_sources (new_fetcher demo_sources)))"
proof -
  have req: "\<forall>s\<in>set demo_sources. \<exists>r. makeRequest demo_env s = Inr r"
    by (simp add: demo_sources_def makeRequest_def demo_env_def Let_def)
  have idle: "\<not> fetching (new_fetcher demo_sources)" "demo_sources \<noteq> []"
    by (simp_all add: new_fetcher_def demo_sources_def)
  show ?thesis
    using fetch_cycle_any_order [OF idle(2,1) req,
        of "[(0, HttpResponse (Inr (404, ''''))), (1, FileResponse (Inl ''gone''))]"
          "[(0, HttpResponse (Inr (404, ''''))), (1, FileResponse (Inl ''gone''))]"]
    by (simp add: demo_sources_def lessThan_Suc insert_commute)
qed

text \<open>
  If a source outage is total, it goes unnoticed: after a successful cycle, a cycle in which every
  source fails leaves \<^verbatim>\<open>areAllSourcesAccessible\<close> true, although it is documented to report whether
  all sources were fetched in the last attempt (a partial outage does make it false).
\<close>

theorem total_outage_unnoticed:
  assumes "allSourcesAccessible f" and "initialFetchComplete f"
    and "\<forall>r\<in>set (fetchResults f). \<not> success r"
    and "sources \<noteq> []" and "length (fetchResults f) = length sources"
  shows "allSourcesAccessible (onAllFetchesComplete sources f)
    \<and> combinedExclusions (onAllFetchesComplete sources f) = combinedExclusions f"
proof -
  have "\<forall>(s, r)\<in>set (zip sources (fetchResults f)). \<not> success r"
    using assms(3) by (auto dest: set_zip_rightD)
  moreover have "zip sources (fetchResults f) \<noteq> []"
    using assms(4,5) by (cases sources; cases "fetchResults f") auto
  ultimately show ?thesis
    using assms(1,2) by (simp add: onAllFetchesComplete_def collect_results_failed)
qed

definition demo_run :: Fetcher where
  "demo_run = fold (deliver demo_env demo_sources)
     [(1, HttpResponse (Inr (200, ''body''))), (0, FileResponse (Inr ''body''))]
     (start demo_env demo_sources (new_fetcher demo_sources))"

lemma demo_run_eval:
  "combinedExclusions demo_run = [2]" "allSourcesAccessible demo_run" "initialFetchComplete demo_run"
  "length (fetchResults demo_run) = 2"
  by code_simp+

theorem remote_exclusions_are_signed_witness:
  "\<exists>s\<in>set demo_sources. \<exists>l. (url s, l) \<in> set (cachedLists demo_run) \<and> signed demo_env (pubkey s) l
    \<and> 2 \<in> address ` set (blacklist l)"
proof -
  have "fetcher_reach demo_env demo_sources demo_run"
    unfolding demo_run_def
    by (simp only: fold_simps id_apply) (intro fetcher_reach.intros; simp add: demo_sources_def)
  then show ?thesis
    by (rule remote_exclusions_are_signed) (simp add: demo_run_eval)
qed

end
