(* ===== verification/Exclusion_Manager.thy ===== *)
theory Exclusion_Manager
  imports Ledger_Objects Remote_Fetcher Consensus_Parms
begin

text \<open>
  The cache of exclusion lists, \<^verbatim>\<open>src/xrpld/app/misc/ExclusionManager.cpp\<close>: which validator excludes
  which accounts, how many validators exclude an account, and which accounts are excluded by
  consensus. The members are the fields of \<open>ExclusionManager\<close>; \<open>has_fetcher\<close> says whether the pointer
  to the remote fetcher is set, and operations that look through it take the fetcher's state.
  \<^verbatim>\<open>calcAccountID\<close> (a hash) is an argument, the ledger is the function from accounts to account roots.

  The lemmas show that the vote counts and the set of excluded accounts never drift from the
  lists, and relate an incremental history to a rebuild.
\<close>

section \<open>State\<close>

record ExclusionInfo =
  reason :: string
  dateAdded :: string
  voteCount :: nat

record ExclusionManager =
  validatorExclusions :: "(AccountID \<times> AccountID list) list"
  exclusionCounts :: "(AccountID \<times> nat) list"
  consensusExcluded :: "AccountID list"
  exclusionInfoMap :: "(AccountID \<times> ExclusionInfo) list"
  has_fetcher :: bool
  totalValidators :: nat
  em_initialized :: bool

definition new_ExclusionManager :: ExclusionManager where
  "new_ExclusionManager = \<lparr>validatorExclusions = [], exclusionCounts = [], consensusExcluded = [],
     exclusionInfoMap = [], has_fetcher = False, totalValidators = 0, em_initialized = False\<rparr>"

section \<open>Operations\<close>

definition isExcluded :: "ExclusionManager \<Rightarrow> AccountID \<Rightarrow> bool" where
  "isExcluded m account =
     (if \<not> em_initialized m then False else account \<in> set (consensusExcluded m))"

definition getConsensusThreshold :: "ExclusionManager \<Rightarrow> nat" where
  "getConsensusThreshold m =
     (if totalValidators m = 0 then 1
      else let threshold = (totalValidators m * minCONSENSUS_PCT consensusParms + 99) div 100
           in max 1 threshold)"

definition recalculateConsensusExclusions :: "ExclusionManager \<Rightarrow> ExclusionManager" where
  "recalculateConsensusExclusions m =
     (if totalValidators m = 0 then m\<lparr>consensusExcluded := []\<rparr>
      else let threshold = getConsensusThreshold m in
           m\<lparr>consensusExcluded :=
               map fst (filter (\<lambda>(account, count). threshold \<le> count) (exclusionCounts m))\<rparr>)"

definition decrementCount :: "AccountID \<Rightarrow> (AccountID \<times> nat) list \<Rightarrow> (AccountID \<times> nat) list" where
  "decrementCount account counts =
     (case map_of counts account of
        None \<Rightarrow> counts
      | Some n \<Rightarrow> if 1 < n then AList.update account (n - 1) counts else AList.delete account counts)"

definition incrementCount :: "AccountID \<Rightarrow> (AccountID \<times> nat) list \<Rightarrow> (AccountID \<times> nat) list" where
  "incrementCount account counts =
     AList.update account ((case map_of counts account of None \<Rightarrow> 0 | Some n \<Rightarrow> n) + 1) counts"

definition updateValidatorExclusions ::
  "AccountID \<Rightarrow> AccountID list \<Rightarrow> ExclusionManager \<Rightarrow> ExclusionManager" where
  "updateValidatorExclusions validator exclusions m =
     (let oldExclusions = (case map_of (validatorExclusions m) validator of None \<Rightarrow> [] | Some s \<Rightarrow> s);
          ve = (if exclusions = [] then AList.delete validator (validatorExclusions m)
                else AList.update validator exclusions (validatorExclusions m));
          counts = fold incrementCount exclusions (fold decrementCount oldExclusions (exclusionCounts m))
      in recalculateConsensusExclusions
           (m\<lparr>validatorExclusions := ve, totalValidators := length ve, exclusionCounts := counts\<rparr>))"

definition removeValidator :: "AccountID \<Rightarrow> ExclusionManager \<Rightarrow> ExclusionManager" where
  "removeValidator validator m =
     (case map_of (validatorExclusions m) validator of
        None \<Rightarrow> m
      | Some s \<Rightarrow>
          let counts = fold decrementCount s (exclusionCounts m);
              ve = AList.delete validator (validatorExclusions m)
          in recalculateConsensusExclusions
               (m\<lparr>exclusionCounts := counts, validatorExclusions := ve, totalValidators := length ve\<rparr>))"

text \<open>The loop over one account's entries, then over the trusted keys.\<close>

fun rebuild_entries ::
  "AccountID option list \<Rightarrow> AccountID list \<times> (AccountID \<times> nat) list
     \<Rightarrow> AccountID list \<times> (AccountID \<times> nat) list" where
  "rebuild_entries [] acc = acc"
| "rebuild_entries (None # es) acc = rebuild_entries es acc"
| "rebuild_entries (Some a # es) (exclusions, counts) =
     rebuild_entries es (List.insert a exclusions, incrementCount a counts)"

definition rebuild_validator ::
  "(AccountID \<Rightarrow> AccountRoot option) \<Rightarrow> AccountID \<Rightarrow> ExclusionManager \<Rightarrow> ExclusionManager" where
  "rebuild_validator view validatorAccount m =
     (case view validatorAccount of
        None \<Rightarrow> m
      | Some sle \<Rightarrow>
          let m1 = m\<lparr>totalValidators := totalValidators m + 1\<rparr> in
          (case ar_ExclusionList sle of
             None \<Rightarrow> m1
           | Some es \<Rightarrow>
               let (exclusions, counts) = rebuild_entries es ([], exclusionCounts m1);
                   m2 = m1\<lparr>exclusionCounts := counts\<rparr>
               in if exclusions \<noteq> []
                  then m2\<lparr>validatorExclusions :=
                         AList.update validatorAccount exclusions (validatorExclusions m2)\<rparr>
                  else m2))"

definition rebuildCache ::
  "('key \<Rightarrow> AccountID) \<Rightarrow> bool \<Rightarrow> 'key list \<Rightarrow> (AccountID \<Rightarrow> AccountRoot option)
     \<Rightarrow> ExclusionManager \<Rightarrow> ExclusionManager" where
  "rebuildCache calcAccountID featureEnabled trustedKeys view m =
     (if \<not> featureEnabled then m\<lparr>em_initialized := True\<rparr>
      else let m1 = m\<lparr>validatorExclusions := [], exclusionCounts := [], consensusExcluded := [],
                      totalValidators := 0\<rparr>;
               m2 = fold (\<lambda>pubKey. rebuild_validator view (calcAccountID pubKey)) trustedKeys m1;
               m3 = m2\<lparr>totalValidators := length (validatorExclusions m2)\<rparr>
           in (recalculateConsensusExclusions m3)\<lparr>em_initialized := True\<rparr>)"

definition updateExclusionReasons ::
  "(AccountID \<times> ExclusionInfo) list \<Rightarrow> ExclusionManager \<Rightarrow> ExclusionManager" where
  "updateExclusionReasons reasons m =
     m\<lparr>exclusionInfoMap := fold (\<lambda>(account, info). AList.update account info) reasons
                             (exclusionInfoMap m)\<rparr>"

definition setRemoteFetcher :: "bool \<Rightarrow> ExclusionManager \<Rightarrow> ExclusionManager" where
  "setRemoteFetcher present m = m\<lparr>has_fetcher := present\<rparr>"

text \<open>A fetched reason as an \<^verbatim>\<open>ExclusionInfo\<close>; its vote count keeps the default.\<close>

definition info_of_reason :: "AccountID \<times> string \<times> string \<Rightarrow> AccountID \<times> ExclusionInfo" where
  "info_of_reason = (\<lambda>(acct, r, d). (acct, \<lparr>reason = r, dateAdded = d, voteCount = 0\<rparr>))"

definition getExclusionInfo ::
  "Fetcher \<Rightarrow> AccountID \<Rightarrow> ExclusionManager \<Rightarrow> ExclusionInfo option \<times> ExclusionManager" where
  "getExclusionInfo fetcher account m =
     (let m1 = (if has_fetcher m \<and> fst (hasBeenModified False fetcher)
                   \<and> getExclusionReasons fetcher \<noteq> []
                then updateExclusionReasons (map info_of_reason (getExclusionReasons fetcher)) m
                else m);
          count = map_of (exclusionCounts m1) account
      in ((case map_of (exclusionInfoMap m1) account of
             Some info \<Rightarrow> Some (case count of None \<Rightarrow> info | Some n \<Rightarrow> info\<lparr>voteCount := n\<rparr>)
           | None \<Rightarrow>
               (case count of
                  None \<Rightarrow> None
                | Some n \<Rightarrow> Some \<lparr>reason = '''', dateAdded = '''', voteCount = n\<rparr>)),
          m1))"

record ExclusionStats =
  stats_totalValidators :: nat
  stats_totalExcludedAddresses :: nat
  stats_totalUniqueExclusions :: nat

definition getStats :: "ExclusionManager \<Rightarrow> ExclusionStats" where
  "getStats m =
     (let allExclusions = fold (\<lambda>(validator, exclusions). fold List.insert exclusions)
                            (validatorExclusions m) []
      in \<lparr>stats_totalValidators = totalValidators m,
          stats_totalExcludedAddresses = length (consensusExcluded m),
          stats_totalUniqueExclusions = length allExclusions\<rparr>)"

section \<open>Counting\<close>

definition count_of :: "(AccountID \<times> nat) list \<Rightarrow> AccountID \<Rightarrow> nat" where
  "count_of counts a = (case map_of counts a of None \<Rightarrow> 0 | Some n \<Rightarrow> n)"

definition counts_wf :: "(AccountID \<times> nat) list \<Rightarrow> bool" where
  "counts_wf counts \<longleftrightarrow> distinct_keys counts \<and> (\<forall>a. map_of counts a \<noteq> Some 0)"

definition votes_for :: "(AccountID \<times> AccountID list) list \<Rightarrow> AccountID \<Rightarrow> nat" where
  "votes_for ve a = length (filter (\<lambda>(v, s). a \<in> set s) ve)"

lemma counts_wf_change [simp, intro]:
  "counts_wf counts \<Longrightarrow> counts_wf (decrementCount a counts)"
  "counts_wf counts \<Longrightarrow> counts_wf (incrementCount a counts)"
  by (auto simp: counts_wf_def decrementCount_def incrementCount_def
      simp del: map_of_eq_Some_iff split: option.splits)

lemma count_of_decrement:
  "count_of (decrementCount a counts) b = count_of counts b - (if b = a then 1 else 0)"
  by (auto simp: count_of_def decrementCount_def split: option.splits)

lemma count_of_increment:
  "count_of (incrementCount a counts) b = count_of counts b + (if b = a then 1 else 0)"
  by (auto simp: count_of_def incrementCount_def split: option.splits)

lemma counts_wf_fold [simp, intro]:
  "counts_wf counts \<Longrightarrow> counts_wf (fold decrementCount xs counts)"
  "counts_wf counts \<Longrightarrow> counts_wf (fold incrementCount xs counts)"
  by (induction xs arbitrary: counts) auto

lemma count_of_fold_decrement:
  "distinct xs \<Longrightarrow>
     count_of (fold decrementCount xs counts) b = count_of counts b - (if b \<in> set xs then 1 else 0)"
  by (induction xs arbitrary: counts) (auto simp: count_of_decrement)

lemma count_of_fold_increment:
  "distinct xs \<Longrightarrow>
     count_of (fold incrementCount xs counts) b = count_of counts b + (if b \<in> set xs then 1 else 0)"
  by (induction xs arbitrary: counts) (auto simp: count_of_increment)

lemma votes_for_simps [simp]:
  "votes_for [] a = 0"
  "votes_for ((v, s) # ve) a = (if a \<in> set s then 1 else 0) + votes_for ve a"
  by (simp_all add: votes_for_def)

definition old_list :: "AccountID \<Rightarrow> (AccountID \<times> AccountID list) list \<Rightarrow> AccountID list" where
  "old_list v ve = (case map_of ve v of None \<Rightarrow> [] | Some s \<Rightarrow> s)"

lemma old_list_simps [simp]:
  "old_list v [] = []"
  "old_list v ((w, s) # ve) = (if v = w then s else old_list v ve)"
  by (simp_all add: old_list_def)

lemma old_list_notin: "v \<notin> keys ve \<Longrightarrow> old_list v ve = []"
  by (simp add: old_list_def map_of_eq_None [THEN iffD2])

lemma votes_for_delete:
  "distinct_keys ve \<Longrightarrow>
     votes_for (AList.delete v ve) a + (if a \<in> set (old_list v ve) then 1 else 0) = votes_for ve a"
  by (induction ve) (auto simp: delete_notin old_list_notin)

lemma votes_for_update:
  "distinct_keys ve \<Longrightarrow>
     votes_for (AList.update v s ve) a + (if a \<in> set (old_list v ve) then 1 else 0) =
       votes_for ve a + (if a \<in> set s then 1 else 0)"
  by (induction ve) auto

lemma votes_for_card:
  assumes "distinct_keys ve"
  shows "votes_for ve a = card {v. \<exists>s. map_of ve v = Some s \<and> a \<in> set s}"
proof -
  have "{v. \<exists>s. map_of ve v = Some s \<and> a \<in> set s} = fst ` set (filter (\<lambda>(v, s). a \<in> set s) ve)"
    using assms by (force simp: image_iff)
  moreover have "distinct (map fst (filter (\<lambda>(v, s). a \<in> set s) ve))"
    using assms by (simp add: distinct_map_filter)
  then have "card (fst ` set (filter (\<lambda>(v, s). a \<in> set s) ve)) = votes_for ve a"
    using distinct_card [of "map fst (filter (\<lambda>(v, s). a \<in> set s) ve)"] by (simp add: votes_for_def)
  ultimately show ?thesis by simp
qed

lemma card_dom_alist: "distinct_keys ve \<Longrightarrow> length ve = card (dom (map_of ve))"
  by (simp add: dom_map_of_conv_image_fst length_keys)

section \<open>Invariant\<close>

definition lists_wf :: "ExclusionManager \<Rightarrow> bool" where
  "lists_wf m \<longleftrightarrow> distinct_keys (validatorExclusions m)
     \<and> (\<forall>(v, s)\<in>set (validatorExclusions m). distinct s \<and> s \<noteq> [])
     \<and> counts_wf (exclusionCounts m)
     \<and> (\<forall>a. count_of (exclusionCounts m) a = votes_for (validatorExclusions m) a)"

definition em_inv :: "ExclusionManager \<Rightarrow> bool" where
  "em_inv m \<longleftrightarrow> lists_wf m \<and> totalValidators m = length (validatorExclusions m)
     \<and> (\<forall>a. a \<in> set (consensusExcluded m) \<longleftrightarrow>
          validatorExclusions m \<noteq> []
          \<and> 67 * length (validatorExclusions m) \<le> 100 * votes_for (validatorExclusions m) a)"

lemma ceil_threshold: "(n * 67 + 99) div 100 \<le> (c :: nat) \<longleftrightarrow> 67 * n \<le> 100 * c"
proof -
  have "(n * 67 + 99) div 100 < Suc c \<longleftrightarrow> n * 67 + 99 < Suc c * 100"
    by (rule div_less_iff_less_mult) simp
  also have "\<dots> \<longleftrightarrow> 67 * n \<le> 100 * c"
    by auto
  finally show ?thesis
    by (simp only: less_Suc_eq_le)
qed

lemma counted_at_least:
  assumes "distinct_keys counts" and "1 \<le> t"
  shows "a \<in> fst ` {x \<in> set counts. t \<le> snd x} \<longleftrightarrow> t \<le> count_of counts a"
proof (cases "map_of counts a")
  case None
  then have "a \<notin> keys counts" by (simp add: map_of_eq_None)
  then show ?thesis
    using None assms(2) by (auto simp: count_of_def)
next
  case (Some n)
  then have "(a, k) \<in> set counts \<longleftrightarrow> k = n" for k
    using assms(1) by (metis in_set_map_of option.inject)
  then show ?thesis
    using Some by (force simp: count_of_def image_iff)
qed

lemma recalculate_frame [simp]:
  "validatorExclusions (recalculateConsensusExclusions m) = validatorExclusions m"
  "exclusionCounts (recalculateConsensusExclusions m) = exclusionCounts m"
  "totalValidators (recalculateConsensusExclusions m) = totalValidators m"
  "em_initialized (recalculateConsensusExclusions m) = em_initialized m"
  by (simp_all add: recalculateConsensusExclusions_def Let_def)

lemma recalculate_excluded:
  assumes "lists_wf m" and "totalValidators m = length (validatorExclusions m)"
  shows "em_inv (recalculateConsensusExclusions m)"
proof -
  let ?n = "length (validatorExclusions m)"
  have mem: "a \<in> fst ` {x \<in> set (exclusionCounts m). t \<le> snd x} \<longleftrightarrow>
      t \<le> count_of (exclusionCounts m) a" if "1 \<le> t" for a t
    using assms(1) that by (intro counted_at_least) (simp_all add: lists_wf_def counts_wf_def)
  have "a \<in> set (consensusExcluded (recalculateConsensusExclusions m)) \<longleftrightarrow>
      validatorExclusions m \<noteq> [] \<and> 67 * ?n \<le> 100 * votes_for (validatorExclusions m) a" for a
  proof (cases "validatorExclusions m = []")
    case True
    then show ?thesis
      using assms(2) by (simp add: recalculateConsensusExclusions_def)
  next
    case False
    then have t: "getConsensusThreshold m = (?n * 67 + 99) div 100" "1 \<le> (?n * 67 + 99) div 100"
      using assms(2) by (cases "validatorExclusions m"; simp add: getConsensusThreshold_def Let_def)+
    have "a \<in> set (consensusExcluded (recalculateConsensusExclusions m)) \<longleftrightarrow>
        (?n * 67 + 99) div 100 \<le> count_of (exclusionCounts m) a"
      using mem [OF t(2), of a] False assms(2) t(1)
      by (simp add: recalculateConsensusExclusions_def Let_def case_prod_unfold)
    then show ?thesis
      using assms(1) False by (simp add: lists_wf_def ceil_threshold)
  qed
  then show ?thesis
    using assms by (simp add: em_inv_def lists_wf_def)
qed

lemma em_inv_new: "em_inv new_ExclusionManager"
  by (simp add: em_inv_def lists_wf_def new_ExclusionManager_def counts_wf_def count_of_def)

section \<open>Every operation keeps the invariant\<close>

lemma em_inv_update [inv_intros]:
  assumes "em_inv m" and "distinct exclusions"
  shows "em_inv (updateValidatorExclusions v exclusions m)"
proof -
  let ?ve = "validatorExclusions m" and ?c = "exclusionCounts m"
  let ?ve' = "if exclusions = [] then AList.delete v ?ve else AList.update v exclusions ?ve"
  let ?c' = "fold incrementCount exclusions (fold decrementCount (old_list v ?ve) ?c)"
  have wf: "distinct_keys ?ve" "counts_wf ?c" "\<And>a. count_of ?c a = votes_for ?ve a"
    "\<forall>(v, s)\<in>set ?ve. distinct s \<and> s \<noteq> []"
    using assms(1) by (auto simp: em_inv_def lists_wf_def)
  have old: "distinct (old_list v ?ve)"
    using wf(4) by (auto simp: old_list_def split: option.split dest!: map_of_SomeD)
  have sub: "set ?ve' \<subseteq> (if exclusions = [] then {} else {(v, exclusions)}) \<union> set ?ve"
    using set_update_subset [of v exclusions ?ve] by (auto dest: subsetD [OF set_delete_subset])
  have "count_of ?c' a = votes_for ?ve' a" for a
    using votes_for_delete [OF wf(1), of v a] votes_for_update [OF wf(1), of v exclusions a]
    by (auto simp: count_of_fold_increment [OF assms(2)] count_of_fold_decrement [OF old] wf(3)
        split: if_splits)
  moreover have "\<forall>(v, s)\<in>set ?ve'. distinct s \<and> s \<noteq> []"
    using sub wf(4) assms(2) by (auto split: if_splits)
  ultimately show ?thesis
    unfolding updateValidatorExclusions_def Let_def
    using wf by (intro recalculate_excluded) (simp_all add: lists_wf_def old_list_def)
qed

lemma removeValidator_update:
  "removeValidator v m = (if map_of (validatorExclusions m) v = None then m
     else updateValidatorExclusions v [] m)"
  by (cases m) (auto simp: removeValidator_def updateValidatorExclusions_def Let_def)

lemma em_inv_remove [inv_intros]: "em_inv m \<Longrightarrow> em_inv (removeValidator v m)"
  by (simp add: removeValidator_update em_inv_update)

lemma em_inv_frame:
  "em_inv (m\<lparr>exclusionInfoMap := i\<rparr>) = em_inv m" "em_inv (m\<lparr>has_fetcher := b\<rparr>) = em_inv m"
  "em_inv (m\<lparr>em_initialized := b\<rparr>) = em_inv m"
  by (simp_all add: em_inv_def lists_wf_def)

lemma em_inv_others [inv_intros]:
  "em_inv m \<Longrightarrow> em_inv (updateExclusionReasons rs m)"
  "em_inv m \<Longrightarrow> em_inv (setRemoteFetcher b m)"
  "em_inv m \<Longrightarrow> em_inv (snd (getExclusionInfo f a m))"
  by (simp_all add: em_inv_frame updateExclusionReasons_def setRemoteFetcher_def
      getExclusionInfo_def Let_def)

text \<open>Rebuilding: what the ledger promises is that no list names an account twice.\<close>

definition no_duplicates :: "AccountRoot option \<Rightarrow> bool" where
  "no_duplicates sle \<longleftrightarrow>
     (\<forall>ar es a. sle = Some ar \<longrightarrow> ar_ExclusionList ar = Some es \<longrightarrow> count_list es (Some a) \<le> 1)"

lemma rebuild_entries_eq:
  "fst (rebuild_entries es (ex, counts)) = read_entries es ex
   \<and> count_of (snd (rebuild_entries es (ex, counts))) a = count_of counts a + count_list es (Some a)
   \<and> (counts_wf counts \<longrightarrow> counts_wf (snd (rebuild_entries es (ex, counts))))"
proof (induction es arbitrary: ex counts)
  case (Cons e es)
  then show ?case by (cases e) (auto simp: count_of_increment)
qed simp

lemma count_list_le_1: "count_list xs x \<le> 1 \<Longrightarrow> count_list xs x = (if x \<in> set xs then 1 else 0)"
  using count_notin [of x xs] count_list_0_iff [of xs x] by (auto simp: le_Suc_eq)

lemma rebuild_validator_lists:
  "map_of (validatorExclusions (rebuild_validator view v m)) w =
     (if w = v \<and> read_exclusions (view v) \<noteq> [] then Some (read_exclusions (view v))
      else map_of (validatorExclusions m) w)"
proof -
  have r: "fst (rebuild_entries es ([], c)) = read_entries es []" for es c
    using rebuild_entries_eq by blast
  show ?thesis
    by (auto simp: rebuild_validator_def read_exclusions_def Let_def case_prod_unfold r
        split: option.splits)
qed

lemma lists_wf_rebuild_validator:
  assumes "lists_wf m" and "v \<notin> keys (validatorExclusions m)" and "no_duplicates (view v)"
  shows "lists_wf (rebuild_validator view v m)"
proof (cases "\<exists>sle es. view v = Some sle \<and> ar_ExclusionList sle = Some es")
  case False
  then show ?thesis
    using assms(1) by (auto simp: rebuild_validator_def lists_wf_def Let_def split: option.splits)
next
  case True
  then obtain sle es where v: "view v = Some sle" "ar_ExclusionList sle = Some es" by blast
  obtain ex c where r: "rebuild_entries es ([], exclusionCounts m) = (ex, c)" by (metis prod.collapse)
  have e: "ex = read_entries es []" "counts_wf c"
    "count_of c a = count_of (exclusionCounts m) a + count_list es (Some a)" for a
    using rebuild_entries_eq [of es "[]" "exclusionCounts m"] r assms(1) by (auto simp: lists_wf_def)
  have m: "count_of c a = votes_for (validatorExclusions m) a + (if a \<in> set ex then 1 else 0)" for a
    using assms(1,3) v e(3) [of a]
    by (auto simp: no_duplicates_def lists_wf_def e(1) count_list_le_1)
  let ?ve = "validatorExclusions m"
  have up: "votes_for (AList.update v ex ?ve) a = votes_for ?ve a + (if a \<in> set ex then 1 else 0)" for a
    using votes_for_update [of ?ve v ex a] assms(1,2) by (simp add: lists_wf_def old_list_notin)
  have "distinct ex" by (simp add: e(1))
  then show ?thesis
    using assms(1) m up e(2) v r set_update_subset [of v ex ?ve]
    by (auto simp: rebuild_validator_def lists_wf_def Let_def)
qed

lemma rebuild_fold:
  assumes "lists_wf m" and "distinct vs" and "set vs \<inter> keys (validatorExclusions m) = {}"
    and "\<forall>v\<in>set vs. no_duplicates (view v)"
  shows "lists_wf (fold (rebuild_validator view) vs m)
    \<and> map_of (validatorExclusions (fold (rebuild_validator view) vs m)) w =
        (if w \<in> set vs \<and> read_exclusions (view w) \<noteq> [] then Some (read_exclusions (view w))
         else map_of (validatorExclusions m) w)"
  using assms
proof (induction vs arbitrary: m)
  case (Cons v vs)
  let ?m = "rebuild_validator view v m"
  have dom: "x \<in> keys (validatorExclusions ?m) \<Longrightarrow> x = v \<or> x \<in> keys (validatorExclusions m)" for x
    using rebuild_validator_lists [of view v m x]
    by (metis map_of_eq_None)
  have "lists_wf ?m"
    using Cons.prems by (intro lists_wf_rebuild_validator) auto
  moreover have "set vs \<inter> keys (validatorExclusions ?m) = {}"
    using Cons.prems dom by auto
  ultimately show ?case
    using Cons.IH [of ?m] Cons.prems rebuild_validator_lists [of view v m w] by auto
qed simp

lemma rebuildCache_lists:
  assumes "distinct (map calc trusted)" and "\<forall>k\<in>set trusted. no_duplicates (view (calc k))"
  shows "em_inv (rebuildCache calc True trusted view m)"
    and "map_of (validatorExclusions (rebuildCache calc True trusted view m)) w =
      (if w \<in> calc ` set trusted \<and> read_exclusions (view w) \<noteq> [] then Some (read_exclusions (view w))
       else None)"
proof -
  let ?m1 = "m\<lparr>validatorExclusions := [], exclusionCounts := [], consensusExcluded := [],
               totalValidators := 0\<rparr>"
  let ?m2 = "fold (rebuild_validator view) (map calc trusted) ?m1"
  have f: "lists_wf ?m2 \<and> map_of (validatorExclusions ?m2) w =
      (if w \<in> set (map calc trusted) \<and> read_exclusions (view w) \<noteq> []
       then Some (read_exclusions (view w)) else map_of (validatorExclusions ?m1) w)" for w
    using assms by (intro rebuild_fold) (auto simp: lists_wf_def counts_wf_def count_of_def)
  have r: "rebuildCache calc True trusted view m =
      (recalculateConsensusExclusions (?m2\<lparr>totalValidators := length (validatorExclusions ?m2)\<rparr>))
        \<lparr>em_initialized := True\<rparr>"
    by (simp add: rebuildCache_def Let_def fold_map o_def)
  show "em_inv (rebuildCache calc True trusted view m)"
    unfolding r em_inv_frame
    using f by (intro recalculate_excluded) (simp_all add: lists_wf_def)
  show "map_of (validatorExclusions (rebuildCache calc True trusted view m)) w =
      (if w \<in> calc ` set trusted \<and> read_exclusions (view w) \<noteq> [] then Some (read_exclusions (view w))
       else None)"
    unfolding r using f [of w] by simp
qed

lemma em_inv_rebuild [inv_intros]:
  assumes "em_inv m" and "distinct (map calc trusted)"
    and "\<forall>k\<in>set trusted. no_duplicates (view (calc k))"
  shows "em_inv (rebuildCache calc feature trusted view m)"
proof (cases feature)
  case True
  then show ?thesis using rebuildCache_lists(1) [OF assms(2,3)] by simp
qed (use assms(1) in \<open>simp add: rebuildCache_def em_inv_frame\<close>)

text \<open>Every history of the cache.\<close>

inductive em_reach :: "ExclusionManager \<Rightarrow> bool" where
  new: "em_reach new_ExclusionManager"
| update: "em_reach m \<Longrightarrow> distinct exclusions \<Longrightarrow> em_reach (updateValidatorExclusions v exclusions m)"
| remove: "em_reach m \<Longrightarrow> em_reach (removeValidator v m)"
| rebuild: "em_reach m \<Longrightarrow> distinct (map calc (trusted :: PublicKey list)) \<Longrightarrow>
    \<forall>k\<in>set trusted. no_duplicates (view (calc k)) \<Longrightarrow>
    em_reach (rebuildCache calc feature trusted view m)"
| reasons: "em_reach m \<Longrightarrow> em_reach (updateExclusionReasons rs m)"
| set_fetcher: "em_reach m \<Longrightarrow> em_reach (setRemoteFetcher b m)"
| get_info: "em_reach m \<Longrightarrow> em_reach (snd (getExclusionInfo f a m))"

lemma em_reach_inv: "em_reach m \<Longrightarrow> em_inv m"
  by (induction rule: em_reach.induct) (auto intro: inv_intros em_inv_new)

definition voters :: "ExclusionManager \<Rightarrow> AccountID set" where
  "voters m = dom (map_of (validatorExclusions m))"

definition voters_against :: "ExclusionManager \<Rightarrow> AccountID \<Rightarrow> AccountID set" where
  "voters_against m a = {v. \<exists>s. map_of (validatorExclusions m) v = Some s \<and> a \<in> set s}"

lemma isExcluded_quorum:
  assumes "em_inv m"
  shows "isExcluded m a \<longleftrightarrow> em_initialized m \<and> voters m \<noteq> {}
    \<and> 67 * card (voters m) \<le> 100 * card (voters_against m a)"
proof -
  have d: "distinct_keys (validatorExclusions m)"
    using assms by (simp add: em_inv_def lists_wf_def)
  have "card (voters m) = length (validatorExclusions m)"
    "card (voters_against m a) = votes_for (validatorExclusions m) a"
    unfolding voters_def voters_against_def using card_dom_alist [OF d] votes_for_card [OF d] by simp_all
  moreover have "voters m = {} \<longleftrightarrow> validatorExclusions m = []"
    by (simp add: voters_def)
  ultimately show ?thesis
    using assms by (auto simp: isExcluded_def em_inv_def)
qed

section \<open>The contract of an exclusion quorum\<close>

text \<open>
  What the users of the cache rely on: an account is excluded only when a quorum of the validators
  that publish a list names it.
\<close>

locale exclusion_quorum =
  fixes ok :: "'s \<Rightarrow> bool"
    and publishers :: "'s \<Rightarrow> AccountID set"
    and against :: "'s \<Rightarrow> AccountID \<Rightarrow> AccountID set"
    and excluded :: "'s \<Rightarrow> AccountID \<Rightarrow> bool"
  assumes finite_publishers: "finite (publishers s)"
    and against_publishes: "against s a \<subseteq> publishers s"
    and quorum: "ok s \<Longrightarrow> excluded s a \<Longrightarrow>
      publishers s \<noteq> {} \<and> 67 * card (publishers s) \<le> 100 * card (against s a)"
begin

lemma card_publishers_pos: "ok s \<Longrightarrow> excluded s a \<Longrightarrow> 0 < card (publishers s)"
  using quorum finite_publishers by (simp add: card_gt_0_iff)

text \<open>Any two excluded accounts are on a common list: no two disjoint groups can exclude.\<close>

lemma common_publisher:
  assumes "ok s" and "excluded s a" and "excluded s b"
  shows "\<exists>v. v \<in> against s a \<and> v \<in> against s b"
proof (rule ccontr)
  assume "\<not> ?thesis"
  then have "against s a \<inter> against s b = {}" by blast
  then have "card (against s a) + card (against s b) = card (against s a \<union> against s b)"
    using finite_subset [OF against_publishes finite_publishers] by (simp add: card_Un_disjoint)
  also have "\<dots> \<le> card (publishers s)"
    using against_publishes finite_publishers by (intro card_mono) auto
  finally show False
    using quorum [OF assms(1,2)] quorum [OF assms(1,3)] card_publishers_pos [OF assms(1,2)] by linarith
qed

text \<open>Lists of bounded length exclude a bounded number of accounts, by double counting.\<close>

lemma excluded_bounded:
  assumes "ok s" and "\<And>v. v \<in> publishers s \<Longrightarrow> card {a. v \<in> against s a} \<le> k"
    and "\<And>v. v \<in> publishers s \<Longrightarrow> finite {a. v \<in> against s a}"
  shows "67 * card {a. excluded s a} \<le> 100 * k"
proof (cases "finite {a. excluded s a} \<and> {a. excluded s a} \<noteq> {}")
  case True
  let ?E = "{a. excluded s a}" and ?P = "publishers s"
  have "(\<Sum>a\<in>?E. card {v \<in> ?P. v \<in> against s a}) = (\<Sum>v\<in>?P. card {a \<in> ?E. v \<in> against s a})"
    using True finite_publishers by (intro sum_multicount_gen) auto
  also have "\<dots> \<le> (\<Sum>v\<in>?P. k)"
  proof (rule sum_mono)
    fix v assume v: "v \<in> ?P"
    have "card {a \<in> ?E. v \<in> against s a} \<le> card {a. v \<in> against s a}"
      using assms(3) [OF v] by (intro card_mono) auto
    then show "card {a \<in> ?E. v \<in> against s a} \<le> k"
      using assms(2) [OF v] by linarith
  qed
  finally have up: "(\<Sum>a\<in>?E. card (against s a)) \<le> card ?P * k"
    using against_publishes by (simp add: Int_absorb1 Collect_conj_eq)
  have "(\<Sum>a\<in>?E. 67 * card ?P) \<le> (\<Sum>a\<in>?E. 100 * card (against s a))"
    using quorum [OF assms(1)] by (intro sum_mono) auto
  also have "\<dots> = 100 * (\<Sum>a\<in>?E. card (against s a))"
    by (simp add: sum_distrib_left)
  also have "\<dots> \<le> 100 * (card ?P * k)"
    using up by simp
  finally have "card ?P * (67 * card ?E) \<le> card ?P * (100 * k)"
    by (simp only: sum_constant ac_simps of_nat_id)
  moreover have "0 < card ?P"
    using True card_publishers_pos [OF assms(1)] by blast
  ultimately show ?thesis by simp
qed auto

end

interpretation em: exclusion_quorum em_inv voters voters_against isExcluded
proof
  fix m a
  show "finite (voters m)" by (simp add: voters_def)
  show "voters_against m a \<subseteq> voters m" by (auto simp: voters_def voters_against_def)
  show "em_inv m \<Longrightarrow> isExcluded m a \<Longrightarrow>
      voters m \<noteq> {} \<and> 67 * card (voters m) \<le> 100 * card (voters_against m a)"
    by (simp add: isExcluded_quorum)
qed

section \<open>Properties\<close>

text \<open>
  C1. At any point of the cache's life (lists updated, emptied, removed or rebuilt in any order, counters
  incremented and decremented one by one) an account is reported excluded exactly when the cache is
  initialised, some validator publishes a list, and at least 67% of the validators that publish one
  name the account.
\<close>

theorem isExcluded_iff_quorum:
  assumes "em_reach m"
  shows "isExcluded m a \<longleftrightarrow> em_initialized m \<and> voters m \<noteq> {}
    \<and> 67 * card (voters m) \<le> 100 * card (voters_against m a)"
  by (rule isExcluded_quorum [OF em_reach_inv [OF assms]])

definition demo_cache :: ExclusionManager where
  "demo_cache = updateValidatorExclusions 3 [7, 9] (updateValidatorExclusions 2 [7]
     (updateValidatorExclusions 1 [8] (updateValidatorExclusions 1 [7]
       (rebuildCache (\<lambda>k. of_nat (length (k :: PublicKey))) False [] (\<lambda>_. None) new_ExclusionManager))))"

lemma demo_cache_reach: "em_reach demo_cache"
  unfolding demo_cache_def by (intro em_reach.intros) simp_all

lemmas demo_cache_defs = demo_cache_def updateValidatorExclusions_def rebuildCache_def removeValidator_def
  new_ExclusionManager_def recalculateConsensusExclusions_def getConsensusThreshold_def
  incrementCount_def decrementCount_def isExcluded_def Let_def

lemma demo_cache_eval:
  "isExcluded demo_cache 7 = False" "isExcluded (removeValidator 1 demo_cache) 7"
  "em_initialized demo_cache" "map_of (validatorExclusions demo_cache) 3 = Some [7, 9]"
  "isExcluded demo_cache 9 = False"
  by (simp_all add: demo_cache_defs)

theorem isExcluded_iff_quorum_witness:
  "\<not> 67 * card (voters demo_cache) \<le> 100 * card (voters_against demo_cache 7)
   \<and> 67 * card (voters (removeValidator 1 demo_cache))
       \<le> 100 * card (voters_against (removeValidator 1 demo_cache) 7)"
proof -
  have v: "voters demo_cache \<noteq> {}"
    using demo_cache_eval(4) by (auto simp: voters_def simp del: map_of_eq_Some_iff)
  have r: "em_reach (removeValidator 1 demo_cache)"
    by (intro em_reach.intros demo_cache_reach)
  show ?thesis
    using isExcluded_iff_quorum [OF demo_cache_reach, of 7] isExcluded_iff_quorum [OF r, of 7] v
    by (simp add: demo_cache_eval)
qed

text \<open>
  A rebuild from the ledger forgets the past: with the feature enabled, what is excluded
  afterwards depends only on the ledger and the trusted keys. The account is excluded exactly when at
  least 67% of the trusted validators whose account has a non-empty exclusion list name it there
  (provided distinct keys have distinct accounts and no list on the ledger repeats an account).
\<close>

theorem rebuildCache_from_ledger:
  assumes "distinct (map calc trusted)" and "\<forall>k\<in>set trusted. no_duplicates (view (calc k))"
  shows "isExcluded (rebuildCache calc True trusted view m) a \<longleftrightarrow>
    (let listing = {v \<in> calc ` set trusted. list_of_account (view v) \<noteq> {}};
         naming = {v \<in> calc ` set trusted. a \<in> list_of_account (view v)}
     in listing \<noteq> {} \<and> 67 * card listing \<le> 100 * card naming)"
proof -
  let ?m = "rebuildCache calc True trusted view m"
  note l = rebuildCache_lists [OF assms, of m]
  have "read_exclusions (view w) \<noteq> [] \<longleftrightarrow> list_of_account (view w) \<noteq> {}" for w
    by (metis set_read_exclusions set_empty)
  then have "voters ?m = {v \<in> calc ` set trusted. list_of_account (view v) \<noteq> {}}"
    by (auto simp: voters_def dom_def l(2))
  moreover have "voters_against ?m a = {v \<in> calc ` set trusted. a \<in> list_of_account (view v)}"
    unfolding voters_against_def l(2) by (auto split: if_splits simp flip: set_read_exclusions)
  moreover have "em_initialized ?m"
    by (simp add: rebuildCache_def Let_def)
  ultimately show ?thesis
    using isExcluded_quorum [OF l(1), of a] by (simp add: Let_def)
qed

definition demo_account :: "AccountID \<Rightarrow> AccountID list \<Rightarrow> AccountRoot" where
  "demo_account v ex = \<lparr>ar_Account = v, ar_Balance = 0, ar_Sequence = 1, ar_OwnerCount = 0,
     ar_ExclusionList = Some (map Some ex)\<rparr>"

text \<open>
  The share is taken of the validators that publish a list, not of the trusted validators: when
  nobody else publishes one, a single validator's list excludes every account on it, whatever the size
  of the trusted set (the class comment speaks of 67% of the validators in the UNL).
\<close>

theorem single_list_excludes:
  assumes "em_reach m" and "em_initialized m" and "voters m = {}" and "distinct ex" and "a \<in> set ex"
  shows "isExcluded (updateValidatorExclusions v ex m) a"
proof -
  let ?m = "updateValidatorExclusions v ex m"
  have "em_inv ?m"
    using assms by (intro inv_intros em_reach_inv) auto
  moreover have "validatorExclusions m = []"
    using assms(3) by (simp add: voters_def)
  then have "map_of (validatorExclusions ?m) = [v \<mapsto> ex]" "em_initialized ?m"
    using assms(2,5) by (auto simp: updateValidatorExclusions_def Let_def)
  then have "voters ?m = {v}" "voters_against ?m a = {v}" "em_initialized ?m"
    using assms(5) by (auto simp: voters_def voters_against_def split: if_splits)
  ultimately show ?thesis
    by (simp add: isExcluded_quorum)
qed

text \<open>
  \<^verbatim>\<open>getExclusionInfo\<close> reports an account as soon as one validator names it, excluded or not,
  with the number of validators that do as its vote count (its comment says it returns nothing for an account
  that is not excluded).
\<close>

theorem getExclusionInfo_vote_count:
  assumes "em_reach m" and "voters_against m a \<noteq> {}"
  shows "\<exists>info. fst (getExclusionInfo fetcher a m) = Some info
    \<and> voteCount info = card (voters_against m a)"
proof -
  have inv: "lists_wf m"
    using em_reach_inv [OF assms(1)] by (simp add: em_inv_def)
  have "votes_for (validatorExclusions m) a = card (voters_against m a)"
    unfolding voters_against_def using inv by (intro votes_for_card) (simp add: lists_wf_def)
  then have "card (voters_against m a) = count_of (exclusionCounts m) a"
    using inv by (simp add: lists_wf_def)
  moreover have "0 < card (voters_against m a)"
    using assms(2) em.finite_publishers em.against_publishes
    by (metis card_gt_0_iff finite_subset)
  ultimately have "map_of (exclusionCounts m) a = Some (card (voters_against m a))"
    by (auto simp: count_of_def split: option.splits)
  then show ?thesis
    by (auto simp: getExclusionInfo_def Let_def updateExclusionReasons_def split: option.splits)
qed

end
