(* ===== verification/Validator_Exclusions.thy ===== *)
theory Validator_Exclusions
  imports Exclusion_Manager
begin

text \<open>
  A validator's own exclusion changes, \<^verbatim>\<open>src/xrpld/app/misc/ValidatorExclusionManager.cpp\<close>: the
  configured and the remote exclusions are compared with the validator's list on the ledger, the
  differences are queued, and at most one change per ten ledgers is handed out to be put in a
  validation. The manager owns the remote fetcher and writes reasons to the exclusion cache, so
  operations return both.

  The lemmas show that what is handed out is wanted, that nothing is handed out while the fetcher's flags
  say that a remote list is missing, and the rate limit over a whole run. \<open>Exclusion_Votes\<close> follows the changes onto the ledger.
\<close>

section \<open>State\<close>

record ValidatorExclusionManager =
  configuredExclusions :: "AccountID list"
  remoteFetcher :: "Fetcher option"
  pendingChanges :: "(bool \<times> AccountID) list"
  lastChangeLedger :: u32
  vem_initialized :: bool
  validatorAccount :: "AccountID option"

definition CHANGE_INTERVAL :: u32 where
  "CHANGE_INTERVAL = 10"

definition new_ValidatorExclusionManager ::
  "fetch_env \<Rightarrow> AccountID list \<Rightarrow> ExclusionSource list \<Rightarrow> ExclusionManager
     \<Rightarrow> ValidatorExclusionManager \<times> ExclusionManager" where
  "new_ValidatorExclusionManager env configured sources em =
     (let vem = \<lparr>configuredExclusions = configured, remoteFetcher = None, pendingChanges = [],
                 lastChangeLedger = 0, vem_initialized = False, validatorAccount = None\<rparr>
      in if sources \<noteq> []
         then (vem\<lparr>remoteFetcher := Some (start env sources (new_fetcher sources))\<rparr>,
               setRemoteFetcher True em)
         else (vem, em))"

section \<open>Operations\<close>

text \<open>The remote lists can be used: one fetch cycle is complete and all sources were accessible.\<close>

definition fetcher_ready :: "Fetcher option \<Rightarrow> bool" where
  "fetcher_ready rf = (case rf of None \<Rightarrow> True
     | Some f \<Rightarrow> initialFetchComplete f \<and> allSourcesAccessible f)"

definition allExclusions :: "ValidatorExclusionManager \<Rightarrow> AccountID list" where
  "allExclusions vem = (case remoteFetcher vem of
      None \<Rightarrow> configuredExclusions vem
    | Some f \<Rightarrow> fold List.insert (combinedExclusions f) (configuredExclusions vem))"

definition updatePendingChanges ::
  "AccountID list \<Rightarrow> ValidatorExclusionManager \<Rightarrow> ValidatorExclusionManager" where
  "updatePendingChanges currentExclusions vem =
     (if \<not> fetcher_ready (remoteFetcher vem) then vem\<lparr>pendingChanges := []\<rparr>
      else vem\<lparr>pendingChanges :=
             map (Pair True) (filter (\<lambda>a. a \<notin> set currentExclusions) (allExclusions vem))
             @ map (Pair False) (filter (\<lambda>a. a \<notin> set (allExclusions vem)) currentExclusions)\<rparr>)"

definition initialize ::
  "('key \<Rightarrow> AccountID) \<Rightarrow> ('key \<Rightarrow> 'key option) \<Rightarrow> ('key \<Rightarrow> 'key option) \<Rightarrow> bool \<Rightarrow> 'key
     \<Rightarrow> (AccountID \<Rightarrow> AccountRoot option) \<Rightarrow> ValidatorExclusionManager \<Rightarrow> ValidatorExclusionManager" where
  "initialize calcAccountID getTrustedKey getListedKey featureEnabled validatorPubKey view vem =
     (if vem_initialized vem then vem
      else if \<not> featureEnabled then vem\<lparr>vem_initialized := True\<rparr>
      else let masterKey = (case getTrustedKey validatorPubKey of
                              None \<Rightarrow> getListedKey validatorPubKey | Some k \<Rightarrow> Some k);
               keyForAccount = (case masterKey of None \<Rightarrow> validatorPubKey | Some k \<Rightarrow> k);
               account = calcAccountID keyForAccount
           in (updatePendingChanges (read_exclusions (view account))
                 (vem\<lparr>validatorAccount := Some account\<rparr>))\<lparr>vem_initialized := True\<rparr>)"

definition getCurrentExclusionsFromLedger ::
  "(AccountID \<Rightarrow> AccountRoot option) option \<Rightarrow> ValidatorExclusionManager \<Rightarrow> AccountID list" where
  "getCurrentExclusionsFromLedger closedLedger vem =
     (case validatorAccount vem of
        None \<Rightarrow> []
      | Some account \<Rightarrow>
          (case closedLedger of None \<Rightarrow> [] | Some ledger \<Rightarrow> read_exclusions (ledger account)))"

definition updateExclusionManagerReasons ::
  "ValidatorExclusionManager \<Rightarrow> ExclusionManager \<Rightarrow> ExclusionManager" where
  "updateExclusionManagerReasons vem em =
     (case remoteFetcher vem of
        None \<Rightarrow> em
      | Some f \<Rightarrow>
          if getExclusionReasons f = [] then em
          else updateExclusionReasons (map info_of_reason (getExclusionReasons f)) em)"

text \<open>
  The middle part of \<^verbatim>\<open>getExclusionChange\<close>: if the remote list changed, clear its flag, publish
  the reasons and compute the queue anew.
\<close>

definition refreshPending ::
  "(AccountID \<Rightarrow> AccountRoot option) option \<Rightarrow> ValidatorExclusionManager \<Rightarrow> ExclusionManager
     \<Rightarrow> ValidatorExclusionManager \<times> ExclusionManager" where
  "refreshPending closedLedger vem em =
     (case remoteFetcher vem of
        None \<Rightarrow> (vem, em)
      | Some f \<Rightarrow>
          let (modified, f') = hasBeenModified True f;
              vem' = vem\<lparr>remoteFetcher := Some f'\<rparr>
          in if modified
             then (updatePendingChanges (getCurrentExclusionsFromLedger closedLedger vem') vem',
                   if getExclusionReasons f' = [] then em
                   else updateExclusionReasons (map info_of_reason (getExclusionReasons f')) em)
             else (vem', em))"

definition getExclusionChange ::
  "u32 \<Rightarrow> (AccountID \<Rightarrow> AccountRoot option) option \<Rightarrow> ValidatorExclusionManager \<Rightarrow> ExclusionManager
     \<Rightarrow> (AccountID option \<times> AccountID option) option \<times> ValidatorExclusionManager \<times> ExclusionManager" where
  "getExclusionChange ledgerSeq closedLedger vem em =
     (if \<not> vem_initialized vem then (None, vem, em)
      else if \<not> fetcher_ready (remoteFetcher vem) then (None, vem, em)
      else let (vem1, em1) = refreshPending closedLedger vem em in
           if ledgerSeq < lastChangeLedger vem1 + CHANGE_INTERVAL then (None, vem1, em1)
           else (case pendingChanges vem1 of
                   [] \<Rightarrow> (None, vem1, em1)
                 | (isAdd, account) # rest \<Rightarrow>
                     let vem2 = vem1\<lparr>pendingChanges := rest, lastChangeLedger := ledgerSeq\<rparr>
                     in (Some (if isAdd then (Some account, None) else (None, Some account)), vem2, em1)))"

section \<open>The queue\<close>

lemma set_allExclusions:
  "set (allExclusions vem) = set (configuredExclusions vem)
     \<union> (case remoteFetcher vem of None \<Rightarrow> {} | Some f \<Rightarrow> set (combinedExclusions f))"
proof -
  have "set (fold List.insert xs ys) = set ys \<union> set xs" for xs ys :: "AccountID list"
    by (induction xs arbitrary: ys) auto
  then show ?thesis by (auto simp: allExclusions_def split: option.splits)
qed

lemma updatePendingChanges_frame [simp]:
  "configuredExclusions (updatePendingChanges c vem) = configuredExclusions vem"
  "remoteFetcher (updatePendingChanges c vem) = remoteFetcher vem"
  "lastChangeLedger (updatePendingChanges c vem) = lastChangeLedger vem"
  "vem_initialized (updatePendingChanges c vem) = vem_initialized vem"
  "validatorAccount (updatePendingChanges c vem) = validatorAccount vem"
  by (simp_all add: updatePendingChanges_def)

lemma refreshPending_frame [simp]:
  "lastChangeLedger (fst (refreshPending l vem em)) = lastChangeLedger vem"
  "vem_initialized (fst (refreshPending l vem em)) = vem_initialized vem"
  by (simp_all add: refreshPending_def hasBeenModified_def Let_def split: option.splits)

lemma getExclusionChange_cases:
  obtains (skip) "getExclusionChange s l vem em = (None, vem, em)"
    | (wait) "getExclusionChange s l vem em = (None, refreshPending l vem em)"
    | (change) isAdd a rest where "vem_initialized vem" "fetcher_ready (remoteFetcher vem)"
        "lastChangeLedger vem + CHANGE_INTERVAL \<le> s"
        "pendingChanges (fst (refreshPending l vem em)) = (isAdd, a) # rest"
        "getExclusionChange s l vem em =
          (Some (if isAdd then (Some a, None) else (None, Some a)),
           (fst (refreshPending l vem em))\<lparr>pendingChanges := rest, lastChangeLedger := s\<rparr>,
           snd (refreshPending l vem em))"
proof -
  obtain vem1 em1 where r: "refreshPending l vem em = (vem1, em1)" by (cases "refreshPending l vem em")
  have last: "lastChangeLedger vem1 = lastChangeLedger vem"
    using refreshPending_frame(1) [of l vem em] r by simp
  consider "\<not> (vem_initialized vem \<and> fetcher_ready (remoteFetcher vem))"
    | "vem_initialized vem" "fetcher_ready (remoteFetcher vem)"
        "s < lastChangeLedger vem + CHANGE_INTERVAL \<or> pendingChanges vem1 = []"
    | isAdd a rest where "vem_initialized vem" "fetcher_ready (remoteFetcher vem)"
        "lastChangeLedger vem + CHANGE_INTERVAL \<le> s" "pendingChanges vem1 = (isAdd, a) # rest"
    by (cases "pendingChanges vem1"; force simp: not_less)
  then show ?thesis
  proof cases
    case 1
    then show ?thesis by (intro skip) (auto simp: getExclusionChange_def)
  next
    case 2
    then show ?thesis by (intro wait) (auto simp: getExclusionChange_def r last)
  next
    case (3 isAdd a rest)
    then show ?thesis
      by (intro change [of isAdd a rest]) (simp_all add: getExclusionChange_def r last not_less [symmetric])
  qed
qed

lemma getExclusionChange_Some:
  assumes "getExclusionChange s l vem em = (Some c, vem', em')"
  shows "lastChangeLedger vem + CHANGE_INTERVAL \<le> s" "lastChangeLedger vem' = s"
    "vem_initialized vem" "fetcher_ready (remoteFetcher vem)"
    "\<exists>isAdd a rest. pendingChanges (fst (refreshPending l vem em)) = (isAdd, a) # rest
       \<and> c = (if isAdd then (Some a, None) else (None, Some a)) \<and> pendingChanges vem' = rest"
  using assms by (cases rule: getExclusionChange_cases [of s l vem em]; auto)+

lemma getExclusionChange_None:
  assumes "getExclusionChange s l vem em = (None, vem', em')"
  shows "lastChangeLedger vem' = lastChangeLedger vem"
  using assms refreshPending_frame(1) [of l vem em]
  by (cases rule: getExclusionChange_cases [of s l vem em]) auto

section \<open>A run of validations\<close>

text \<open>
  The validator asks for a change at a series of ledgers; between two questions anything may happen
  to the rest of the state (the function argument), but the last change is only written here.
\<close>

fun change_run ::
  "(u32 \<times> (AccountID \<Rightarrow> AccountRoot option) option
      \<times> (ValidatorExclusionManager \<Rightarrow> ValidatorExclusionManager)) list
     \<Rightarrow> ValidatorExclusionManager \<Rightarrow> ExclusionManager \<Rightarrow> u32 list" where
  "change_run [] vem em = []"
| "change_run ((s, l, g) # qs) vem em =
     (case getExclusionChange s l vem em of
        (None, vem', em') \<Rightarrow> change_run qs (g vem') em'
      | (Some _, vem', em') \<Rightarrow> s # change_run qs (g vem') em')"

lemma change_run_gaps:
  assumes "\<forall>(s, l, g)\<in>set qs. unat s < 2 ^ 32 - 10 \<and> (\<forall>x. lastChangeLedger (g x) = lastChangeLedger x)"
    and "unat (lastChangeLedger vem) < 2 ^ 32 - 10"
  shows "successively (\<lambda>a b. unat a + 10 \<le> unat b) (lastChangeLedger vem # change_run qs vem em)"
  using assms
proof (induction qs arbitrary: vem em)
  case (Cons q qs)
  obtain s l g where q: "q = (s, l, g)" by (metis prod_cases3)
  obtain r vem' em' where e: "getExclusionChange s l vem em = (r, vem', em')" by (metis prod_cases3)
  show ?case
  proof (cases r)
    case None
    then show ?thesis
      using Cons.IH [of "g vem'" em'] Cons.prems getExclusionChange_None [of s l vem em vem' em'] q e
      by simp
  next
    case (Some c)
    note ch = getExclusionChange_Some [of s l vem em c vem' em', unfolded e Some, OF refl]
    have "unat (lastChangeLedger vem + CHANGE_INTERVAL) = unat (lastChangeLedger vem) + 10"
      using Cons.prems(2) by (subst unat_add_lem [THEN iffD1]) (simp_all add: CHANGE_INTERVAL_def)
    then have "unat (lastChangeLedger vem) + 10 \<le> unat s"
      using ch(1) by (simp add: word_le_nat_alt)
    then show ?thesis
      using Cons.IH [of "g vem'" em'] Cons.prems ch(2) q e Some by simp
  qed
qed simp

section \<open>Queued changes are wanted\<close>

text \<open>
  How a step of the fetcher may change what the manager wants: whenever the combined set changes, the
  modification flag is up afterwards, and no step of the fetcher takes the flag down.
\<close>

definition announced :: "Fetcher \<Rightarrow> Fetcher \<Rightarrow> bool" where
  "announced f f' \<longleftrightarrow> (hasModifications f \<longrightarrow> hasModifications f')
     \<and> (hasModifications f' \<or> set (combinedExclusions f') = set (combinedExclusions f))"

definition quiet_start :: "Fetcher \<Rightarrow> bool" where
  "quiet_start f \<longleftrightarrow> initialFetchComplete f \<or> combinedExclusions f = []"

lemma announced_refl [simp]: "announced f f"
  by (simp add: announced_def)

lemma announced_trans: "announced f g \<Longrightarrow> announced g h \<Longrightarrow> announced f h"
  by (auto simp: announced_def)

lemma announced_frame:
  "combinedExclusions g = combinedExclusions f \<Longrightarrow> hasModifications g = hasModifications f \<Longrightarrow>
     announced f g"
  by (simp add: announced_def)

lemma announced_complete:
  assumes "quiet_start f"
  shows "announced f (onAllFetchesComplete sources f)" "quiet_start (onAllFetchesComplete sources f)"
  using assms
  by (auto simp: announced_def quiet_start_def onAllFetchesComplete_def updateCombinedExclusions_def
      Let_def split: prod.splits)

lemma set_failed_frame [simp]:
  "combinedExclusions (set_failed i m f) = combinedExclusions f"
  "hasModifications (set_failed i m f) = hasModifications f"
  "initialFetchComplete (set_failed i m f) = initialFetchComplete f"
  by (simp_all add: set_failed_def)

lemma announced_deliver:
  assumes "quiet_start f"
  shows "announced f (deliver env sources (i, r) f) \<and> quiet_start (deliver env sources (i, r) f)"
proof -
  let ?f = "record_response env sources (i, r) f"
  have "quiet_start ?f" "announced f ?f"
    using assms by (auto simp: quiet_start_def record_response_def announced_def)
  then show ?thesis
    using announced_complete [of ?f sources] announced_trans [of f ?f]
    by (auto simp: deliver_eq checkAllFetchesComplete_def)
qed

lemma announced_fetchFromSource:
  assumes "quiet_start f"
  shows "announced f (fetchFromSource env sources i f) \<and> quiet_start (fetchFromSource env sources i f)"
proof -
  have q: "quiet_start (set_failed i w f)" "announced f (set_failed i w f)" for w
    using assms by (simp_all add: quiet_start_def announced_frame)
  have "announced f (onAllFetchesComplete sources (set_failed i w f))"
    "quiet_start (onAllFetchesComplete sources (set_failed i w f))" for w
    using announced_complete [OF q(1) [of w], of sources] q(2) announced_trans by blast+
  then show ?thesis
    using q assms by (auto simp: fetchFromSource_def Let_def split: sum.split)
qed

lemma announced_fetchAll:
  assumes "quiet_start f"
  shows "announced f (fetchAllLists env sources f) \<and> quiet_start (fetchAllLists env sources f)"
proof -
  have fold: "announced g (fold (fetchFromSource env sources) is g)
      \<and> quiet_start (fold (fetchFromSource env sources) is g)" if "quiet_start g" for "is" g
    using that
  proof (induction "is" arbitrary: g)
    case (Cons i "is")
    then show ?case
      using announced_fetchFromSource [OF Cons.prems, of env sources i] announced_trans by auto
  qed simp
  let ?g = "f\<lparr>fetching := True, fetchResults := replicate (length sources) empty_result\<rparr>"
  have "quiet_start ?g" "announced f ?g"
    using assms by (simp_all add: quiet_start_def announced_frame)
  then show ?thesis
    using fold [of ?g "[0..<length sources]"] announced_trans [of f ?g] assms
    by (auto simp: fetchAllLists_def)
qed

text \<open>The steps of the owned fetcher between two operations of the manager.\<close>

inductive fetch_step :: "fetch_env \<Rightarrow> ExclusionSource list \<Rightarrow> Fetcher \<Rightarrow> Fetcher \<Rightarrow> bool"
  for env sources where
  timer: "fetch_step env sources f (onTimer env sources f)"
| response: "fetch_step env sources f (deliver env sources (i, r) f)"
| stop: "fetch_step env sources f (stop f)"

lemma fetch_step_announced:
  assumes "fetch_step env sources f f'" and "quiet_start f"
  shows "announced f f' \<and> quiet_start f'"
  using assms(1)
proof cases
  case timer
  then show ?thesis
    using announced_fetchAll [OF assms(2), of env sources] assms(2) by (simp add: onTimer_def)
next
  case (response i r)
  then show ?thesis using announced_deliver [OF assms(2)] by simp
next
  case stop
  then show ?thesis
    using assms(2) by (simp add: stop_def quiet_start_def announced_frame)
qed

definition vem_inv :: "ValidatorExclusionManager \<Rightarrow> bool" where
  "vem_inv vem \<longleftrightarrow>
     (case remoteFetcher vem of None \<Rightarrow> True | Some f \<Rightarrow> quiet_start f)
     \<and> ((\<exists>f. remoteFetcher vem = Some f \<and> hasModifications f)
        \<or> (\<forall>(isAdd, a)\<in>set (pendingChanges vem). isAdd \<longleftrightarrow> a \<in> set (allExclusions vem)))"

lemma pending_wanted:
  "\<forall>(isAdd, a)\<in>set (pendingChanges (updatePendingChanges c vem)). isAdd \<longleftrightarrow> a \<in> set (allExclusions vem)"
  by (auto simp: updatePendingChanges_def)

lemma allExclusions_frame [simp]:
  "allExclusions (updatePendingChanges c vem) = allExclusions vem"
  "allExclusions (vem\<lparr>pendingChanges := p\<rparr>) = allExclusions vem"
  "allExclusions (vem\<lparr>lastChangeLedger := s\<rparr>) = allExclusions vem"
  "allExclusions (vem\<lparr>vem_initialized := b\<rparr>) = allExclusions vem"
  "allExclusions (vem\<lparr>validatorAccount := v\<rparr>) = allExclusions vem"
  by (simp_all add: allExclusions_def split: option.split)

lemma vem_inv_frame:
  "vem_inv (vem\<lparr>vem_initialized := b\<rparr>) = vem_inv vem"
  "vem_inv (vem\<lparr>validatorAccount := v\<rparr>) = vem_inv vem"
  by (simp_all add: vem_inv_def)

lemma vem_inv_updatePending: "vem_inv vem \<Longrightarrow> vem_inv (updatePendingChanges c vem)"
  using pending_wanted [of c vem] by (simp add: vem_inv_def)

lemma vem_inv_initialize: "vem_inv vem \<Longrightarrow> vem_inv (initialize calc gt gl feature k view vem)"
  by (simp add: initialize_def Let_def vem_inv_frame vem_inv_updatePending)

lemma vem_inv_fetch:
  assumes "vem_inv vem" and "remoteFetcher vem = Some f" and "fetch_step env sources f f'"
  shows "vem_inv (vem\<lparr>remoteFetcher := Some f'\<rparr>)"
  using assms(1,2) fetch_step_announced [OF assms(3)]
  by (auto simp: vem_inv_def announced_def set_allExclusions)

lemma refreshPending_wanted:
  assumes "vem_inv vem"
  shows "\<forall>(isAdd, a)\<in>set (pendingChanges (fst (refreshPending l vem em))).
      isAdd \<longleftrightarrow> a \<in> set (allExclusions vem)"
    and "allExclusions (fst (refreshPending l vem em)) = allExclusions vem"
    and "vem_inv (fst (refreshPending l vem em))"
proof -
  show all: "allExclusions (fst (refreshPending l vem em)) = allExclusions vem"
    by (auto simp: refreshPending_def hasBeenModified_def allExclusions_def Let_def split: option.splits)
  show pw: "\<forall>(isAdd, a)\<in>set (pendingChanges (fst (refreshPending l vem em))).
      isAdd \<longleftrightarrow> a \<in> set (allExclusions vem)"
  proof (cases "remoteFetcher vem")
    case None
    then show ?thesis using assms by (simp add: refreshPending_def vem_inv_def)
  next
    case (Some f)
    let ?v = "vem\<lparr>remoteFetcher := Some (f\<lparr>hasModifications := False\<rparr>)\<rparr>"
    have "allExclusions ?v = allExclusions vem"
      by (simp add: allExclusions_def Some)
    then show ?thesis
      using assms Some pending_wanted [of _ ?v]
      by (cases "hasModifications f")
         (auto simp: refreshPending_def hasBeenModified_def vem_inv_def Let_def)
  qed
  have "case remoteFetcher (fst (refreshPending l vem em)) of None \<Rightarrow> True | Some f \<Rightarrow> quiet_start f"
    using assms
    by (auto simp: refreshPending_def hasBeenModified_def vem_inv_def Let_def quiet_start_def
        split: option.splits)
  with pw all show "vem_inv (fst (refreshPending l vem em))"
    by (simp add: vem_inv_def)
qed

lemma vem_inv_change:
  assumes "vem_inv vem"
  shows "vem_inv (fst (snd (getExclusionChange s l vem em)))"
proof (cases rule: getExclusionChange_cases [of s l vem em])
  case (change isAdd a rest)
  then show ?thesis
    using refreshPending_wanted [OF assms, of l em] by (auto simp: vem_inv_def)
qed (use assms refreshPending_wanted(3) [OF assms, of l em] in simp_all)

text \<open>Every history of the manager.\<close>

inductive vem_reach :: "fetch_env \<Rightarrow> ExclusionSource list \<Rightarrow> ValidatorExclusionManager \<Rightarrow> bool"
  for env sources where
  new: "vem_reach env sources (fst (new_ValidatorExclusionManager env configured sources em))"
| init: "vem_reach env sources vem \<Longrightarrow>
    vem_reach env sources (initialize calc getTrusted getListed feature (key :: PublicKey) view vem)"
| fetch: "vem_reach env sources vem \<Longrightarrow> remoteFetcher vem = Some f \<Longrightarrow> fetch_step env sources f f' \<Longrightarrow>
    vem_reach env sources (vem\<lparr>remoteFetcher := Some f'\<rparr>)"
| change: "vem_reach env sources vem \<Longrightarrow>
    vem_reach env sources (fst (snd (getExclusionChange seq closed vem em)))"

lemma vem_inv_new: "vem_inv (fst (new_ValidatorExclusionManager env configured sources em))"
proof -
  have "quiet_start ((new_fetcher sources)\<lparr>running := True, stopping := False\<rparr>)"
    "quiet_start (new_fetcher sources)"
    by (simp_all add: quiet_start_def new_fetcher_def)
  then have "quiet_start (start env sources (new_fetcher sources))"
    using announced_fetchAll by (auto simp: start_def)
  then show ?thesis
    by (simp add: vem_inv_def new_ValidatorExclusionManager_def Let_def)
qed

lemma vem_reach_inv: "vem_reach env sources vem \<Longrightarrow> vem_inv vem"
  by (induction rule: vem_reach.induct)
     (auto intro: vem_inv_new vem_inv_initialize vem_inv_fetch vem_inv_change)

lemma allExclusions_distinct:
  assumes "distinct (configuredExclusions vem)"
  shows "distinct (allExclusions vem)"
proof -
  have "distinct ys \<Longrightarrow> distinct (fold List.insert xs ys)" for xs ys :: "AccountID list"
    by (induction xs arbitrary: ys) auto
  with assms show ?thesis by (auto simp: allExclusions_def split: option.split)
qed

section \<open>Properties\<close>

definition demo_vem :: ValidatorExclusionManager where
  "demo_vem = fst (new_ValidatorExclusionManager demo_env [7, 8] [] new_ExclusionManager)"

lemma demo_vem_simps [simp]:
  "remoteFetcher demo_vem = None" "configuredExclusions demo_vem = [7, 8]"
  "lastChangeLedger demo_vem = 0" "vem_initialized demo_vem = False" "pendingChanges demo_vem = []"
  by (simp_all add: demo_vem_def new_ValidatorExclusionManager_def)

text \<open>
  C34. A change that is handed out is wanted at that moment: at any point of the manager's life, if \<^verbatim>\<open>getExclusionChange\<close> returns a
  change then an addition is of an account in the wanted set and a removal is of an account outside it, even if the remote
  lists changed after the change was queued, and the flags of the remote fetcher (if there is one) say that a fetch was completed and
  that all sources are accessible. The flags are what the last successful cycle left: a later cycle in which every
  source fails does not lower them.
\<close>

theorem handed_out_change_is_wanted:
  assumes "vem_reach env sources vem" and "getExclusionChange seq closed vem em = (Some c, vem', em')"
  shows "fetcher_ready (remoteFetcher vem)
    \<and> (\<exists>a. c = (Some a, None) \<and> a \<in> set (allExclusions vem)
         \<or> c = (None, Some a) \<and> a \<notin> set (allExclusions vem))"
proof -
  note ch = getExclusionChange_Some [OF assms(2)]
  obtain isAdd a rest where
    "pendingChanges (fst (refreshPending closed vem em)) = (isAdd, a) # rest"
    "c = (if isAdd then (Some a, None) else (None, Some a))"
    using ch(5) by blast
  then show ?thesis
    using refreshPending_wanted(1) [OF vem_reach_inv [OF assms(1)], of closed em] ch(4) by auto
qed

definition demo_ledger :: "AccountID \<Rightarrow> AccountRoot option" where
  "demo_ledger = [1 \<mapsto> demo_account 1 [8, 9]]"

definition demo_vem1 :: ValidatorExclusionManager where
  "demo_vem1 = initialize (\<lambda>_. 1) Some (\<lambda>_. None) True ([] :: PublicKey) demo_ledger demo_vem"

lemma demo_vem1_simps:
  "remoteFetcher demo_vem1 = None" "vem_initialized demo_vem1" "lastChangeLedger demo_vem1 = 0"
  "pendingChanges demo_vem1 = [(True, 7), (False, 9)]"
  by (simp_all add: demo_vem1_def initialize_def Let_def updatePendingChanges_def fetcher_ready_def
      allExclusions_def demo_ledger_def demo_account_def read_exclusions_def)

theorem handed_out_change_is_wanted_witness:
  "fst (getExclusionChange 10 None demo_vem1 new_ExclusionManager) = Some (Some 7, None)
   \<and> 7 \<in> set (allExclusions demo_vem1)"
proof -
  have e: "getExclusionChange 10 None demo_vem1 new_ExclusionManager =
      (Some (Some 7, None), demo_vem1\<lparr>pendingChanges := [(False, 9)], lastChangeLedger := 10\<rparr>,
       new_ExclusionManager)"
    by (simp add: getExclusionChange_def demo_vem1_simps fetcher_ready_def refreshPending_def
        CHANGE_INTERVAL_def Let_def)
  have r: "vem_reach demo_env [] demo_vem1"
    unfolding demo_vem1_def demo_vem_def by (intro vem_reach.intros)
  show ?thesis
    using handed_out_change_is_wanted [OF r e] e by simp
qed

text \<open>
  The rate limit: over any run of questions at ledgers below the end of the 32-bit sequence, whatever happens
  to the manager in between, two ledgers at which a change is handed out are at least ten apart,
  and the first one is at ledger ten or later.
\<close>

theorem changes_rate_limited:
  assumes "\<forall>(s, l, g)\<in>set qs. unat s < 2 ^ 32 - 10 \<and> (\<forall>x. lastChangeLedger (g x) = lastChangeLedger x)"
    and "lastChangeLedger vem = 0"
  shows "successively (\<lambda>a b. unat a + 10 \<le> unat b) (0 # change_run qs vem em)"
  using change_run_gaps [OF assms(1), of vem em] assms(2) by simp

end
