(* ===== verification/Ledger_Ancestry.thy ===== *)
theory Ledger_Ancestry
  imports Prelude
begin

text \<open>
  Ledgers and their ancestry, as the validation code sees them.

  \<^item> \<open>LedgerOps\<close> is the template parameter \<^verbatim>\<open>Ledger\<close> of \<^verbatim>\<open>LedgerTrie\<close> and \<^verbatim>\<open>Validations\<close>: the sequence
    number, the identifier, the identifier of an ancestor (\<^verbatim>\<open>operator[]\<close>), the first possible
    mismatch of two ledgers, and the genesis ledger.
  \<^item> \<open>RCLValidatedLedger\<close> is the class of that name of \<^verbatim>\<open>RCLValidations.cpp\<close>, which instantiates it:
    a ledger with the hashes of its last (at most 256) ancestors.
  \<^item> The locale \<open>ledger_history\<close> states what \<^verbatim>\<open>LedgerTrie.h\<close> requires of the parameter: ledgers that
    agree at a sequence number agree on all earlier ones. In terms of the first mismatch this is
    the ultrametric inequality. The requirement is relative to a set of ledgers, because a
    \<^verbatim>\<open>RCLValidatedLedger\<close> satisfies it only while the ledgers share an ancestor all of them know:
    this is the interpretation \<open>rcl\<close>.

  Sequence numbers are \<open>nat\<close>: the code's 32-bit numbers count ledgers and stay far from the
  wrap-around.
\<close>

record ('l, 'id) LedgerOps =
  op_seq :: "'l \<Rightarrow> nat"
  op_id :: "'l \<Rightarrow> 'id"
  op_ancestor :: "'l \<Rightarrow> nat \<Rightarrow> 'id"
  op_mismatch :: "'l \<Rightarrow> 'l \<Rightarrow> nat"
  op_genesis :: 'l

section \<open>Validated ledgers\<close>

record RCLValidatedLedger =
  ledgerID :: uint256
  ledgerSeq :: nat
  ancestors :: "uint256 list"

definition MakeGenesis :: RCLValidatedLedger where
  "MakeGenesis = \<lparr>ledgerID = 0, ledgerSeq = 0, ancestors = []\<rparr>"

definition new_RCLValidatedLedger :: "uint256 \<Rightarrow> nat \<Rightarrow> uint256 list option \<Rightarrow> RCLValidatedLedger" where
  "new_RCLValidatedLedger hash seq hashIndex =
     \<lparr>ledgerID = hash, ledgerSeq = seq,
      ancestors = (case hashIndex of None \<Rightarrow> [] | Some hashes \<Rightarrow> hashes)\<rparr>"

definition minSeq :: "RCLValidatedLedger \<Rightarrow> nat" where
  "minSeq l = ledgerSeq l - min (ledgerSeq l) (length (ancestors l))"

definition ancestor_id :: "RCLValidatedLedger \<Rightarrow> nat \<Rightarrow> uint256" where
  "ancestor_id l s =
     (if minSeq l \<le> s \<and> s \<le> ledgerSeq l
      then if s = ledgerSeq l then ledgerID l
           else let d = ledgerSeq l - s in ancestors l ! (length (ancestors l) - d)
      else 0)"

fun mismatch_loop :: "RCLValidatedLedger \<Rightarrow> RCLValidatedLedger \<Rightarrow> nat \<Rightarrow> nat \<Rightarrow> nat" where
  "mismatch_loop a b lower 0 = 0"
| "mismatch_loop a b lower (Suc c) =
     (if ancestor_id a (Suc c) \<noteq> ancestor_id b (Suc c) \<and> lower \<le> Suc c
      then mismatch_loop a b lower c else Suc c)"

definition mismatch :: "RCLValidatedLedger \<Rightarrow> RCLValidatedLedger \<Rightarrow> nat" where
  "mismatch a b =
     (let lower = max (minSeq a) (minSeq b);
          upper = min (ledgerSeq a) (ledgerSeq b);
          curr = mismatch_loop a b lower upper
      in if curr < lower then 1 else curr + 1)"

definition rcl_ops :: "(RCLValidatedLedger, uint256) LedgerOps" where
  "rcl_ops = \<lparr>op_seq = ledgerSeq, op_id = ledgerID, op_ancestor = ancestor_id,
              op_mismatch = mismatch, op_genesis = MakeGenesis\<rparr>"

section \<open>The contract of ledgers with a unique history\<close>

text \<open>A ledger is an ancestor of another, or equal to it, if they agree up to its own number.\<close>

definition ancestor_of :: "('l, 'id) LedgerOps \<Rightarrow> 'l \<Rightarrow> 'l \<Rightarrow> bool" where
  "ancestor_of ops a b \<longleftrightarrow> op_mismatch ops a b = op_seq ops a + 1"

definition same_ledger :: "('l, 'id) LedgerOps \<Rightarrow> 'l \<Rightarrow> 'l \<Rightarrow> bool" where
  "same_ledger ops a b \<longleftrightarrow> ancestor_of ops a b \<and> op_seq ops a = op_seq ops b"

locale ledger_history =
  fixes ops :: "('l, 'id :: linorder) LedgerOps" and U :: "'l set"
  assumes genesis_U: "op_genesis ops \<in> U"
    and genesis_seq: "op_seq ops (op_genesis ops) = 0"
    and mismatch_sym: "a \<in> U \<Longrightarrow> b \<in> U \<Longrightarrow> op_mismatch ops a b = op_mismatch ops b a"
    and mismatch_self: "a \<in> U \<Longrightarrow> op_mismatch ops a a = op_seq ops a + 1"
    and mismatch_le: "a \<in> U \<Longrightarrow> b \<in> U \<Longrightarrow> op_mismatch ops a b \<le> op_seq ops a + 1"
    and mismatch_pos: "a \<in> U \<Longrightarrow> b \<in> U \<Longrightarrow> 1 \<le> op_mismatch ops a b"
    and mismatch_ultra: "a \<in> U \<Longrightarrow> b \<in> U \<Longrightarrow> c \<in> U \<Longrightarrow>
          min (op_mismatch ops a b) (op_mismatch ops b c) \<le> op_mismatch ops a c"
    and id_genesis: "a \<in> U \<Longrightarrow>
          op_id ops a = op_ancestor ops (op_genesis ops) 0 \<longleftrightarrow> op_seq ops a = 0"
    and id_ancestor: "a \<in> U \<Longrightarrow> b \<in> U \<Longrightarrow> c \<in> U \<Longrightarrow> 1 \<le> p \<Longrightarrow> p + 1 = op_mismatch ops b c \<Longrightarrow>
          op_id ops a = op_ancestor ops b p \<longleftrightarrow> op_seq ops a = p \<and> op_mismatch ops a b = p + 1"
begin

abbreviation mm :: "'l \<Rightarrow> 'l \<Rightarrow> nat" where "mm \<equiv> op_mismatch ops"

abbreviation sq :: "'l \<Rightarrow> nat" where "sq \<equiv> op_seq ops"

lemma mismatch_le2: "a \<in> U \<Longrightarrow> b \<in> U \<Longrightarrow> mm a b \<le> sq b + 1"
  using mismatch_le [of b a] mismatch_sym [of a b] by simp

lemma mismatch_trans: "a \<in> U \<Longrightarrow> b \<in> U \<Longrightarrow> c \<in> U \<Longrightarrow> e \<le> mm a b \<Longrightarrow> e \<le> mm b c \<Longrightarrow> e \<le> mm a c"
  using mismatch_ultra [of a b c] by linarith

text \<open>Of three ledgers, two pairs mismatch at the same, smallest place.\<close>

lemma mismatch_isosceles:
  assumes "a \<in> U" "b \<in> U" "c \<in> U" and "mm a b < mm b c"
  shows "mm a c = mm a b"
proof -
  have "mm a b \<le> mm a c"
    using mismatch_ultra [OF assms(1-3)] assms(4) by simp
  moreover have "min (mm a c) (mm c b) \<le> mm a b"
    using mismatch_ultra [of a c b] assms(1-3) by simp
  ultimately show ?thesis
    using assms(4) mismatch_sym [of b c] assms(2,3) by simp
qed

lemma ancestor_of_refl: "a \<in> U \<Longrightarrow> ancestor_of ops a a"
  by (simp add: ancestor_of_def mismatch_self)

lemma ancestor_of_seq: "a \<in> U \<Longrightarrow> b \<in> U \<Longrightarrow> ancestor_of ops a b \<Longrightarrow> sq a \<le> sq b"
  using mismatch_le2 [of a b] by (simp add: ancestor_of_def)

lemma ancestor_of_trans:
  assumes "a \<in> U" "b \<in> U" "c \<in> U" "ancestor_of ops a b" "ancestor_of ops b c"
  shows "ancestor_of ops a c"
proof -
  have "sq a + 1 \<le> mm b c"
    using ancestor_of_seq [OF assms(1,2,4)] assms(5) by (simp add: ancestor_of_def)
  then show ?thesis
    using mismatch_trans [OF assms(1-3), of "sq a + 1"] mismatch_le [OF assms(1,3)] assms(4)
    by (simp add: ancestor_of_def)
qed

end

section \<open>Validated ledgers satisfy the contract\<close>

text \<open>
  The ledgers of a hash-linked chain of which all know the ancestor number \<open>base\<close>: \<open>parent\<close> gives the parent
  hash that the header behind a hash contains, \<open>number\<close> its sequence number.
\<close>

definition known_chain ::
  "(uint256 \<Rightarrow> uint256) \<Rightarrow> (uint256 \<Rightarrow> nat) \<Rightarrow> nat \<Rightarrow> uint256 \<Rightarrow> RCLValidatedLedger \<Rightarrow> bool" where
  "known_chain parent number base h l \<longleftrightarrow>
     0 < base \<and> number 0 = 0 \<and> minSeq l \<le> base \<and> base \<le> ledgerSeq l \<and> ancestor_id l base = h
     \<and> (\<forall>s. minSeq l < s \<and> s \<le> ledgerSeq l \<longrightarrow> parent (ancestor_id l s) = ancestor_id l (s - 1))
     \<and> (\<forall>s. minSeq l \<le> s \<and> s \<le> ledgerSeq l \<longrightarrow> number (ancestor_id l s) = s)"

lemma mismatch_loop_spec:
  assumes "lower \<le> base" "base \<le> n" "ancestor_id a base = ancestor_id b base"
  shows "base \<le> mismatch_loop a b lower n \<and> mismatch_loop a b lower n \<le> n
     \<and> ancestor_id a (mismatch_loop a b lower n) = ancestor_id b (mismatch_loop a b lower n)
     \<and> (\<forall>s. mismatch_loop a b lower n < s \<and> s \<le> n \<longrightarrow> ancestor_id a s \<noteq> ancestor_id b s)"
  using assms(2)
proof (induction n)
  case 0
  then show ?case using assms(3) by auto
next
  case (Suc n)
  show ?case
  proof (cases "ancestor_id a (Suc n) = ancestor_id b (Suc n)")
    case True
    then show ?thesis using Suc.prems by auto
  next
    case False
    then have "base \<le> n" using assms(3) Suc.prems by (metis le_SucE)
    with Suc.IH False Suc.prems assms(1) show ?thesis
      by (auto simp: le_Suc_eq)
  qed
qed

lemma known_chain_agree_down:
  assumes "known_chain parent number base h a" "known_chain parent number base h b"
    and "ancestor_id a (s + k) = ancestor_id b (s + k)" "base \<le> s" "s + k \<le> ledgerSeq a" "s + k \<le> ledgerSeq b"
  shows "ancestor_id a s = ancestor_id b s"
  using assms(3,5,6)
proof (induction k)
  case (Suc k)
  have "parent (ancestor_id x (s + Suc k)) = ancestor_id x (s + k)"
    if "known_chain parent number base h x" "s + Suc k \<le> ledgerSeq x" for x
    using that assms(4) unfolding known_chain_def
    by (metis add_Suc_right add_diff_cancel_left' le_add1 le_trans le_imp_less_Suc plus_1_eq_Suc)
  then show ?case
    using Suc assms(1,2) by (metis Suc_leD add_Suc_right)
qed simp

lemma mismatch_known_chain:
  assumes "known_chain parent number base h a" "known_chain parent number base h b"
  shows "base < mismatch a b" "mismatch a b \<le> min (ledgerSeq a) (ledgerSeq b) + 1"
    and "\<And>s. base \<le> s \<Longrightarrow> s \<le> ledgerSeq a \<Longrightarrow> s \<le> ledgerSeq b \<Longrightarrow>
           s < mismatch a b \<longleftrightarrow> ancestor_id a s = ancestor_id b s"
proof -
  let ?lower = "max (minSeq a) (minSeq b)" and ?upper = "min (ledgerSeq a) (ledgerSeq b)"
  let ?c = "mismatch_loop a b ?lower ?upper"
  have c: "base \<le> ?c" "?c \<le> ?upper" "ancestor_id a ?c = ancestor_id b ?c"
      "\<forall>s. ?c < s \<and> s \<le> ?upper \<longrightarrow> ancestor_id a s \<noteq> ancestor_id b s"
    using mismatch_loop_spec [of ?lower base ?upper a b] assms by (simp_all add: known_chain_def)
  have "?lower \<le> ?c"
    using c(1) assms by (simp add: known_chain_def)
  then have m: "mismatch a b = ?c + 1"
    unfolding mismatch_def Let_def by (simp only: not_less [symmetric] if_False)
  show "base < mismatch a b" "mismatch a b \<le> ?upper + 1"
    using c m by simp_all
  show "s < mismatch a b \<longleftrightarrow> ancestor_id a s = ancestor_id b s"
    if s: "base \<le> s" "s \<le> ledgerSeq a" "s \<le> ledgerSeq b" for s
  proof (cases "s \<le> ?c")
    case True
    then show ?thesis
      using known_chain_agree_down [OF assms, of s "?c - s"] c(2,3) s(1) m by simp
  next
    case False
    then show ?thesis
      using c(4) s m by auto
  qed
qed

lemma mismatch_genesis [simp]: "mismatch MakeGenesis l = 1" "mismatch l MakeGenesis = 1"
  by (simp_all add: mismatch_def MakeGenesis_def)

definition known_ledgers ::
  "(uint256 \<Rightarrow> uint256) \<Rightarrow> (uint256 \<Rightarrow> nat) \<Rightarrow> nat \<Rightarrow> uint256 \<Rightarrow> RCLValidatedLedger set" where
  "known_ledgers parent number base h = insert MakeGenesis {l. known_chain parent number base h l}"

lemma mismatch_known_unique:
  assumes "known_chain parent number base h a" "known_chain parent number base h b"
    and "base < p" "p \<le> ledgerSeq a + 1" "p \<le> ledgerSeq b + 1"
    and "ancestor_id a (p - 1) = ancestor_id b (p - 1)"
  shows "p \<le> mismatch a b"
proof -
  have "p - 1 < mismatch a b"
    using mismatch_known_chain(3) [OF assms(1,2), of "p - 1"] assms(3-6) by simp
  then show ?thesis by simp
qed

lemma mismatch_known_below:
  assumes "known_chain parent number base h a" "known_chain parent number base h b"
    and "base < p" "p \<le> mismatch a b"
  shows "p \<le> ledgerSeq a + 1" "p \<le> ledgerSeq b + 1" "ancestor_id a (p - 1) = ancestor_id b (p - 1)"
proof -
  show le: "p \<le> ledgerSeq a + 1" "p \<le> ledgerSeq b + 1"
    using mismatch_known_chain(2) [OF assms(1,2)] assms(4) by simp_all
  show "ancestor_id a (p - 1) = ancestor_id b (p - 1)"
  proof (rule mismatch_known_chain(3) [OF assms(1,2), THEN iffD1])
    show "base \<le> p - 1" "p - 1 \<le> ledgerSeq a" "p - 1 \<le> ledgerSeq b" "p - 1 < mismatch a b"
      using assms(3,4) le by linarith+
  qed
qed

lemma mismatch_known_sym:
  assumes "known_chain parent number base h a" "known_chain parent number base h b"
  shows "mismatch a b \<le> mismatch b a"
  using mismatch_known_unique [OF assms(2,1), of "mismatch a b"]
    mismatch_known_below [OF assms, of "mismatch a b"] mismatch_known_chain(1) [OF assms] by simp

lemma mismatch_known_ultra:
  assumes "known_chain parent number base h a" "known_chain parent number base h b"
    "known_chain parent number base h c"
  shows "min (mismatch a b) (mismatch b c) \<le> mismatch a c"
proof -
  let ?p = "min (mismatch a b) (mismatch b c)"
  have "base < ?p"
    using mismatch_known_chain(1) assms by simp
  then show ?thesis
    using mismatch_known_unique [OF assms(1,3), of ?p]
      mismatch_known_below [OF assms(1,2), of ?p] mismatch_known_below [OF assms(2,3), of ?p] by simp
qed

lemma mismatch_known_self: "known_chain parent number base h a \<Longrightarrow> mismatch a a = ledgerSeq a + 1"
  using mismatch_known_unique [of parent number base h a a "ledgerSeq a + 1"]
    mismatch_known_chain(2) [of parent number base h a a] by (auto simp: known_chain_def)

lemma number_of_known:
  assumes "known_chain parent number base h a" "base \<le> p" "p \<le> ledgerSeq a"
  shows "number (ancestor_id a p) = p" "0 < p" "ancestor_id a p \<noteq> 0"
proof -
  show n: "number (ancestor_id a p) = p"
    using assms unfolding known_chain_def by (meson le_trans)
  show p: "0 < p"
    using assms unfolding known_chain_def by linarith
  show "ancestor_id a p \<noteq> 0"
    using n p assms(1) unfolding known_chain_def by force
qed

lemma ancestor_id_self [simp]: "ancestor_id a (ledgerSeq a) = ledgerID a"
  by (simp add: ancestor_id_def minSeq_def)

lemma id_ancestor_known:
  assumes "known_chain parent number base h a" "known_chain parent number base h b"
    and "base \<le> p" "p \<le> ledgerSeq b"
  shows "ledgerID a = ancestor_id b p \<longleftrightarrow> ledgerSeq a = p \<and> mismatch a b = p + 1"
proof
  assume eq: "ledgerID a = ancestor_id b p"
  have "base \<le> ledgerSeq a"
    using assms(1) by (simp add: known_chain_def)
  then have "ledgerSeq a = p"
    using number_of_known(1) [OF assms(1), of "ledgerSeq a"] number_of_known(1) [OF assms(2-4)] eq by simp
  then show "ledgerSeq a = p \<and> mismatch a b = p + 1"
    using mismatch_known_unique [OF assms(1,2), of "p + 1"] mismatch_known_chain(2) [OF assms(1,2)]
      assms(3,4) eq by fastforce
next
  assume r: "ledgerSeq a = p \<and> mismatch a b = p + 1"
  then have "ancestor_id a p = ancestor_id b p"
    using mismatch_known_below(3) [OF assms(1,2), of "p + 1"] assms(3) by simp
  then show "ledgerID a = ancestor_id b p"
    using r ancestor_id_self [of a] by simp
qed

interpretation rcl: ledger_history rcl_ops "known_ledgers parent number base h"
  for parent number base h
proof
  fix a b c p
  let ?U = "known_ledgers parent number base h"
  show "op_genesis rcl_ops \<in> ?U" "op_seq rcl_ops (op_genesis rcl_ops) = 0"
    by (simp_all add: rcl_ops_def known_ledgers_def MakeGenesis_def)
  assume a: "a \<in> ?U"
  show "op_mismatch rcl_ops a a = op_seq rcl_ops a + 1"
    using a mismatch_known_self by (auto simp: rcl_ops_def known_ledgers_def MakeGenesis_def [THEN arg_cong [of _ _ ledgerSeq]])
  show "op_id rcl_ops a = op_ancestor rcl_ops (op_genesis rcl_ops) 0 \<longleftrightarrow> op_seq rcl_ops a = 0"
  proof (cases "a = MakeGenesis")
    case False
    then have k: "known_chain parent number base h a" and "base \<le> ledgerSeq a"
      using a by (auto simp: known_ledgers_def known_chain_def)
    then show ?thesis
      using number_of_known(2,3) [OF k, of "ledgerSeq a"]
      by (simp add: rcl_ops_def MakeGenesis_def ancestor_id_def minSeq_def)
  qed (simp add: rcl_ops_def MakeGenesis_def ancestor_id_def minSeq_def)
  assume b: "b \<in> ?U"
  show "op_mismatch rcl_ops a b = op_mismatch rcl_ops b a"
    using a b mismatch_known_sym by (auto simp: rcl_ops_def known_ledgers_def intro!: le_antisym)
  show "op_mismatch rcl_ops a b \<le> op_seq rcl_ops a + 1" "1 \<le> op_mismatch rcl_ops a b"
    using a b mismatch_known_chain(1,2) by (fastforce simp: rcl_ops_def known_ledgers_def)+
  assume c: "c \<in> ?U"
  show "min (op_mismatch rcl_ops a b) (op_mismatch rcl_ops b c) \<le> op_mismatch rcl_ops a c"
    using a b c mismatch_known_ultra mismatch_known_chain(1)
    by (fastforce simp: rcl_ops_def known_ledgers_def)
  assume p: "1 \<le> p" "p + 1 = op_mismatch rcl_ops b c"
  then have bc: "known_chain parent number base h b" "known_chain parent number base h c"
    using b c by (auto simp: rcl_ops_def known_ledgers_def)
  then have pb: "base \<le> p" "p \<le> ledgerSeq b"
    using mismatch_known_chain(1,2) [OF bc] p(2) by (simp_all add: rcl_ops_def)
  show "op_id rcl_ops a = op_ancestor rcl_ops b p \<longleftrightarrow>
        op_seq rcl_ops a = p \<and> op_mismatch rcl_ops a b = p + 1"
  proof (cases "a = MakeGenesis")
    case True
    then show ?thesis
      using number_of_known(3) [OF bc(1) pb] p(1) by (simp add: rcl_ops_def MakeGenesis_def)
  next
    case False
    then show ?thesis
      using id_ancestor_known [OF _ bc(1) pb] a by (simp add: rcl_ops_def known_ledgers_def)
  qed
qed

end
