(* ===== verification/Ledger_Trie.thy ===== *)
theory Ledger_Trie
  imports Ledger_Ancestry
begin

text \<open>
  The ancestry trie of validated ledgers (\<^verbatim>\<open>src/xrpld/consensus/LedgerTrie.h\<close>).

  \<^item> A \<open>Span\<close> is a half-open interval of the ancestry of a ledger; a \<open>Node\<close> owns its children. The parent
    pointers of the code are not stored: where the code walks from a node to the root, the model
    follows the path (a list of child indices) back. \<^verbatim>\<open>find\<close> and \<^verbatim>\<open>findByLedgerID\<close> return such a path.
  \<^item> \<^verbatim>\<open>seqSupport\<close>, a \<^verbatim>\<open>std::map\<close>, is an association list in increasing order of its keys.
  \<^item> \<^verbatim>\<open>getPreferred\<close> partially sorts the children of the nodes it visits. The model leaves them in place: the
    order of children is not observable, as the theorems hold for every order.

  Supports are \<open>nat\<close>: they n validators. The template parameter \<^verbatim>\<open>Ledger\<close> is the record \<open>ops\<close>, and the
  theorems are proved under the contract \<open>ledger_history\<close>.
\<close>

section \<open>Model\<close>

record ('l, 'id) SpanTip =
  tip_seq :: nat
  tip_id :: 'id
  tip_ledger :: 'l

record 'l Span =
  span_start :: nat
  span_end :: nat
  span_ledger :: 'l

definition span_genesis :: "('l, 'id) LedgerOps \<Rightarrow> 'l Span" where
  "span_genesis ops = \<lparr>span_start = 0, span_end = 1, span_ledger = op_genesis ops\<rparr>"

definition span_of :: "('l, 'id) LedgerOps \<Rightarrow> 'l \<Rightarrow> 'l Span" where
  "span_of ops l = \<lparr>span_start = 0, span_end = op_seq ops l + 1, span_ledger = l\<rparr>"

definition span_clamp :: "'l Span \<Rightarrow> nat \<Rightarrow> nat" where
  "span_clamp s val = min (max (span_start s) val) (span_end s)"

definition span_sub :: "'l Span \<Rightarrow> nat \<Rightarrow> nat \<Rightarrow> 'l Span option" where
  "span_sub s a b =
     (let newFrom = span_clamp s a; newTo = span_clamp s b
      in if newFrom < newTo
         then Some \<lparr>span_start = newFrom, span_end = newTo, span_ledger = span_ledger s\<rparr> else None)"

definition span_from :: "'l Span \<Rightarrow> nat \<Rightarrow> 'l Span option" where
  "span_from s spot = span_sub s spot (span_end s)"

definition span_before :: "'l Span \<Rightarrow> nat \<Rightarrow> 'l Span option" where
  "span_before s spot = span_sub s (span_start s) spot"

definition startID :: "('l, 'id) LedgerOps \<Rightarrow> 'l Span \<Rightarrow> 'id" where
  "startID ops s = op_ancestor ops (span_ledger s) (span_start s)"

definition span_diff :: "('l, 'id) LedgerOps \<Rightarrow> 'l Span \<Rightarrow> 'l \<Rightarrow> nat" where
  "span_diff ops s l = span_clamp s (op_mismatch ops (span_ledger s) l)"

definition span_tip :: "('l, 'id) LedgerOps \<Rightarrow> 'l Span \<Rightarrow> ('l, 'id) SpanTip" where
  "span_tip ops s =
     (let tipSeq = span_end s - 1
      in \<lparr>tip_seq = tipSeq, tip_id = op_ancestor ops (span_ledger s) tipSeq, tip_ledger = span_ledger s\<rparr>)"

definition span_merge :: "'l Span \<Rightarrow> 'l Span \<Rightarrow> 'l Span" where
  "span_merge a b =
     (if span_end a < span_end b
      then \<lparr>span_start = min (span_start a) (span_start b), span_end = span_end b, span_ledger = span_ledger b\<rparr>
      else \<lparr>span_start = min (span_start a) (span_start b), span_end = span_end a, span_ledger = span_ledger a\<rparr>)"

datatype 'l Node =
  Node (span: "'l Span") (tipSupport: nat) (branchSupport: nat) (children: "'l Node list")

record 'l LedgerTrie =
  root :: "'l Node"
  seqSupport :: "(nat \<times> nat) list"

definition new_LedgerTrie :: "('l, 'id) LedgerOps \<Rightarrow> 'l LedgerTrie" where
  "new_LedgerTrie ops = \<lparr>root = Node (span_genesis ops) 0 0 [], seqSupport = []\<rparr>"

text \<open>The child to which the search continues, with its index.\<close>

fun find_child :: "('l, 'id) LedgerOps \<Rightarrow> 'l \<Rightarrow> nat \<Rightarrow> 'l Node list \<Rightarrow> nat option" where
  "find_child ops l pos [] = None"
| "find_child ops l pos (c # cs) =
     (if pos < span_diff ops (span c) l then Some 0 else map_option Suc (find_child ops l pos cs))"

lemma find_child_bound: "find_child ops l pos cs = Some i \<Longrightarrow> i < length cs"
  by (induction cs arbitrary: i) (auto split: if_splits)

lemma size_child: "c \<in> set (children n) \<Longrightarrow> size c < size n"
  using size_list_estimation' [of c "children n" "size c" size] by (cases n) simp

function trie_find :: "('l, 'id) LedgerOps \<Rightarrow> 'l \<Rightarrow> 'l Node \<Rightarrow> nat list \<times> nat" where
  "trie_find ops l cur =
     (let pos = span_diff ops (span cur) l
      in if pos = span_end (span cur)
         then case find_child ops l pos (children cur) of
                None \<Rightarrow> ([], pos)
              | Some i \<Rightarrow> (let (path, pos') = trie_find ops l (children cur ! i) in (i # path, pos'))
         else ([], pos))"
  by pat_completeness auto
termination
proof (relation "measure (\<lambda>(_, _, n). size n)")
  fix ops :: "('l, 'id) LedgerOps" and l cur pos i
  assume "find_child ops l pos (children cur) = Some i"
  then have "children cur ! i \<in> set (children cur)"
    by (intro nth_mem find_child_bound)
  then have "size (children cur ! i) < size cur"
    by (rule size_child)
  then show "((ops, l, children cur ! i), ops, l, cur) \<in> measure (\<lambda>(_, _, n). size n)"
    by simp
qed simp

declare trie_find.simps [simp del]

fun findByLedgerID :: "('l, 'id) LedgerOps \<Rightarrow> 'l \<Rightarrow> 'l Node \<Rightarrow> nat list option"
  and findByLedgerID_list :: "('l, 'id) LedgerOps \<Rightarrow> 'l \<Rightarrow> nat \<Rightarrow> 'l Node list \<Rightarrow> nat list option" where
  "findByLedgerID ops l (Node s t b cs) =
     (if op_id ops l = tip_id (span_tip ops s) then Some [] else findByLedgerID_list ops l 0 cs)"
| "findByLedgerID_list ops l i [] = None"
| "findByLedgerID_list ops l i (c # cs) =
     (case findByLedgerID ops l c of
        Some path \<Rightarrow> Some (i # path)
      | None \<Rightarrow> findByLedgerID_list ops l (Suc i) cs)"

fun node_at :: "nat list \<Rightarrow> 'l Node \<Rightarrow> 'l Node" where
  "node_at [] n = n"
| "node_at (i # path) n = node_at path (children n ! i)"

definition set_children :: "'l Node list \<Rightarrow> 'l Node \<Rightarrow> 'l Node" where
  "set_children cs n = Node (span n) (tipSupport n) (branchSupport n) cs"

text \<open>Change a node by \<open>f\<close> and all its ancestors by \<open>g\<close>.\<close>

fun update_path :: "('l Node \<Rightarrow> 'l Node) \<Rightarrow> ('l Node \<Rightarrow> 'l Node) \<Rightarrow> nat list \<Rightarrow> 'l Node \<Rightarrow> 'l Node" where
  "update_path f g [] n = f n"
| "update_path f g (i # path) n =
     g (set_children ((children n)[i := update_path f g path (children n ! i)]) n)"

definition add_branch :: "nat \<Rightarrow> 'l Node \<Rightarrow> 'l Node" where
  "add_branch k n = Node (span n) (tipSupport n) (branchSupport n + k) (children n)"

text \<open>The body of \<^verbatim>\<open>insert\<close> at the node that was found.\<close>

definition insert_at :: "('l, 'id) LedgerOps \<Rightarrow> 'l \<Rightarrow> nat \<Rightarrow> nat \<Rightarrow> 'l Node \<Rightarrow> 'l Node" where
  "insert_at ops l k diffSeq loc =
     (let prefix = span_before (span loc) diffSeq;
          oldSuffix = span_from (span loc) diffSeq;
          newSuffix = span_from (span_of ops l) diffSeq;
          loc1 = (case oldSuffix of
                    None \<Rightarrow> loc
                  | Some s \<Rightarrow> Node (the prefix) 0 (branchSupport loc)
                               [Node s (tipSupport loc) (branchSupport loc) (children loc)])
      in case newSuffix of
           None \<Rightarrow> Node (span loc1) (tipSupport loc1 + k) (branchSupport loc1 + k) (children loc1)
         | Some s \<Rightarrow> Node (span loc1) (tipSupport loc1) (branchSupport loc1 + k)
                          (children loc1 @ [Node s k k []]))"

fun incr_support :: "nat \<Rightarrow> nat \<Rightarrow> (nat \<times> nat) list \<Rightarrow> (nat \<times> nat) list" where
  "incr_support s k [] = [(s, k)]"
| "incr_support s k ((s', c) # m) =
     (if s < s' then (s, k) # (s', c) # m
      else if s = s' then (s', c + k) # m
      else (s', c) # incr_support s k m)"

definition trie_insert :: "('l, 'id) LedgerOps \<Rightarrow> 'l \<Rightarrow> nat \<Rightarrow> 'l LedgerTrie \<Rightarrow> 'l LedgerTrie" where
  "trie_insert ops l k t =
     (let (path, diffSeq) = trie_find ops l (root t)
      in \<lparr>root = update_path (insert_at ops l k diffSeq) (add_branch k) path (root t),
          seqSupport = incr_support (op_seq ops l) k (seqSupport t)\<rparr>)"

text \<open>\<^verbatim>\<open>std::swap (*it, children.back ()); children.pop_back ()\<close>\<close>

definition erase :: "nat \<Rightarrow> 'l Node list \<Rightarrow> 'l Node list" where
  "erase i cs = butlast (cs[i := last cs])"

text \<open>
  The decrements along the path and the compression loop of \<^verbatim>\<open>remove\<close>; the flag says whether the loop
  still runs.
\<close>

fun remove_path :: "nat \<Rightarrow> nat list \<Rightarrow> 'l Node \<Rightarrow> 'l Node \<times> bool" where
  "remove_path k [] n =
     (Node (span n) (tipSupport n - k) (branchSupport n - k) (children n), True)"
| "remove_path k (i # path) n =
     (let (loc, loop) = remove_path k path (children n ! i);
          cs = (children n)[i := loc];
          parent = (\<lambda>cs. Node (span n) (tipSupport n) (branchSupport n - k) cs)
      in if loop \<and> tipSupport loc = 0
         then case children loc of
                [] \<Rightarrow> (parent (erase i cs), True)
              | [c] \<Rightarrow>
                  let child = Node (span_merge (span loc) (span c)) (tipSupport c) (branchSupport c) (children c)
                  in (parent (erase i (cs @ [child])), True)
              | _ \<Rightarrow> (parent cs, False)
         else (parent cs, False))"

fun decr_support :: "nat \<Rightarrow> nat \<Rightarrow> (nat \<times> nat) list \<Rightarrow> (nat \<times> nat) list" where
  "decr_support s k [] = []"
| "decr_support s k ((s', c) # m) =
     (if s = s' then (if c - k = 0 then m else (s', c - k) # m)
      else (s', c) # decr_support s k m)"

definition trie_remove :: "('l, 'id) LedgerOps \<Rightarrow> 'l \<Rightarrow> nat \<Rightarrow> 'l LedgerTrie \<Rightarrow> bool \<times> 'l LedgerTrie" where
  "trie_remove ops l k t =
     (case findByLedgerID ops l (root t) of
        None \<Rightarrow> (False, t)
      | Some path \<Rightarrow>
          let loc = node_at path (root t) in
          if tipSupport loc = 0 then (False, t)
          else let k = min k (tipSupport loc)
               in (True, \<lparr>root = fst (remove_path k path (root t)),
                          seqSupport = decr_support (op_seq ops l) k (seqSupport t)\<rparr>))"

definition trie_tipSupport :: "('l, 'id) LedgerOps \<Rightarrow> 'l \<Rightarrow> 'l LedgerTrie \<Rightarrow> nat" where
  "trie_tipSupport ops l t =
     (case findByLedgerID ops l (root t) of None \<Rightarrow> 0 | Some path \<Rightarrow> tipSupport (node_at path (root t)))"

definition trie_branchSupport :: "('l, 'id) LedgerOps \<Rightarrow> 'l \<Rightarrow> 'l LedgerTrie \<Rightarrow> nat" where
  "trie_branchSupport ops l t =
     (case findByLedgerID ops l (root t) of
        Some path \<Rightarrow> branchSupport (node_at path (root t))
      | None \<Rightarrow>
          let (path, diffSeq) = trie_find ops l (root t); loc = node_at path (root t)
          in if op_seq ops l < diffSeq \<and> op_seq ops l < span_end (span loc) then branchSupport loc else 0)"

definition trie_empty :: "'l LedgerTrie \<Rightarrow> bool" where
  "trie_empty t \<longleftrightarrow> branchSupport (root t) = 0"

text \<open>The two loops of \<^verbatim>\<open>getPreferred\<close> over \<^verbatim>\<open>seqSupport\<close> and the choice of the best child.\<close>

fun add_uncommitted :: "nat \<Rightarrow> nat \<Rightarrow> (nat \<times> nat) list \<Rightarrow> nat \<times> (nat \<times> nat) list" where
  "add_uncommitted bound uncommitted [] = (uncommitted, [])"
| "add_uncommitted bound uncommitted ((s, c) # it) =
     (if s < bound then add_uncommitted bound (uncommitted + c) it else (uncommitted, (s, c) # it))"

fun advance :: "nat \<Rightarrow> nat \<Rightarrow> nat \<Rightarrow> nat \<Rightarrow> (nat \<times> nat) list \<Rightarrow> nat \<times> nat \<times> (nat \<times> nat) list" where
  "advance spanEnd branch nextSeq uncommitted [] =
     (if nextSeq < spanEnd \<and> uncommitted < branch then (spanEnd, uncommitted, []) else (nextSeq, uncommitted, []))"
| "advance spanEnd branch nextSeq uncommitted ((s, c) # it) =
     (if nextSeq < spanEnd \<and> uncommitted < branch
      then if s < spanEnd then advance spanEnd branch (s + 1) (uncommitted + c) it
           else (spanEnd, uncommitted, (s, c) # it)
      else (nextSeq, uncommitted, (s, c) # it))"

definition better :: "('l, 'id :: linorder) LedgerOps \<Rightarrow> 'l Node \<Rightarrow> 'l Node \<Rightarrow> bool" where
  "better ops a b \<longleftrightarrow>
     branchSupport b < branchSupport a
     \<or> branchSupport a = branchSupport b \<and> startID ops (span b) < startID ops (span a)"

fun front :: "('l, 'id :: linorder) LedgerOps \<Rightarrow> 'l Node \<Rightarrow> 'l Node list \<Rightarrow> 'l Node" where
  "front ops m [] = m"
| "front ops m (c # cs) = front ops (if better ops c m then c else m) cs"

definition best_child :: "('l, 'id :: linorder) LedgerOps \<Rightarrow> 'l Node list \<Rightarrow> ('l Node \<times> nat) option" where
  "best_child ops cs =
     (case cs of
        [] \<Rightarrow> None
      | [c] \<Rightarrow> Some (c, branchSupport c)
      | c # cs' \<Rightarrow>
          let best = front ops c cs';
              rest = remove1 best cs;
              second = front ops (hd rest) (tl rest);
              margin = branchSupport best - branchSupport second
          in Some (best, if startID ops (span second) < startID ops (span best) then margin + 1 else margin))"


lemma front_in: "front ops m cs = m \<or> front ops m cs \<in> set cs"
  by (induction cs arbitrary: m) auto

lemma best_child_in: "best_child ops cs = Some (c, margin) \<Longrightarrow> c \<in> set cs"
  using front_in [of ops "hd cs" "tl cs"]
  by (auto simp: best_child_def Let_def split: list.splits)

function preferred_loop ::
  "('l, 'id :: linorder) LedgerOps \<Rightarrow> nat \<Rightarrow> 'l Node \<Rightarrow> nat \<Rightarrow> (nat \<times> nat) list \<Rightarrow> ('l, 'id) SpanTip" where
  "preferred_loop ops largestIssued cur uncommitted it =
     (let nextSeq = span_start (span cur) + 1;
          (uncommitted, it) = add_uncommitted (max nextSeq largestIssued) uncommitted it;
          (nextSeq, uncommitted, it) =
            advance (span_end (span cur)) (branchSupport cur) nextSeq uncommitted it
      in if nextSeq < span_end (span cur) then span_tip ops (the (span_before (span cur) nextSeq))
         else case best_child ops (children cur) of
                None \<Rightarrow> span_tip ops (span cur)
              | Some (best, margin) \<Rightarrow>
                  if uncommitted < margin \<or> uncommitted = 0
                  then preferred_loop ops largestIssued best uncommitted it
                  else span_tip ops (span cur))"
  by pat_completeness auto
termination
  by (relation "measure (\<lambda>(_, _, n, _, _). size n)") (auto intro: size_child dest: best_child_in)

declare preferred_loop.simps [simp del]

definition trie_getPreferred ::
  "('l, 'id :: linorder) LedgerOps \<Rightarrow> nat \<Rightarrow> 'l LedgerTrie \<Rightarrow> ('l, 'id) SpanTip option" where
  "trie_getPreferred ops largestIssued t =
     (if trie_empty t then None
      else Some (preferred_loop ops largestIssued (root t) 0 (seqSupport t)))"

text \<open>
  \<^verbatim>\<open>checkInvariants\<close>: the stack holds nodes with a mark on the root; the result is the expected support by
  sequence number.
\<close>

lemma size_children: "sum_list (map size (children n)) < size n"
proof -
  have "sum_list (map size cs) \<le> size_list size cs" for cs :: "'a Node list"
    by (induction cs) auto
  then show ?thesis by (cases n) (simp add: less_Suc_eq_le)
qed

function check_stack :: "(bool \<times> 'l Node) list \<Rightarrow> (nat \<times> nat) list \<Rightarrow> (nat \<times> nat) list option" where
  "check_stack [] expected = Some expected"
| "check_stack ((is_root, cur) # nodes) expected =
     (if \<not> is_root \<and> tipSupport cur = 0 \<and> length (children cur) < 2 then None
      else let expected = (if tipSupport cur \<noteq> 0
                           then incr_support (span_end (span cur) - 1) (tipSupport cur) expected
                           else expected);
               support = tipSupport cur + sum_list (map branchSupport (children cur))
           in if support \<noteq> branchSupport cur then None
              else check_stack (rev (map (Pair False) (children cur)) @ nodes) expected)"
  by pat_completeness auto
termination
  by (relation "measure (\<lambda>(nodes, _). sum_list (map (size \<circ> snd) nodes))")
    (auto simp: rev_map [symmetric] sum_list_rev comp_def size_children)

definition checkInvariants :: "'l LedgerTrie \<Rightarrow> bool" where
  "checkInvariants t \<longleftrightarrow> check_stack [(True, root t)] [] = Some (seqSupport t)"

section \<open>Supports and the invariant\<close>

abbreviation node_ledger :: "'l Node \<Rightarrow> 'l" where "node_ledger n \<equiv> span_ledger (span n)"

abbreviation node_start :: "'l Node \<Rightarrow> nat" where "node_start n \<equiv> span_start (span n)"

abbreviation node_end :: "'l Node \<Rightarrow> nat" where "node_end n \<equiv> span_end (span n)"

fun subnodes :: "'l Node \<Rightarrow> 'l Node list" where
  "subnodes (Node s t b cs) = Node s t b cs # concat (map subnodes cs)"

text \<open>
  The support of all ledgers, given as a ledger and the length of the prefix of its ancestry, that satisfy a
  predicate.
\<close>

definition support :: "('l \<Rightarrow> nat \<Rightarrow> bool) \<Rightarrow> 'l Node \<Rightarrow> nat" where
  "support P n = sum_list (map (\<lambda>d. if P (node_ledger d) (node_end d) then tipSupport d else 0) (subnodes n))"

lemma support_Node [simp]:
  "support P (Node s t b cs) =
     (if P (span_ledger s) (span_end s) then t else 0) + sum_list (map (support P) cs)"
proof -
  have "sum_list (map f (concat (map subnodes cs))) = sum_list (map (\<lambda>c. sum_list (map f (subnodes c))) cs)"
    for f :: "'a Node \<Rightarrow> nat"
    by (induction cs) auto
  then show ?thesis by (simp add: support_def [abs_def])
qed

lemma support_unfold:
  "support P n = (if P (node_ledger n) (node_end n) then tipSupport n else 0)
     + sum_list (map (support P) (children n))"
  by (cases n) simp

lemma subnodes_iff: "d \<in> set (subnodes n) \<longleftrightarrow> d = n \<or> (\<exists>c\<in>set (children n). d \<in> set (subnodes c))"
  by (cases n) auto

lemma support_cong:
  "(\<And>d. d \<in> set (subnodes n) \<Longrightarrow> P (node_ledger d) (node_end d) = Q (node_ledger d) (node_end d)) \<Longrightarrow>
   support P n = support Q n"
  unfolding support_def by (rule arg_cong [of _ _ sum_list]) simp

lemma support_none:
  "(\<And>d. d \<in> set (subnodes n) \<Longrightarrow> \<not> P (node_ledger d) (node_end d)) \<Longrightarrow> support P n = 0"
  by (simp add: support_def)

lemma support_mono:
  "(\<And>d. d \<in> set (subnodes n) \<Longrightarrow> P (node_ledger d) (node_end d) \<Longrightarrow> Q (node_ledger d) (node_end d)) \<Longrightarrow>
   support P n \<le> support Q n"
  unfolding support_def by (rule sum_list_mono) simp

fun node_ok :: "('l, 'id) LedgerOps \<Rightarrow> 'l set \<Rightarrow> 'l Node \<Rightarrow> bool" where
  "node_ok ops U (Node s t b cs) \<longleftrightarrow>
     span_ledger s \<in> U \<and> span_start s < span_end s \<and> span_end s \<le> op_seq ops (span_ledger s) + 1
     \<and> (\<exists>c\<in>U. span_end s = op_mismatch ops (span_ledger s) c)
     \<and> b = t + sum_list (map branchSupport cs)
     \<and> (\<forall>c\<in>set cs. node_ok ops U c \<and> node_start c = span_end s
          \<and> span_end s \<le> op_mismatch ops (span_ledger s) (node_ledger c)
          \<and> (tipSupport c = 0 \<longrightarrow> 2 \<le> length (children c)))
     \<and> sorted_wrt (\<lambda>x y. op_mismatch ops x y \<le> span_end s) (map node_ledger cs)"

declare node_ok.simps [simp del]

lemma node_ok_iff:
  "node_ok ops U n \<longleftrightarrow>
     node_ledger n \<in> U \<and> node_start n < node_end n \<and> node_end n \<le> op_seq ops (node_ledger n) + 1
     \<and> (\<exists>c\<in>U. node_end n = op_mismatch ops (node_ledger n) c)
     \<and> branchSupport n = tipSupport n + sum_list (map branchSupport (children n))
     \<and> (\<forall>c\<in>set (children n). node_ok ops U c \<and> node_start c = node_end n
          \<and> node_end n \<le> op_mismatch ops (node_ledger n) (node_ledger c)
          \<and> (tipSupport c = 0 \<longrightarrow> 2 \<le> length (children c)))
     \<and> sorted_wrt (\<lambda>x y. op_mismatch ops x y \<le> node_end n) (map node_ledger (children n))"
  by (cases n) (simp add: node_ok.simps)

definition trie_ok :: "('l, 'id) LedgerOps \<Rightarrow> 'l set \<Rightarrow> 'l LedgerTrie \<Rightarrow> bool" where
  "trie_ok ops U t \<longleftrightarrow>
     node_ok ops U (root t) \<and> span (root t) = span_genesis ops
     \<and> sorted_wrt (<) (map fst (seqSupport t))
     \<and> (\<forall>s. map_of (seqSupport t) s =
          (let k = support (\<lambda>_ e. e = s + 1) (root t) in if k = 0 then None else Some k))"

lemma branchSupport_total: "node_ok ops U n \<Longrightarrow> branchSupport n = support (\<lambda>_ _. True) n"
proof (induction n)
  case (Node s t b cs)
  then have "map branchSupport cs = map (support (\<lambda>_ _. True)) cs"
    by (auto simp: node_ok.simps)
  with Node.prems show ?case
    by (simp add: node_ok.simps)
qed

text \<open>A predicate on prefixes does not depend on the ledger that represents the prefix.\<close>

definition prefix_pred :: "('l, 'id) LedgerOps \<Rightarrow> 'l set \<Rightarrow> ('l \<Rightarrow> nat \<Rightarrow> bool) \<Rightarrow> bool" where
  "prefix_pred ops U P \<longleftrightarrow>
     (\<forall>l\<in>U. \<forall>l'\<in>U. \<forall>e. e \<le> op_mismatch ops l l' \<longrightarrow> P l e = P l' e)"

context ledger_history
begin

abbreviation ok :: "'l Node \<Rightarrow> bool" where "ok \<equiv> node_ok ops U"

lemma ok_ledger: "ok n \<Longrightarrow> node_ledger n \<in> U"
  using node_ok_iff [of ops U n] by blast

lemma ok_child:
  assumes "ok n" "c \<in> set (children n)"
  shows "ok c" "node_start c = node_end n" "node_end n \<le> mm (node_ledger n) (node_ledger c)"
    "node_end n < node_end c" "tipSupport c = 0 \<longrightarrow> 2 \<le> length (children c)"
proof -
  show c: "ok c" "node_start c = node_end n" "node_end n \<le> mm (node_ledger n) (node_ledger c)"
      "tipSupport c = 0 \<longrightarrow> 2 \<le> length (children c)"
    using assms node_ok_iff [of ops U n] by blast+
  show "node_end n < node_end c"
    using c(1,2) node_ok_iff [of ops U c] by simp
qed

lemma ok_self: "ok n \<Longrightarrow> node_end n \<le> mm (node_ledger n) (node_ledger n)"
  using mismatch_self [of "node_ledger n"] node_ok_iff [of ops U n] by simp

lemma ok_subnode:
  "ok n \<Longrightarrow> d \<in> set (subnodes n) \<Longrightarrow>
   ok d \<and> node_end n \<le> node_end d \<and> node_end n \<le> mm (node_ledger n) (node_ledger d)"
proof (induction n)
  case (Node s t b cs)
  let ?n = "Node s t b cs"
  show ?case
  proof (cases "d = ?n")
    case True
    then show ?thesis using Node.prems(1) ok_self by blast
  next
    case False
    then obtain c where c: "c \<in> set cs" "d \<in> set (subnodes c)"
      using Node.prems(2) by auto
    note k = ok_child [OF Node.prems(1), of c]
    have d: "ok d" "node_end c \<le> node_end d" "node_end c \<le> mm (node_ledger c) (node_ledger d)"
      using Node.IH [OF c(1) _ c(2)] k(1) c(1) by simp_all
    have "node_end ?n \<le> mm (node_ledger ?n) (node_ledger d)"
      using mismatch_trans [of "node_ledger ?n" "node_ledger c" "node_ledger d" "node_end ?n"]
        k(1,3,4) d Node.prems(1) c(1) ok_ledger by fastforce
    then show ?thesis
      using d k(4) c(1) by simp
  qed
qed

lemma ok_child_subnode:
  assumes "ok n" "c \<in> set (children n)" "d \<in> set (subnodes c)"
  shows "ok d" "node_end n < node_end d" "node_end n < mm (node_ledger c) (node_ledger d)"
    "node_end n \<le> mm (node_ledger n) (node_ledger d)"
  using ok_child [OF assms(1,2)] ok_subnode [of c d] ok_subnode [of n d] assms subnodes_iff [of d n]
  by (auto simp: less_le_trans)

end

section \<open>Insertion\<close>

lemma span_from_in:
  "span_start s \<le> p \<Longrightarrow> p \<le> span_end s \<Longrightarrow>
   span_from s p = (if p < span_end s
     then Some \<lparr>span_start = p, span_end = span_end s, span_ledger = span_ledger s\<rparr> else None)"
  by (auto simp: span_from_def span_sub_def span_clamp_def)

lemma span_before_in:
  "span_start s < p \<Longrightarrow> p \<le> span_end s \<Longrightarrow>
   span_before s p = Some \<lparr>span_start = span_start s, span_end = p, span_ledger = span_ledger s\<rparr>"
  by (auto simp: span_before_def span_sub_def span_clamp_def)

lemma span_of_from:
  "span_from (span_of ops l) p = (if p \<le> op_seq ops l
     then Some \<lparr>span_start = p, span_end = op_seq ops l + 1, span_ledger = l\<rparr> else None)"
  by (auto simp: span_from_def span_sub_def span_clamp_def span_of_def)

lemma find_child_None: "find_child ops l pos cs = None \<longleftrightarrow> (\<forall>c\<in>set cs. span_diff ops (span c) l \<le> pos)"
  by (induction cs) auto

lemma find_child_Some:
  "find_child ops l pos cs = Some i \<Longrightarrow> i < length cs \<and> pos < span_diff ops (span (cs ! i)) l"
  by (induction cs arbitrary: i) (auto split: if_splits)

context ledger_history
begin

lemma span_diff_gt: "span_start s < span_end s \<Longrightarrow> span_start s < span_diff ops s a \<longleftrightarrow> span_start s < mm (span_ledger s) a"
  by (auto simp: span_diff_def span_clamp_def)

lemma ok_leaf: "a \<in> U \<Longrightarrow> p \<le> sq a \<Longrightarrow>
  ok (Node \<lparr>span_start = p, span_end = sq a + 1, span_ledger = a\<rparr> k k [])"
  using mismatch_self [of a] by (auto simp: node_ok.simps intro!: bexI [of _ a])

text \<open>What an insertion of \<open>k\<close> validations of \<open>a\<close> changes of a node.\<close>

definition grown :: "'l \<Rightarrow> nat \<Rightarrow> 'l Node \<Rightarrow> 'l Node \<Rightarrow> bool" where
  "grown a k n n' \<longleftrightarrow>
     ok n' \<and> node_start n' = node_start n \<and> node_ledger n' = node_ledger n
     \<and> branchSupport n' = branchSupport n + k
     \<and> ((tipSupport n = 0 \<longrightarrow> 2 \<le> length (children n)) \<longrightarrow> tipSupport n' = 0 \<longrightarrow> 2 \<le> length (children n'))
     \<and> (node_end n \<le> mm (node_ledger n) a \<longrightarrow> node_end n' = node_end n)
     \<and> (\<forall>P. prefix_pred ops U P \<longrightarrow> support P n' = support P n + (if P a (sq a + 1) then k else 0))"

lemma prefix_predD:
  "prefix_pred ops U P \<Longrightarrow> a \<in> U \<Longrightarrow> b \<in> U \<Longrightarrow> e \<le> mm a b \<Longrightarrow> P a e = P b e"
  by (auto simp: prefix_pred_def)

lemma insert_at_grown:
  assumes n: "ok n" and a: "a \<in> U" and m: "node_start n < mm (node_ledger n) a" and k: "0 < k"
    and p: "p = span_diff ops (span n) a"
    and f: "p < node_end n \<Longrightarrow> tipSupport n = 0 \<Longrightarrow> 2 \<le> length (children n)"
    and c: "p = node_end n \<Longrightarrow> \<forall>c\<in>set (children n). mm (node_ledger c) a \<le> node_end n"
  shows "grown a k n (insert_at ops a k p n)"
proof -
  obtain s t b cs where nd: "n = Node s t b cs" by (cases n)
  obtain st e l where s: "s = \<lparr>span_start = st, span_end = e, span_ledger = l\<rparr>" by (cases s)
  note n' = n [unfolded nd s node_ok.simps, simplified]
  have l: "l \<in> U" "st < e" "e \<le> sq l + 1" using n' by simp_all
  have p': "p = min (mm l a) e" and st: "st < p"
    using p m l(2) by (auto simp: nd s span_diff_def span_clamp_def)
  have le: "mm l a \<le> sq a + 1" using mismatch_le2 [OF l(1) a] .
  show ?thesis
  proof (cases "p < e")
    case True
    then have pm: "p = mm l a" using p' by simp
    have f': "t = 0 \<longrightarrow> 2 \<le> length cs" using f True by (simp add: nd s)
    have pe: "\<exists>c\<in>U. p = mm l c" "p \<le> sq l + 1" using a pm True l(3) by auto
    have old: "ok (Node \<lparr>span_start = p, span_end = e, span_ledger = l\<rparr> t b cs)"
      using n' True by (simp add: node_ok.simps)
    have bt: "b = t + sum_list (map branchSupport cs)" using n' by simp
    have ps: "P l p = P a p" if "prefix_pred ops U P" for P
      using prefix_predD [OF that l(1) a] pm by simp
    show ?thesis
    proof (cases "p \<le> sq a")
      case new: True
      have "insert_at ops a k p n = Node \<lparr>span_start = st, span_end = p, span_ledger = l\<rparr> 0 (b + k)
              [Node \<lparr>span_start = p, span_end = e, span_ledger = l\<rparr> t b cs,
               Node \<lparr>span_start = p, span_end = sq a + 1, span_ledger = a\<rparr> k k []]"
        using True st new by (simp add: insert_at_def nd s span_from_in span_before_in span_of_from)
      then show ?thesis
        using old ok_leaf [OF a new, of k] st l pe pm k n' f' mismatch_self [OF l(1)]
        by (simp add: grown_def node_ok.simps nd s)
    next
      case False
      then have q: "p = sq a + 1" using pm le by simp
      have "insert_at ops a k p n = Node \<lparr>span_start = st, span_end = p, span_ledger = l\<rparr> k (b + k)
              [Node \<lparr>span_start = p, span_end = e, span_ledger = l\<rparr> t b cs]"
        using True st False by (simp add: insert_at_def nd s span_from_in span_before_in span_of_from)
      then show ?thesis
        using old st l pe pm k n' f' mismatch_self [OF l(1)] ps q
        by (simp add: grown_def node_ok.simps nd s) blast
    qed
  next
    case False
    then have pe: "p = e" and ea: "e \<le> mm l a" using p' by simp_all
    have ch: "\<forall>c\<in>set cs. mm (node_ledger c) a \<le> e" using c pe by (simp add: nd s)
    have ps: "P l e = P a e" if "prefix_pred ops U P" for P
      using prefix_predD [OF that l(1) a] ea by simp
    show ?thesis
    proof (cases "p \<le> sq a")
      case new: True
      have "insert_at ops a k p n = Node s t (b + k)
              (cs @ [Node \<lparr>span_start = e, span_end = sq a + 1, span_ledger = a\<rparr> k k []])"
        using pe l(2) new by (simp add: insert_at_def nd s span_from_in span_of_from)
      then show ?thesis
        using ok_leaf [OF a, of e k] new st l pe ea k n' ch
        by (simp add: grown_def node_ok.simps nd s sorted_wrt_append) linarith
    next
      case False
      then have q: "e = sq a + 1" using pe ea le by simp
      have "insert_at ops a k p n = Node s (t + k) (b + k) cs"
        using pe l(2) False by (simp add: insert_at_def nd s span_from_in span_of_from)
      then show ?thesis
        using n' k ps q by (simp add: grown_def node_ok.simps nd s) blast
    qed
  qed
qed

end

lemma map_update_same: "i < length xs \<Longrightarrow> f y = f (xs ! i) \<Longrightarrow> map f (xs[i := y]) = map f xs"
  by (metis list_update_id map_update)

lemma sum_list_map_update:
  fixes f :: "'b \<Rightarrow> nat"
  assumes "i < length xs" "f y = f (xs ! i) + k"
  shows "sum_list (map f (xs[i := y])) = sum_list (map f xs) + k"
proof -
  have "f (xs ! i) \<le> sum_list (map f xs)"
    using assms(1) by (intro member_le_sum_list) auto
  then show ?thesis
    using assms by (simp add: map_update sum_list_update)
qed

context ledger_history
begin

lemma grown_child:
  assumes n: "ok n" and i: "i < length (children n)" and g: "grown a k (children n ! i) c'"
    and e: "node_end n < mm (node_ledger (children n ! i)) a" and a: "a \<in> U"
  shows "grown a k n (add_branch k (set_children ((children n)[i := c']) n))"
proof -
  obtain s t b cs where nd: "n = Node s t b cs" by (cases n)
  have i': "i < length cs" using i by (simp add: nd)
  note n' = n [unfolded nd node_ok.simps]
  have c: "cs ! i \<in> set cs" using i' by simp
  note g' = g [unfolded nd grown_def, simplified]
  have b: "sum_list (map branchSupport (cs[i := c'])) = sum_list (map branchSupport cs) + k"
    using g' i' by (intro sum_list_map_update) simp_all
  have P: "sum_list (map (support P) (cs[i := c']))
      = sum_list (map (support P) cs) + (if P a (sq a + 1) then k else 0)" if "prefix_pred ops U P" for P
    using g' i' that by (intro sum_list_map_update) simp_all
  have l: "map node_ledger (cs[i := c']) = map node_ledger cs"
    using g' i' by (intro map_update_same) simp_all
  have "ok (Node s t (b + k) (cs[i := c']))"
    using n' g' c b l by (auto simp: node_ok.simps dest!: set_update_subset_insert [THEN subsetD])
  then show ?thesis
    using b P by (simp add: grown_def nd add_branch_def set_children_def)
qed

lemma insert_grown:
  assumes "ok n" "a \<in> U" "node_start n < mm (node_ledger n) a" "0 < k"
    and "mm (node_ledger n) a < node_end n \<Longrightarrow> tipSupport n = 0 \<Longrightarrow> 2 \<le> length (children n)"
  shows "grown a k n (update_path (insert_at ops a k (snd (trie_find ops a n))) (add_branch k)
           (fst (trie_find ops a n)) n)"
  using assms
proof (induction n rule: measure_induct_rule [of size])
  case (less n)
  let ?p = "span_diff ops (span n) a"
  have nd: "node_start n < node_end n" "node_ledger n \<in> U"
    using less.prems(1) node_ok_iff [of ops U n] by auto
  have f: "?p < node_end n \<Longrightarrow> tipSupport n = 0 \<Longrightarrow> 2 \<le> length (children n)"
    using less.prems(3,5) nd by (auto simp: span_diff_def span_clamp_def)
  have gt: "node_end n < span_diff ops (span c) a \<longleftrightarrow> node_end n < mm (node_ledger c) a"
    if "c \<in> set (children n)" for c
    using span_diff_gt [of "span c" a] ok_child(2,4) [OF less.prems(1) that] by simp
  consider "?p \<noteq> node_end n" | "?p = node_end n" "find_child ops a ?p (children n) = None"
    | i where "?p = node_end n" "find_child ops a ?p (children n) = Some i" by fastforce
  then show ?case
  proof cases
    case 1
    then have "trie_find ops a n = ([], ?p)" by (subst trie_find.simps) simp
    then show ?thesis
      using insert_at_grown [OF less.prems(1-4) refl f] 1 by simp
  next
    case 2
    then have "trie_find ops a n = ([], ?p)" by (subst trie_find.simps) simp
    then show ?thesis
      using insert_at_grown [OF less.prems(1-4) refl f] 2 gt
      by (simp add: find_child_None not_less [symmetric])
  next
    case 3
    let ?c = "children n ! i"
    have i: "i < length (children n)" and c: "?c \<in> set (children n)"
      using find_child_Some [OF 3(2)] by simp_all
    have m: "node_end n < mm (node_ledger ?c) a"
      using find_child_Some [OF 3(2)] gt [OF c] 3(1) by simp
    have "trie_find ops a n = (i # fst (trie_find ops a ?c), snd (trie_find ops a ?c))"
      using 3 by (subst trie_find.simps) (simp add: split_beta)
    moreover have "grown a k ?c (update_path (insert_at ops a k (snd (trie_find ops a ?c))) (add_branch k)
           (fst (trie_find ops a ?c)) ?c)"
      using less.IH [OF size_child [OF c]] ok_child [OF less.prems(1) c] less.prems(2,4) m by simp
    ultimately show ?thesis
      using grown_child [OF less.prems(1) i _ m less.prems(2)] by simp
  qed
qed

end

section \<open>Invariant of the trie under insertion\<close>

lemma incr_support_sorted:
  "sorted_wrt (<) (map fst m) \<Longrightarrow>
   sorted_wrt (<) (map fst (incr_support s k m)) \<and> fst ` set (incr_support s k m) = Set.insert s (fst ` set m)"
  by (induction s k m rule: incr_support.induct) auto

lemma map_of_incr_support:
  "sorted_wrt (<) (map fst m) \<Longrightarrow>
   map_of (incr_support s k m) =
     (map_of m)(s \<mapsto> (case map_of m s of None \<Rightarrow> k | Some c \<Rightarrow> c + k))"
proof (induction s k m rule: incr_support.induct)
  case (2 s k s' c m)
  have "s < s' \<Longrightarrow> map_of m s = None"
    using "2.prems" by (force simp: map_of_eq_None_iff)
  with 2 show ?case
    by (cases "s < s'") (auto simp: fun_eq_iff)
qed auto

context ledger_history
begin

lemma prefix_pred_end: "prefix_pred ops U (\<lambda>_ e. Q e)"
  by (simp add: prefix_pred_def)

lemma trie_ok_root:
  assumes "trie_ok ops U t"
  shows "ok (root t)" "node_start (root t) = 0" "node_end (root t) = 1"
    "node_ledger (root t) = op_genesis ops"
  using assms by (simp_all add: trie_ok_def span_genesis_def)

lemma new_trie_ok: "trie_ok ops U (new_LedgerTrie ops)"
  using genesis_U mismatch_self [OF genesis_U]
  by (auto simp: trie_ok_def new_LedgerTrie_def span_genesis_def node_ok.simps genesis_seq
      intro!: bexI [of _ "op_genesis ops"])

lemma insert_root_grown:
  assumes "trie_ok ops U t" "a \<in> U" "0 < k"
  shows "grown a k (root t) (root (trie_insert ops a k t))"
proof -
  have "1 \<le> mm (node_ledger (root t)) a"
    using mismatch_pos [OF ok_ledger] trie_ok_root [OF assms(1)] assms(2) by blast
  then show ?thesis
    using insert_grown [of "root t" a k] trie_ok_root [OF assms(1)] assms(2,3)
    by (simp add: trie_insert_def split_beta)
qed

lemma insert_support:
  assumes "trie_ok ops U t" "a \<in> U" "0 < k" "prefix_pred ops U P"
  shows "support P (root (trie_insert ops a k t)) =
           support P (root t) + (if P a (sq a + 1) then k else 0)"
  using insert_root_grown [OF assms(1-3)] assms(4) by (simp add: grown_def)

lemma insert_ok:
  assumes "trie_ok ops U t" "a \<in> U" "0 < k"
  shows "trie_ok ops U (trie_insert ops a k t)"
proof -
  let ?t' = "trie_insert ops a k t"
  note g = insert_root_grown [OF assms, unfolded grown_def]
  have m: "1 \<le> mm (node_ledger (root t)) a"
    using mismatch_pos [OF ok_ledger] trie_ok_root [OF assms(1)] assms(2) by blast
  have sp: "span (root ?t') = span_genesis ops"
    using g trie_ok_root [OF assms(1)] m by (simp add: span_genesis_def)
  have srt: "sorted_wrt (<) (map fst (seqSupport t))"
    and mp: "map_of (seqSupport t) s =
      (let k = support (\<lambda>_ e. e = s + 1) (root t) in if k = 0 then None else Some k)" for s
    using assms(1) by (simp_all add: trie_ok_def)
  have seq: "seqSupport ?t' = incr_support (sq a) k (seqSupport t)"
    by (simp add: trie_insert_def split_beta)
  have "support (\<lambda>_ e. e = s + 1) (root ?t') =
      support (\<lambda>_ e. e = s + 1) (root t) + (if sq a = s then k else 0)" for s
    using insert_support [OF assms prefix_pred_end, of "\<lambda>e. e = s + 1"] by simp
  then have "map_of (seqSupport ?t') s =
      (let k = support (\<lambda>_ e. e = s + 1) (root ?t') in if k = 0 then None else Some k)" for s
    using assms(3) by (simp add: seq map_of_incr_support [OF srt] mp Let_def)
  then show ?thesis
    using g sp incr_support_sorted [OF srt] by (simp add: trie_ok_def seq)
qed

end

end
