(* ===== verification/Ledger_Trie_Support.thy ===== *)
theory Ledger_Trie_Support
  imports Ledger_Trie
begin

text \<open>
  Correctness of the ancestry trie: look-ups, removal with its compression, and the refinement of the trie
  to the bag of the validated ledgers it stands for.
\<close>

section \<open>Symmetric relations along a list\<close>

lemma sorted_wrt_pair:
  assumes "sorted_wrt R xs" "\<And>x y. x \<in> set xs \<Longrightarrow> y \<in> set xs \<Longrightarrow> R x y \<Longrightarrow> R y x"
    and "{#a, b#} \<subseteq># mset xs"
  shows "R a b"
  using assms
proof (induction xs)
  case (Cons x xs)
  consider "{#a, b#} \<subseteq># mset xs" | "a = x" "b \<in> set xs" | "b = x" "a \<in> set xs"
    using Cons.prems(3)
    by (auto simp: insert_subset_eq_iff in_diff_count split: if_splits)
  then show ?case
  proof cases
    case 1
    have "sorted_wrt R xs" using Cons.prems(1) by simp
    then show ?thesis
      by (rule Cons.IH [OF _ _ 1]) (rule Cons.prems(2), simp_all)
  next
    case 2
    then show ?thesis using Cons.prems(1) by simp
  next
    case 3
    then have "R b a" using Cons.prems(1) by simp
    then show ?thesis using Cons.prems(2) [of b a] 3 by simp
  qed
qed simp

lemma sorted_wrt_mset_subset:
  assumes "sorted_wrt R xs" "\<And>x y. x \<in> set xs \<Longrightarrow> y \<in> set xs \<Longrightarrow> R x y \<Longrightarrow> R y x"
    and "mset ys \<subseteq># mset xs"
  shows "sorted_wrt R ys"
  unfolding sorted_wrt_iff_nth_less
proof (intro allI impI)
  fix i j assume ij: "i < j" "j < length ys"
  have "{#ys ! i, ys ! j#} \<subseteq># mset ys"
  proof -
    have "ys = take j ys @ ys ! j # drop (Suc j) ys"
      using ij(2) by (rule id_take_nth_drop)
    moreover have "ys ! i \<in> set (take j ys)"
      using ij by (metis in_set_conv_nth length_take min_less_iff_conj nth_take order.strict_trans)
    moreover have "mset (take j ys @ ys ! j # drop (Suc j) ys)
        = add_mset (ys ! j) (mset (take j ys) + mset (drop (Suc j) ys))"
      by simp
    ultimately show ?thesis
      by (simp add: add_mset_commute [of "ys ! i"] del: mset_append)
  qed
  then show "R (ys ! i) (ys ! j)"
    using sorted_wrt_pair [OF assms(1,2)] assms(3) by (meson subset_mset.order_trans)
qed

lemma sorted_wrt_update:
  assumes "sorted_wrt R xs" "i < length xs"
    and "\<And>j. j < length xs \<Longrightarrow> j \<noteq> i \<Longrightarrow> (i < j \<longrightarrow> R y (xs ! j)) \<and> (j < i \<longrightarrow> R (xs ! j) y)"
  shows "sorted_wrt R (xs[i := y])"
  using assms unfolding sorted_wrt_iff_nth_less by (auto simp: nth_list_update)

section \<open>Erasing a child\<close>

lemma mset_erase: "i < length cs \<Longrightarrow> add_mset (cs ! i) (mset (erase i cs)) = mset cs"
proof (cases "i = length cs - 1")
  case True
  moreover assume "i < length cs"
  then have "cs \<noteq> []" by auto
  ultimately have "cs \<noteq> []" "cs ! i = last cs" "cs[i := last cs] = cs"
    by (simp_all add: last_conv_nth)
  then show ?thesis
    by (metis append_butlast_last_id erase_def mset.simps(1,2) mset_append union_mset_add_mset_right add.right_neutral)
next
  case False
  moreover assume i: "i < length cs"
  ultimately have i': "i < length (butlast cs)" by simp
  have cs: "cs = butlast cs @ [last cs]" using i by (cases cs rule: rev_cases) auto
  have "erase i cs = (butlast cs)[i := last cs]"
    using i' by (subst erase_def, subst cs) (simp add: list_update_append)
  moreover have "mset cs = add_mset (last cs) (mset (butlast cs))"
    by (subst cs) simp
  moreover have "cs ! i = butlast cs ! i"
    using i' by (simp add: nth_butlast)
  moreover have "butlast cs ! i \<in># mset (butlast cs)"
    using i' by simp
  ultimately show ?thesis
    using i' by (simp add: mset_update)
qed

lemma erase_append: "i < length cs \<Longrightarrow> erase i (cs @ [c]) = cs[i := c]"
  by (simp add: erase_def list_update_append)

section \<open>Look-up\<close>

fun valid_path :: "nat list \<Rightarrow> 'l Node \<Rightarrow> bool" where
  "valid_path [] n \<longleftrightarrow> True"
| "valid_path (i # path) n \<longleftrightarrow> i < length (children n) \<and> valid_path path (children n ! i)"

lemma node_at_subnode: "valid_path path n \<Longrightarrow> node_at path n \<in> set (subnodes n)"
proof (induction path arbitrary: n)
  case Nil
  show ?case by (cases n) simp
next
  case (Cons i path)
  then show ?case
    using subnodes_iff [of "node_at path (children n ! i)" n] nth_mem [of i "children n"]
    by (auto simp del: nth_mem)
qed

lemma findByLedgerID_spec:
  "(findByLedgerID ops a n = None \<longrightarrow> (\<forall>d\<in>set (subnodes n). op_id ops a \<noteq> tip_id (span_tip ops (span d))))
   \<and> (\<forall>path. findByLedgerID ops a n = Some path \<longrightarrow>
        valid_path path n \<and> op_id ops a = tip_id (span_tip ops (span (node_at path n))))"
  "(findByLedgerID_list ops a i cs = None \<longrightarrow> (\<forall>c\<in>set cs. \<forall>d\<in>set (subnodes c). op_id ops a \<noteq> tip_id (span_tip ops (span d))))
   \<and> (\<forall>path. findByLedgerID_list ops a i cs = Some path \<longrightarrow>
        (\<exists>j rest. path = (i + j) # rest \<and> j < length cs \<and> valid_path rest (cs ! j)
           \<and> op_id ops a = tip_id (span_tip ops (span (node_at rest (cs ! j))))))"
proof (induction ops a n and ops a i cs rule: findByLedgerID_findByLedgerID_list.induct)
  case (1 ops a s t b cs)
  then show ?case by (fastforce split: if_splits)
next
  case (3 ops a i c cs)
  show ?case
  proof (cases "findByLedgerID ops a c")
    case None
    then have "\<exists>j rest. path = (i + j) # rest \<and> j < length (c # cs) \<and> valid_path rest ((c # cs) ! j)
           \<and> op_id ops a = tip_id (span_tip ops (span (node_at rest ((c # cs) ! j))))"
      if "findByLedgerID_list ops a i (c # cs) = Some path" for path
    proof -
      have "findByLedgerID_list ops a (Suc i) cs = Some path"
        using that None by simp
      then obtain j rest where "path = (Suc i + j) # rest" "j < length cs" "valid_path rest (cs ! j)"
          "op_id ops a = tip_id (span_tip ops (span (node_at rest (cs ! j))))"
        using 3(2) [OF None] by blast
      then show ?thesis
        by (intro exI [of _ "Suc j"] exI [of _ rest]) simp
    qed
    then show ?thesis
      using None 3 by auto
  next
    case (Some p)
    then show ?thesis using 3(1) by (auto intro!: exI [of _ 0])
  qed
qed simp

section \<open>Removal\<close>

abbreviation compressed :: "'l Node \<Rightarrow> bool" where
  "compressed n \<equiv> tipSupport n = 0 \<longrightarrow> 2 \<le> length (children n)"

context ledger_history
begin

lemma sibling_mismatch:
  assumes "ok n" "i < length (children n)" "j < length (children n)" "i \<noteq> j"
  shows "mm (node_ledger (children n ! i)) (node_ledger (children n ! j)) \<le> node_end n"
proof -
  have s: "sorted_wrt (\<lambda>x y. mm x y \<le> node_end n) (map node_ledger (children n))"
    using assms(1) node_ok_iff [of ops U n] by blast
  have U: "node_ledger (children n ! i) \<in> U" "node_ledger (children n ! j) \<in> U"
    using ok_ledger ok_child(1) [OF assms(1)] assms(2,3) by simp_all
  show ?thesis
  proof (cases "i < j")
    case True
    then show ?thesis using s assms(2,3) by (simp add: sorted_wrt_iff_nth_less)
  next
    case False
    then have "j < i" using assms(4) by simp
    then show ?thesis
      using s assms(2,3) mismatch_sym [OF U] by (simp add: sorted_wrt_iff_nth_less)
  qed
qed

lemma replace_child_ok:
  assumes n: "ok n" and i: "i < length (children n)"
    and x: "ok x" "node_start x = node_end n" "node_end n \<le> mm (node_ledger n) (node_ledger x)" "compressed x"
    and sib: "\<And>j. j < length (children n) \<Longrightarrow> j \<noteq> i \<Longrightarrow>
                mm (node_ledger x) (node_ledger (children n ! j)) \<le> node_end n"
    and b: "branchSupport x + k = branchSupport (children n ! i)"
  shows "ok (Node (span n) (tipSupport n) (branchSupport n - k) ((children n)[i := x]))" "k \<le> branchSupport n"
proof -
  let ?cs = "children n"
  note nn = node_ok_iff [of ops U n, THEN iffD1, OF n]
  have sum: "sum_list (map branchSupport (?cs[i := x])) + k = sum_list (map branchSupport ?cs)"
    using sum_list_map_update [of i "?cs[i := x]" branchSupport "?cs ! i" k] i b by simp
  then show "k \<le> branchSupport n" using nn by linarith
  have U: "node_ledger x \<in> U" "\<And>j. j < length ?cs \<Longrightarrow> node_ledger (?cs ! j) \<in> U"
    using ok_ledger x(1) ok_child(1) [OF n] by simp_all
  have srt: "sorted_wrt (\<lambda>x y. mm x y \<le> node_end n) (map node_ledger (?cs[i := x]))"
    unfolding map_update
  proof (rule sorted_wrt_update)
    show "sorted_wrt (\<lambda>x y. mm x y \<le> node_end n) (map node_ledger ?cs)" using nn by blast
    show "i < length (map node_ledger ?cs)" using i by simp
    fix j assume "j < length (map node_ledger ?cs)" "j \<noteq> i"
    then show "(i < j \<longrightarrow> mm (node_ledger x) (map node_ledger ?cs ! j) \<le> node_end n)
        \<and> (j < i \<longrightarrow> mm (map node_ledger ?cs ! j) (node_ledger x) \<le> node_end n)"
      using sib [of j] mismatch_sym [OF U(1) U(2)] by simp
  qed
  have ch: "\<forall>c\<in>set (?cs[i := x]). ok c \<and> node_start c = node_end n
      \<and> node_end n \<le> mm (node_ledger n) (node_ledger c) \<and> compressed c"
  proof
    fix c assume "c \<in> set (?cs[i := x])"
    then consider "c = x" | "c \<in> set ?cs"
      using set_update_subset_insert [of ?cs i x] by auto
    then show "ok c \<and> node_start c = node_end n
      \<and> node_end n \<le> mm (node_ledger n) (node_ledger c) \<and> compressed c"
    proof cases
      case 1
      then show ?thesis using x by simp
    next
      case 2
      then show ?thesis using ok_child [OF n] by simp
    qed
  qed
  show "ok (Node (span n) (tipSupport n) (branchSupport n - k) (?cs[i := x]))"
    using nn sum srt ch by (simp add: node_ok.simps)
qed

lemma erase_child_ok:
  assumes n: "ok n" and i: "i < length (children n)" and b: "branchSupport (children n ! i) = k"
  shows "ok (Node (span n) (tipSupport n) (branchSupport n - k) (erase i ((children n)[i := loc])))"
    "k \<le> branchSupport n"
proof -
  let ?cs = "children n" and ?er = "erase i ((children n)[i := loc])"
  note nn = node_ok_iff [of ops U n, THEN iffD1, OF n]
  have m: "mset ?cs = add_mset (?cs ! i) (mset ?er)"
    using mset_erase [of i "?cs[i := loc]"] i by (simp add: mset_update)
  have "sum_list (map branchSupport ?cs) = k + sum_list (map branchSupport ?er)"
    using arg_cong [OF m, of "\<lambda>M. sum_mset (image_mset branchSupport M)"] b
    by (simp add: sum_mset_sum_list [symmetric])
  then have sum: "sum_list (map branchSupport ?cs) = k + sum_list (map branchSupport ?er)" .
  then show "k \<le> branchSupport n" using nn by linarith
  have st: "set ?er \<subseteq> set ?cs"
    using arg_cong [OF m, of set_mset] by auto
  have srt: "sorted_wrt (\<lambda>x y. mm x y \<le> node_end n) (map node_ledger ?er)"
  proof (rule sorted_wrt_mset_subset)
    show "sorted_wrt (\<lambda>x y. mm x y \<le> node_end n) (map node_ledger ?cs)" using nn by blast
    show "mm y x \<le> node_end n" if "x \<in> set (map node_ledger ?cs)" "y \<in> set (map node_ledger ?cs)"
      "mm x y \<le> node_end n" for x y
    proof -
      have "x \<in> U" "y \<in> U" using that(1,2) ok_ledger ok_child(1) [OF n] by auto
      then show ?thesis using mismatch_sym that(3) by simp
    qed
    show "mset (map node_ledger ?er) \<subseteq># mset (map node_ledger ?cs)"
      using arg_cong [OF m, of "image_mset node_ledger"] by simp
  qed
  have ch: "\<forall>c\<in>set ?er. ok c \<and> node_start c = node_end n
      \<and> node_end n \<le> mm (node_ledger n) (node_ledger c) \<and> compressed c"
  proof
    fix c assume "c \<in> set ?er"
    then have "c \<in> set ?cs" using st by auto
    then show "ok c \<and> node_start c = node_end n
      \<and> node_end n \<le> mm (node_ledger n) (node_ledger c) \<and> compressed c"
      using ok_child [OF n] by simp
  qed
  show "ok (Node (span n) (tipSupport n) (branchSupport n - k) ?er)"
    using nn sum srt ch by (simp add: node_ok.simps)
qed

end

lemma support_erase:
  assumes "i < length cs"
  shows "sum_list (map f (erase i (cs[i := loc]))) + f (cs ! i) = sum_list (map (f :: 'b Node \<Rightarrow> nat) cs)"
proof -
  have "mset cs = add_mset (cs ! i) (mset (erase i (cs[i := loc])))"
    using mset_erase [of i "cs[i := loc]"] assms by (simp add: mset_update)
  from arg_cong [OF this, of "\<lambda>M. sum_mset (image_mset f M)"] show ?thesis
    by (simp add: sum_mset_sum_list [symmetric])
qed

lemma support_update:
  assumes "i < length cs" "f x + k = f (cs ! i)"
  shows "sum_list (map f (cs[i := x])) + k = sum_list (map (f :: 'b Node \<Rightarrow> nat) cs)"
  using sum_list_map_update [of i "cs[i := x]" f "cs ! i" k] assms by simp

context ledger_history
begin

text \<open>What the removal of \<open>k\<close> validations of the ledger at node \<open>d\<close> changes of a node above it.\<close>

definition shrunk :: "nat \<Rightarrow> 'l Node \<Rightarrow> 'l Node \<Rightarrow> 'l Node \<times> bool \<Rightarrow> bool" where
  "shrunk k d n r \<longleftrightarrow>
     ok (fst r) \<and> span (fst r) = span n \<and> branchSupport (fst r) + k = branchSupport n
     \<and> (\<forall>P. support P (fst r) + (if P (node_ledger d) (node_end d) then k else 0) = support P n)
     \<and> (\<not> snd r \<longrightarrow> compressed n \<longrightarrow> compressed (fst r))"

lemma shrunk_erase:
  assumes n: "ok n" and i: "i < length (children n)" and r: "shrunk k d (children n ! i) (loc, True)"
    and t: "tipSupport loc = 0" "children loc = []"
  shows "shrunk k d n (Node (span n) (tipSupport n) (branchSupport n - k) (erase i ((children n)[i := loc])), True)"
proof -
  have loc: "branchSupport loc = 0" "support P loc = 0" for P
    using r t node_ok_iff [of ops U loc] support_unfold [of P loc] by (simp_all add: shrunk_def)
  then have b: "branchSupport (children n ! i) = k"
    and P: "support P (children n ! i) = (if P (node_ledger d) (node_end d) then k else 0)" for P
    using r by (auto simp: shrunk_def)
  note e = erase_child_ok(1) [OF n i b, of loc] erase_child_ok(2) [OF n i b]
  have "support P (Node (span n) (tipSupport n) (branchSupport n - k) (erase i ((children n)[i := loc])))
      + (if P (node_ledger d) (node_end d) then k else 0) = support P n" for P
    using support_erase [OF i, of "support P" loc] P [of P] support_unfold [of P n] by simp
  then show ?thesis
    using e by (simp add: shrunk_def)
qed

lemma merged_child:
  assumes n: "ok n" and i: "i < length (children n)" and r: "shrunk k d (children n ! i) (loc, True)"
    and t: "tipSupport loc = 0" "children loc = [c]"
  defines "x \<equiv> Node (span_merge (span loc) (span c)) (tipSupport c) (branchSupport c) (children c)"
  shows "ok x" "node_start x = node_end n" "node_ledger x = node_ledger c" "node_end x = node_end c"
    "compressed x" "node_end n < mm (node_ledger (children n ! i)) (node_ledger x)"
    "branchSupport x = branchSupport loc" "support P x = support P loc"
proof -
  have loc: "ok loc" "span loc = span (children n ! i)" using r by (simp_all add: shrunk_def)
  have ci: "children n ! i \<in> set (children n)" using i by simp
  note cn = ok_child [OF n ci]
  note c = ok_child [OF loc(1), of c]
  have s: "span_merge (span loc) (span c)
      = \<lparr>span_start = node_start loc, span_end = node_end c, span_ledger = node_ledger c\<rparr>"
    using c(2,4) t node_ok_iff [of ops U loc] loc(1) by (simp add: span_merge_def)
  have lc: "node_start loc = node_end n" "node_end n < node_end loc"
      "node_ledger loc = node_ledger (children n ! i)"
    using cn(2,4) loc(2) by simp_all
  show "node_start x = node_end n" "node_ledger x = node_ledger c" "node_end x = node_end c"
    using lc(1) by (simp_all add: x_def s)
  show "compressed x" "branchSupport x = branchSupport loc"
    using c(5) t node_ok_iff [of ops U loc] loc(1) by (simp_all add: x_def)
  have "node_start loc < node_end c"
    using c(2,4) t node_ok_iff [of ops U loc] loc(1) by simp
  then show "ok x"
    using c(1) t node_ok_iff [of ops U c] by (simp add: x_def s node_ok.simps)
  show "node_end n < mm (node_ledger (children n ! i)) (node_ledger x)"
    using c(3) t lc(2,3) by (simp add: x_def s)
  show "support P x = support P loc"
    using t support_unfold [of P loc] support_unfold [of P c] by (simp add: x_def s)
qed

lemma shrunk_merge:
  assumes n: "ok n" and i: "i < length (children n)" and r: "shrunk k d (children n ! i) (loc, True)"
    and t: "tipSupport loc = 0" "children loc = [c]"
  defines "x \<equiv> Node (span_merge (span loc) (span c)) (tipSupport c) (branchSupport c) (children c)"
  shows "shrunk k d n (Node (span n) (tipSupport n) (branchSupport n - k)
           (erase i ((children n)[i := loc] @ [x])), True)"
proof -
  note x = merged_child [OF n i r t, folded x_def]
  have ci: "children n ! i \<in> set (children n)" using i by simp
  have U: "node_ledger n \<in> U" "node_ledger (children n ! i) \<in> U" "node_ledger x \<in> U"
    using ok_ledger n ok_child(1) [OF n ci] x(1) by simp_all
  have up: "node_end n \<le> mm (node_ledger n) (node_ledger x)"
    using mismatch_trans [OF U] ok_child(3) [OF n ci] x(6) by simp
  have sib: "mm (node_ledger x) (node_ledger (children n ! j)) \<le> node_end n"
    if j: "j < length (children n)" "j \<noteq> i" for j
  proof -
    have Uj: "node_ledger (children n ! j) \<in> U" using ok_ledger ok_child(1) [OF n] j(1) by simp
    have m: "mm (node_ledger (children n ! j)) (node_ledger (children n ! i)) \<le> node_end n"
      using sibling_mismatch [OF n j(1) i] j(2) by simp
    have "mm (node_ledger (children n ! j)) (node_ledger x)
        = mm (node_ledger (children n ! j)) (node_ledger (children n ! i))"
      using mismatch_isosceles [OF Uj U(2,3)] m x(6) by simp
    then show ?thesis using m mismatch_sym [OF Uj U(3)] by simp
  qed
  have b: "branchSupport x + k = branchSupport (children n ! i)"
    and P: "support P x + (if P (node_ledger d) (node_end d) then k else 0) = support P (children n ! i)" for P
    using r x(7,8) by (simp_all add: shrunk_def)
  note ok = replace_child_ok [OF n i x(1,2) up x(5) sib b]
  have cs: "erase i ((children n)[i := loc] @ [x]) = (children n)[i := x]"
    using i by (simp add: erase_append)
  have "support P (Node (span n) (tipSupport n) (branchSupport n - k) ((children n)[i := x]))
      + (if P (node_ledger d) (node_end d) then k else 0) = support P n" for P
    using support_update [OF i, of "support P" x] P [of P] support_unfold [of P n] by simp
  then show ?thesis
    using ok by (simp add: shrunk_def cs)
qed

lemma shrunk_stay:
  assumes n: "ok n" and i: "i < length (children n)" and r: "shrunk k d (children n ! i) (loc, loop)"
    and t: "compressed loc"
  shows "shrunk k d n (Node (span n) (tipSupport n) (branchSupport n - k) ((children n)[i := loc]), False)"
proof -
  have ci: "children n ! i \<in> set (children n)" using i by simp
  note cn = ok_child [OF n ci]
  have loc: "ok loc" "span loc = span (children n ! i)"
      "branchSupport loc + k = branchSupport (children n ! i)"
    and P: "support P loc + (if P (node_ledger d) (node_end d) then k else 0) = support P (children n ! i)" for P
    using r by (simp_all add: shrunk_def)
  have up: "node_start loc = node_end n" "node_end n \<le> mm (node_ledger n) (node_ledger loc)"
    using cn loc(2) by simp_all
  have sib: "mm (node_ledger loc) (node_ledger (children n ! j)) \<le> node_end n"
    if "j < length (children n)" "j \<noteq> i" for j
    using sibling_mismatch [OF n i that(1)] that(2) loc(2) by simp
  note ok = replace_child_ok [OF n i loc(1) up t sib loc(3)]
  have "support P (Node (span n) (tipSupport n) (branchSupport n - k) ((children n)[i := loc]))
      + (if P (node_ledger d) (node_end d) then k else 0) = support P n" for P
    using support_update [OF i, of "support P" loc] P [of P] support_unfold [of P n] by simp
  then show ?thesis
    using ok by (simp add: shrunk_def)
qed

lemma remove_path_shrunk:
  "ok n \<Longrightarrow> valid_path path n \<Longrightarrow> k \<le> tipSupport (node_at path n) \<Longrightarrow>
   shrunk k (node_at path n) n (remove_path k path n)"
proof (induction path arbitrary: n)
  case Nil
  have "ok (Node (span n) (tipSupport n - k) (branchSupport n - k) (children n))"
    using Nil node_ok_iff [of ops U n] by (simp add: node_ok.simps)
  moreover have "support P (Node (span n) (tipSupport n - k) (branchSupport n - k) (children n))
      + (if P (node_ledger n) (node_end n) then k else 0) = support P n" for P
    using Nil(3) support_unfold [of P n] by simp
  ultimately show ?case
    using Nil node_ok_iff [of ops U n] by (simp add: shrunk_def)
next
  case (Cons i path)
  have i: "i < length (children n)" and c: "children n ! i \<in> set (children n)"
    using Cons.prems(2) by simp_all
  obtain loc loop where r: "remove_path k path (children n ! i) = (loc, loop)" by fastforce
  let ?d = "node_at path (children n ! i)"
  have sh: "shrunk k ?d (children n ! i) (loc, loop)"
    using Cons.IH [of "children n ! i"] ok_child(1) [OF Cons.prems(1) c] Cons.prems r by simp
  consider "loop" "tipSupport loc = 0" "children loc = []"
    | x where "loop" "tipSupport loc = 0" "children loc = [x]"
    | x y zs where "loop" "tipSupport loc = 0" "children loc = x # y # zs"
    | "\<not> (loop \<and> tipSupport loc = 0)"
    by (metis neq_Nil_conv)
  then show ?case
  proof cases
    case 1
    then show ?thesis using shrunk_erase [OF Cons.prems(1) i] sh r by simp
  next
    case 2
    then show ?thesis using shrunk_merge [OF Cons.prems(1) i] sh r by simp
  next
    case 3
    then show ?thesis using shrunk_stay [OF Cons.prems(1) i sh] r by simp
  next
    case 4
    then have "compressed loc"
      using sh ok_child(5) [OF Cons.prems(1) c] by (auto simp: shrunk_def)
    then show ?thesis using shrunk_stay [OF Cons.prems(1) i sh] r 4 by (auto simp: Let_def)
  qed
qed

end

section \<open>The supports that the trie reports\<close>

definition tip_pred :: "('l, 'id) LedgerOps \<Rightarrow> 'l \<Rightarrow> 'l \<Rightarrow> nat \<Rightarrow> bool" where
  "tip_pred ops a l e \<longleftrightarrow> e = op_seq ops a + 1 \<and> op_seq ops a + 1 \<le> op_mismatch ops l a"

definition branch_pred :: "('l, 'id) LedgerOps \<Rightarrow> 'l \<Rightarrow> 'l \<Rightarrow> nat \<Rightarrow> bool" where
  "branch_pred ops a l e \<longleftrightarrow> op_seq ops a + 1 \<le> e \<and> op_seq ops a + 1 \<le> op_mismatch ops l a"

lemma sum_list_single:
  fixes f :: "'b \<Rightarrow> nat"
  assumes "i < length cs" "\<And>j. j < length cs \<Longrightarrow> j \<noteq> i \<Longrightarrow> f (cs ! j) = 0"
  shows "sum_list (map f cs) = f (cs ! i)"
proof -
  have "sum_list (map f cs) = (\<Sum>j = 0..<length cs. f (cs ! j))"
    by (simp add: sum_list_sum_nth)
  also have "\<dots> = (\<Sum>j\<in>{i}. f (cs ! j))"
    using assms by (intro sum.mono_neutral_right) auto
  finally show ?thesis by simp
qed

context ledger_history
begin

lemma tip_pred_prefix: "a \<in> U \<Longrightarrow> prefix_pred ops U (tip_pred ops a)"
  unfolding prefix_pred_def tip_pred_def
  using mismatch_trans mismatch_sym by (metis order_refl)

lemma branch_pred_prefix:
  assumes a: "a \<in> U"
  shows "prefix_pred ops U (branch_pred ops a)"
proof -
  have "branch_pred ops a l' e" if "l \<in> U" "l' \<in> U" "e \<le> mm l l'" "branch_pred ops a l e" for l l' e
    using that mismatch_trans [of l' l a "sq a + 1"] mismatch_sym [of l l'] a by (simp add: branch_pred_def)
  then show ?thesis
    unfolding prefix_pred_def using mismatch_sym by metis
qed

lemma tip_pred_ledger: "a \<in> U \<Longrightarrow> b \<in> U \<Longrightarrow> tip_pred ops a b (sq b + 1) \<longleftrightarrow> same_ledger ops a b"
  using mismatch_le [of a b] mismatch_sym [of a b]
  by (auto simp: tip_pred_def same_ledger_def ancestor_of_def)

lemma branch_pred_ledger: "a \<in> U \<Longrightarrow> b \<in> U \<Longrightarrow> branch_pred ops a b (sq b + 1) \<longleftrightarrow> ancestor_of ops a b"
  using mismatch_le [of a b] mismatch_sym [of a b] mismatch_le2 [of a b]
  by (auto simp: branch_pred_def ancestor_of_def)

lemma other_child:
  assumes n: "ok n" and ij: "i < length (children n)" "j < length (children n)" "i \<noteq> j"
    and d: "d \<in> set (subnodes (children n ! i))" "d' \<in> set (subnodes (children n ! j))"
    and a: "a \<in> U" "node_end n < mm (node_ledger d) a"
  shows "mm (node_ledger d') a \<le> node_end n"
proof (rule ccontr)
  assume "\<not> mm (node_ledger d') a \<le> node_end n"
  then have d'a: "Suc (node_end n) \<le> mm a (node_ledger d')"
    using mismatch_sym [of a "node_ledger d'"] a(1) ok_ledger ok_child_subnode(1) [OF n _ d(2)] ij(2) by simp
  let ?ci = "children n ! i" and ?cj = "children n ! j"
  have c: "?ci \<in> set (children n)" "?cj \<in> set (children n)" using ij by simp_all
  note di = ok_child_subnode [OF n c(1) d(1)] and dj = ok_child_subnode [OF n c(2) d(2)]
  have U: "node_ledger ?ci \<in> U" "node_ledger ?cj \<in> U" "node_ledger d \<in> U" "node_ledger d' \<in> U"
    using ok_ledger ok_child(1) [OF n c(1)] ok_child(1) [OF n c(2)] di(1) dj(1) by simp_all
  have "Suc (node_end n) \<le> mm (node_ledger ?ci) a"
    using mismatch_trans [OF U(1,3) a(1), of "Suc (node_end n)"] di(3) a(2) by simp
  then have "Suc (node_end n) \<le> mm (node_ledger ?ci) (node_ledger d')"
    using mismatch_trans [OF U(1) a(1) U(4)] d'a by blast
  then have "Suc (node_end n) \<le> mm (node_ledger ?ci) (node_ledger ?cj)"
    using mismatch_trans [OF U(1,4,2), of "Suc (node_end n)"] dj(3) mismatch_sym [OF U(2,4)] by simp
  then show False using sibling_mismatch [OF n ij] by simp
qed

lemma self_subnode: "n \<in> set (subnodes n)"
  using subnodes_iff by blast

lemma support_one_child:
  assumes n: "ok n" and i: "i < length (children n)" and d: "d \<in> set (subnodes (children n ! i))"
    and a: "a \<in> U" "node_end n < mm (node_ledger d) a" "node_end n \<le> sq a"
    and P: "P = tip_pred ops a \<or> P = branch_pred ops a"
  shows "support P n = support P (children n ! i)"
proof -
  have "support P (children n ! j) = 0" if j: "j < length (children n)" "j \<noteq> i" for j
  proof (rule support_none)
    fix d' assume d': "d' \<in> set (subnodes (children n ! j))"
    have "mm (node_ledger d') a \<le> node_end n"
      using other_child [OF n i j(1) j(2) [symmetric] d d' a(1,2)] .
    then show "\<not> P (node_ledger d') (node_end d')"
      using a(3) P by (auto simp: tip_pred_def branch_pred_def)
  qed
  then have "sum_list (map (support P) (children n)) = support P (children n ! i)"
    by (intro sum_list_single [OF i]) blast
  moreover have "\<not> P (node_ledger n) (node_end n)"
    using a(3) P by (auto simp: tip_pred_def branch_pred_def)
  ultimately show ?thesis
    using support_unfold [of P n] by simp
qed

lemma support_branch_all:
  assumes n: "ok n" and a: "a \<in> U" "sq a + 1 \<le> node_end n" "sq a + 1 \<le> mm (node_ledger n) a"
  shows "support (branch_pred ops a) n = branchSupport n"
proof -
  have "branch_pred ops a (node_ledger d) (node_end d)" if d: "d \<in> set (subnodes n)" for d
  proof -
    have s: "ok d" "node_end n \<le> node_end d" "node_end n \<le> mm (node_ledger n) (node_ledger d)"
      using ok_subnode [OF n d] by simp_all
    then show ?thesis
      using mismatch_trans [of "node_ledger d" "node_ledger n" a "sq a + 1"] a ok_ledger n
        mismatch_sym [of "node_ledger d" "node_ledger n"] by (simp add: branch_pred_def)
  qed
  then have "support (branch_pred ops a) n = support (\<lambda>_ _. True) n"
    by (intro support_cong) simp
  then show ?thesis using branchSupport_total [OF n] by simp
qed

lemma support_at_path:
  "ok n \<Longrightarrow> a \<in> U \<Longrightarrow> valid_path path n \<Longrightarrow>
   tip_pred ops a (node_ledger (node_at path n)) (node_end (node_at path n)) \<Longrightarrow>
   support (tip_pred ops a) n = tipSupport (node_at path n)
   \<and> support (branch_pred ops a) n = branchSupport (node_at path n)"
proof (induction path arbitrary: n)
  case Nil
  have "support (tip_pred ops a) c = 0" if "c \<in> set (children n)" for c
    using ok_child_subnode(2) [OF Nil.prems(1) that] Nil.prems(4)
    by (intro support_none) (fastforce simp: tip_pred_def)
  then have "support (tip_pred ops a) n = tipSupport n"
    using Nil.prems(4) support_unfold [of "tip_pred ops a" n] by simp
  moreover have "support (branch_pred ops a) n = branchSupport n"
    using support_branch_all [OF Nil.prems(1,2)] Nil.prems(4) by (simp add: tip_pred_def)
  ultimately show ?case by simp
next
  case (Cons i path)
  let ?c = "children n ! i" and ?d = "node_at path (children n ! i)"
  have i: "i < length (children n)" and v: "valid_path path ?c" and c: "?c \<in> set (children n)"
    using Cons.prems(3) by simp_all
  have d: "?d \<in> set (subnodes ?c)" using node_at_subnode [OF v] .
  have e: "node_end n < node_end ?d" using ok_child_subnode(2) [OF Cons.prems(1) c d] .
  have t: "node_end ?d = sq a + 1" "sq a + 1 \<le> mm (node_ledger ?d) a"
    using Cons.prems(4) by (simp_all add: tip_pred_def)
  have "support P n = support P ?c" if "P = tip_pred ops a \<or> P = branch_pred ops a" for P
    using support_one_child [OF Cons.prems(1) i d Cons.prems(2) _ _ that] t e by simp
  then show ?case
    using Cons.IH [OF ok_child(1) [OF Cons.prems(1) c] Cons.prems(2) v] Cons.prems(4) by simp
qed

lemma find_branch_support:
  assumes "ok n" "a \<in> U" "node_start n < mm (node_ledger n) a"
  shows "(let (path, diffSeq) = trie_find ops a n; loc = node_at path n
          in if sq a < diffSeq \<and> sq a < node_end loc then branchSupport loc else 0)
         = support (branch_pred ops a) n"
  using assms
proof (induction n rule: measure_induct_rule [of size])
  case (less n)
  let ?p = "span_diff ops (span n) a"
  have nU: "node_ledger n \<in> U" "node_start n < node_end n"
    using less.prems(1) node_ok_iff [of ops U n] by auto
  have p: "?p = min (mm (node_ledger n) a) (node_end n)"
    using less.prems(3) nU by (simp add: span_diff_def span_clamp_def)
  have le: "mm (node_ledger n) a \<le> sq a + 1" using mismatch_le2 [OF nU(1) less.prems(2)] .
  have gt: "node_end n < span_diff ops (span c) a \<longleftrightarrow> node_end n < mm (node_ledger c) a"
    if "c \<in> set (children n)" for c
    using span_diff_gt [of "span c" a] ok_child(2,4) [OF less.prems(1) that] by simp
  consider "?p < node_end n" | "?p = node_end n" "find_child ops a ?p (children n) = None"
    | i where "?p = node_end n" "find_child ops a ?p (children n) = Some i"
    using p by fastforce
  then show ?case
  proof cases
    case 1
    then have f: "trie_find ops a n = ([], ?p)" by (subst trie_find.simps) simp
    have pm: "?p = mm (node_ledger n) a" using p 1 by simp
    show ?thesis
    proof (cases "sq a < ?p")
      case True
      then show ?thesis
        using support_branch_all [OF less.prems(1,2)] pm 1 le by (simp add: f)
    next
      case False
      have "\<not> branch_pred ops a (node_ledger d) (node_end d)" if d: "d \<in> set (subnodes n)" for d
      proof -
        have s: "ok d" "node_end n \<le> mm (node_ledger n) (node_ledger d)"
          using ok_subnode [OF less.prems(1) d] by simp_all
        have dU: "node_ledger d \<in> U" using ok_ledger [OF s(1)] .
        have "mm a (node_ledger d) = mm a (node_ledger n)"
          using mismatch_isosceles [OF less.prems(2) nU(1) dU] s(2) 1 pm
            mismatch_sym [OF nU(1) less.prems(2)] by simp
        then show ?thesis
          using False pm mismatch_sym [OF nU(1) less.prems(2)] mismatch_sym [OF dU less.prems(2)]
          by (simp add: branch_pred_def)
      qed
      then show ?thesis
        using support_none [of n "branch_pred ops a"] False by (simp add: f)
    qed
  next
    case 2
    then have f: "trie_find ops a n = ([], ?p)" by (subst trie_find.simps) simp
    have m: "node_end n \<le> mm (node_ledger n) a" using p 2(1) by simp
    show ?thesis
    proof (cases "sq a < node_end n")
      case True
      then show ?thesis
        using support_branch_all [OF less.prems(1,2)] m 2(1) by (simp add: f)
    next
      case False
      have "support (branch_pred ops a) c = 0" if c: "c \<in> set (children n)" for c
      proof (rule support_none)
        fix d assume d: "d \<in> set (subnodes c)"
        note s = ok_child_subnode [OF less.prems(1) c d]
        have ca: "mm (node_ledger c) a \<le> node_end n"
          using 2 gt [OF c] c by (simp add: find_child_None not_less [symmetric])
        have cU: "node_ledger c \<in> U" "node_ledger d \<in> U"
          using ok_ledger ok_child(1) [OF less.prems(1) c] s(1) by simp_all
        have "\<not> Suc (node_end n) \<le> mm (node_ledger d) a"
          using mismatch_trans [OF cU less.prems(2), of "Suc (node_end n)"] s(3) ca by auto
        then show "\<not> branch_pred ops a (node_ledger d) (node_end d)"
          using False by (simp add: branch_pred_def)
      qed
      moreover have "\<not> branch_pred ops a (node_ledger n) (node_end n)"
        using False by (simp add: branch_pred_def)
      ultimately have "support (branch_pred ops a) n = 0"
        using support_unfold [of "branch_pred ops a" n] by simp
      then show ?thesis
        using False 2(1) by (simp add: f)
    qed
  next
    case 3
    let ?c = "children n ! i"
    have i: "i < length (children n)" and c: "?c \<in> set (children n)"
      using find_child_Some [OF 3(2)] by simp_all
    have m: "node_end n < mm (node_ledger ?c) a"
      using find_child_Some [OF 3(2)] gt [OF c] 3(1) by simp
    have f: "trie_find ops a n = (i # fst (trie_find ops a ?c), snd (trie_find ops a ?c))"
      using 3 by (subst trie_find.simps) (simp add: split_beta)
    have "node_end n \<le> sq a"
      using m mismatch_le2 [OF ok_ledger [OF ok_child(1) [OF less.prems(1) c]] less.prems(2)] by simp
    then have "support (branch_pred ops a) n = support (branch_pred ops a) ?c"
      using support_one_child [OF less.prems(1) i self_subnode less.prems(2) m] by simp
    moreover have "node_start ?c < mm (node_ledger ?c) a"
      using m ok_child(2) [OF less.prems(1) c] by simp
    ultimately show ?thesis
      using less.IH [OF size_child [OF c] ok_child(1) [OF less.prems(1) c] less.prems(2)]
      unfolding f by (simp only: split_beta Let_def fst_conv snd_conv node_at.simps)
  qed
qed

end

section \<open>The operations of the trie\<close>

lemma decr_support_sorted:
  "sorted_wrt (<) (map fst m) \<Longrightarrow>
   sorted_wrt (<) (map fst (decr_support s k m)) \<and> fst ` set (decr_support s k m) \<subseteq> fst ` set m"
  by (induction s k m rule: decr_support.induct) (auto split: if_splits, force+)

lemma map_of_decr_support:
  "sorted_wrt (<) (map fst m) \<Longrightarrow>
   map_of (decr_support s k m) = (map_of m)(s :=
     (case map_of m s of None \<Rightarrow> None | Some c \<Rightarrow> if c - k = 0 then None else Some (c - k)))"
proof (induction s k m rule: decr_support.induct)
  case (2 s k s' c m)
  have "map_of m s' = None"
    using "2.prems" by (force simp: map_of_eq_None_iff)
  with 2 show ?case
    by (auto simp: fun_eq_iff)
qed auto

context ledger_history
begin

lemma tip_match:
  assumes t: "trie_ok ops U t" and d: "d \<in> set (subnodes (root t))" and a: "a \<in> U"
  shows "op_id ops a = tip_id (span_tip ops (span d)) \<longleftrightarrow> tip_pred ops a (node_ledger d) (node_end d)"
proof (cases "d = root t")
  case True
  then have "span d = span_genesis ops" using t by (simp add: trie_ok_def)
  then show ?thesis
    using id_genesis [OF a] mismatch_pos [OF genesis_U a]
    by (auto simp: span_tip_def span_genesis_def tip_pred_def)
next
  case False
  then obtain c where c: "c \<in> set (children (root t))" "d \<in> set (subnodes c)"
    using d subnodes_iff by blast
  note k = ok_child_subnode(1,2) [OF trie_ok_root(1) [OF t] c]
  have e: "1 \<le> node_end d - 1" "node_end d = node_end d - 1 + 1"
    using k(2) trie_ok_root(3) [OF t] by simp_all
  obtain x where x: "x \<in> U" "node_end d = mm (node_ledger d) x"
    using k(1) node_ok_iff [of ops U d] by blast
  have dU: "node_ledger d \<in> U" using ok_ledger [OF k(1)] .
  have "op_id ops a = op_ancestor ops (node_ledger d) (node_end d - 1) \<longleftrightarrow>
      sq a = node_end d - 1 \<and> mm a (node_ledger d) = node_end d"
    using id_ancestor [OF a dU x(1) e(1)] x(2) e(2) by simp
  moreover have "mm a (node_ledger d) = node_end d \<longleftrightarrow> node_end d \<le> mm (node_ledger d) a"
    if "sq a = node_end d - 1"
    using that mismatch_le [OF a dU] mismatch_sym [OF a dU] e(2) by auto
  ultimately show ?thesis
    using e by (auto simp: span_tip_def Let_def tip_pred_def)
qed

lemma findByLedgerID_trie:
  assumes t: "trie_ok ops U t" and a: "a \<in> U"
  obtains "findByLedgerID ops a (root t) = None" "support (tip_pred ops a) (root t) = 0"
  | path where "findByLedgerID ops a (root t) = Some path" "valid_path path (root t)"
      "tip_pred ops a (node_ledger (node_at path (root t))) (node_end (node_at path (root t)))"
      "support (tip_pred ops a) (root t) = tipSupport (node_at path (root t))"
      "support (branch_pred ops a) (root t) = branchSupport (node_at path (root t))"
proof (cases "findByLedgerID ops a (root t)")
  case None
  then have "support (tip_pred ops a) (root t) = 0"
    using findByLedgerID_spec(1) [of ops a "root t"] tip_match [OF t _ a]
    by (intro support_none) blast
  with None show thesis by (rule that(1))
next
  case (Some path)
  then have v: "valid_path path (root t)"
    and i: "op_id ops a = tip_id (span_tip ops (span (node_at path (root t))))"
    using findByLedgerID_spec(1) [of ops a "root t"] by blast+
  have m: "tip_pred ops a (node_ledger (node_at path (root t))) (node_end (node_at path (root t)))"
    using tip_match [OF t node_at_subnode [OF v] a] i by blast
  show thesis
    using that(2) [OF Some v m] support_at_path [OF trie_ok_root(1) [OF t] a v m] by blast
qed

theorem tipSupport_spec:
  assumes "trie_ok ops U t" "a \<in> U"
  shows "trie_tipSupport ops a t = support (tip_pred ops a) (root t)"
  using assms by (rule findByLedgerID_trie) (simp_all add: trie_tipSupport_def)

theorem branchSupport_spec:
  assumes t: "trie_ok ops U t" and a: "a \<in> U"
  shows "trie_branchSupport ops a t = support (branch_pred ops a) (root t)"
  using assms
proof (rule findByLedgerID_trie)
  have "1 \<le> mm (node_ledger (root t)) a"
    using mismatch_pos [OF ok_ledger] trie_ok_root [OF t] a by blast
  then have "(let (path, diffSeq) = trie_find ops a (root t); loc = node_at path (root t)
          in if sq a < diffSeq \<and> sq a < node_end loc then branchSupport loc else 0)
         = support (branch_pred ops a) (root t)"
    using find_branch_support [OF trie_ok_root(1) [OF t] a] trie_ok_root(2) [OF t] by simp
  moreover assume "findByLedgerID ops a (root t) = None"
  ultimately show ?thesis by (simp add: trie_branchSupport_def)
qed (simp add: trie_branchSupport_def)

lemma tip_le_total: "support P n \<le> support (\<lambda>_ _. True) n"
  by (rule support_mono) simp

theorem remove_spec:
  assumes t: "trie_ok ops U t" and a: "a \<in> U" and k: "0 < k"
  defines "m \<equiv> min k (support (tip_pred ops a) (root t))"
  shows "fst (trie_remove ops a k t) \<longleftrightarrow> 0 < support (tip_pred ops a) (root t)"
    and "trie_ok ops U (snd (trie_remove ops a k t))"
    and "prefix_pred ops U P \<Longrightarrow>
      support P (root (snd (trie_remove ops a k t))) + (if P a (sq a + 1) then m else 0) = support P (root t)"
proof -
  let ?r = "trie_remove ops a k t"
  have "(fst ?r \<longleftrightarrow> 0 < support (tip_pred ops a) (root t)) \<and> trie_ok ops U (snd ?r)
      \<and> (\<forall>P. prefix_pred ops U P \<longrightarrow>
           support P (root (snd ?r)) + (if P a (sq a + 1) then m else 0) = support P (root t))"
    using t a
  proof (rule findByLedgerID_trie)
    assume "findByLedgerID ops a (root t) = None" "support (tip_pred ops a) (root t) = 0"
    then show ?thesis using t by (simp add: trie_remove_def m_def)
  next
    fix path
    let ?loc = "node_at path (root t)"
    assume p: "findByLedgerID ops a (root t) = Some path" "valid_path path (root t)"
      "tip_pred ops a (node_ledger ?loc) (node_end ?loc)"
      "support (tip_pred ops a) (root t) = tipSupport ?loc"
    show ?thesis
    proof (cases "tipSupport ?loc = 0")
      case True
      then show ?thesis using t p by (simp add: trie_remove_def m_def Let_def)
    next
      case False
      have r: "?r = (True, \<lparr>root = fst (remove_path m path (root t)),
                            seqSupport = decr_support (sq a) m (seqSupport t)\<rparr>)"
        using p False by (simp add: trie_remove_def m_def Let_def)
      have sh: "shrunk m ?loc (root t) (remove_path m path (root t))"
        using remove_path_shrunk [OF trie_ok_root(1) [OF t] p(2)] p(4) by (simp add: m_def)
      let ?n' = "fst (remove_path m path (root t))"
      have loc: "node_ledger ?loc \<in> U" "node_end ?loc = sq a + 1" "sq a + 1 \<le> mm (node_ledger ?loc) a"
        using ok_subnode [OF trie_ok_root(1) [OF t] node_at_subnode [OF p(2)]] p(3) ok_ledger
        by (simp_all add: tip_pred_def)
      have P: "support P ?n' + (if P a (sq a + 1) then m else 0) = support P (root t)"
        if "prefix_pred ops U P" for P
      proof -
        have "P (node_ledger ?loc) (node_end ?loc) = P a (sq a + 1)"
          using prefix_predD [OF that loc(1) a loc(3)] loc(2) by simp
        moreover have "support P ?n' + (if P (node_ledger ?loc) (node_end ?loc) then m else 0) = support P (root t)"
          using sh by (simp add: shrunk_def)
        ultimately show ?thesis by simp
      qed
      have srt: "sorted_wrt (<) (map fst (seqSupport t))"
        and mp: "map_of (seqSupport t) s =
          (let k = support (\<lambda>_ e. e = s + 1) (root t) in if k = 0 then None else Some k)" for s
        using t by (simp_all add: trie_ok_def)
      have "support (\<lambda>_ e. e = s + 1) ?n' =
          support (\<lambda>_ e. e = s + 1) (root t) - (if sq a = s then m else 0)" for s
        using P [OF prefix_pred_end, of "\<lambda>e. e = s + 1"] by (simp split: if_splits)
      then have "map_of (decr_support (sq a) m (seqSupport t)) s =
          (let k = support (\<lambda>_ e. e = s + 1) ?n' in if k = 0 then None else Some k)" for s
        by (simp add: map_of_decr_support [OF srt] mp Let_def)
      then have "trie_ok ops U (snd ?r)"
        using sh t decr_support_sorted [OF srt] by (simp add: trie_ok_def r shrunk_def)
      then show ?thesis
        using P p(4) False by (simp add: r)
    qed
  qed
  then show "fst ?r \<longleftrightarrow> 0 < support (tip_pred ops a) (root t)" "trie_ok ops U (snd ?r)"
    "prefix_pred ops U P \<Longrightarrow>
      support P (root (snd ?r)) + (if P a (sq a + 1) then m else 0) = support P (root t)"
    by blast+
qed

end

section \<open>The invariant check of the code\<close>

lemma sorted_map_eq:
  assumes "sorted_wrt (<) (map fst m)" "sorted_wrt (<) (map fst (m' :: (nat \<times> 'v) list))" "map_of m = map_of m'"
  shows "m = m'"
proof -
  have "set (map fst m) = set (map fst m')"
    using assms(3) by (metis dom_map_of_conv_image_fst list.set_map)
  then have k: "map fst m = map fst m'"
    using assms(1,2) by (intro strict_sorted_equal) simp_all
  have "m = map (\<lambda>k. (k, the (map_of m k))) (map fst m)" if "distinct (map fst m)" for m :: "(nat \<times> 'v) list"
    using that by (auto intro!: map_idI [symmetric] simp: comp_def)
  then show ?thesis
    using k assms strict_sorted_iff [of "map fst m"] strict_sorted_iff [of "map fst m'"] by metis
qed

definition count_at :: "(nat \<times> nat) list \<Rightarrow> nat \<Rightarrow> nat" where
  "count_at m s = (case map_of m s of None \<Rightarrow> 0 | Some c \<Rightarrow> c)"

lemma count_at_incr:
  "sorted_wrt (<) (map fst m) \<Longrightarrow> count_at (incr_support s k m) s' = count_at m s' + (if s = s' then k else 0)"
  by (auto simp: count_at_def map_of_incr_support split: option.split)

context ledger_history
begin

lemma check_stack_spec:
  "(\<forall>(r, n) \<in> set nodes. ok n \<and> (\<not> r \<longrightarrow> compressed n)) \<Longrightarrow>
   sorted_wrt (<) (map fst m) \<Longrightarrow> \<forall>s. map_of m s \<noteq> Some 0 \<Longrightarrow>
   \<exists>m'. check_stack nodes m = Some m' \<and> sorted_wrt (<) (map fst m') \<and> (\<forall>s. map_of m' s \<noteq> Some 0)
     \<and> (\<forall>s. count_at m' s = count_at m s + sum_list (map (support (\<lambda>_ e. e = s + 1) \<circ> snd) nodes))"
proof (induction nodes m rule: check_stack.induct)
  case (2 r n nodes m)
  let ?m = "if tipSupport n \<noteq> 0 then incr_support (node_end n - 1) (tipSupport n) m else m"
  let ?st = "rev (map (Pair False) (children n)) @ nodes"
  have n: "ok n" "\<not> r \<longrightarrow> compressed n" using "2.prems"(1) by auto
  have e: "0 < node_end n" using n(1) node_ok_iff [of ops U n] by auto
  have c: "\<not> (\<not> r \<and> tipSupport n = 0 \<and> length (children n) < 2)" using n(2) by auto
  have b: "\<not> tipSupport n + sum_list (map branchSupport (children n)) \<noteq> branchSupport n"
    using n(1) node_ok_iff [of ops U n] by simp
  have m: "sorted_wrt (<) (map fst ?m)" "\<forall>s. map_of ?m s \<noteq> Some 0"
    using "2.prems"(2,3) incr_support_sorted by (auto simp: map_of_incr_support split: option.split)
  have cnt: "count_at ?m s = count_at m s + (if node_end n = s + 1 then tipSupport n else 0)" for s
    using count_at_incr [OF "2.prems"(2)] e by auto
  have st: "\<forall>(r, n) \<in> set ?st. ok n \<and> (\<not> r \<longrightarrow> compressed n)"
    using "2.prems"(1) ok_child(1,5) [OF n(1)] by auto
  obtain m' where m': "check_stack ?st ?m = Some m'" "sorted_wrt (<) (map fst m')" "\<forall>s. map_of m' s \<noteq> Some 0"
      "\<forall>s. count_at m' s = count_at ?m s + sum_list (map (support (\<lambda>_ e. e = s + 1) \<circ> snd) ?st)"
    using "2.IH" [OF c refl refl b st m] by blast
  have "sum_list (map (support (\<lambda>_ e. e = s + 1) \<circ> snd) ?st)
      = sum_list (map (support (\<lambda>_ e. e = s + 1)) (children n)) + sum_list (map (support (\<lambda>_ e. e = s + 1) \<circ> snd) nodes)"
    for s
    by (simp add: rev_map [symmetric] sum_list_rev comp_def)
  then have "count_at m' s = count_at m s + sum_list (map (support (\<lambda>_ e. e = s + 1) \<circ> snd) ((r, n) # nodes))" for s
    using m'(4) cnt [of s] support_unfold [of "\<lambda>_ e. e = s + 1" n] by simp
  moreover have "check_stack ((r, n) # nodes) m = Some m'"
    using c b m'(1) by (subst check_stack.simps) (simp add: Let_def)
  ultimately show ?case
    using m'(2,3) by blast
qed simp

theorem checkInvariants_holds:
  assumes t: "trie_ok ops U t"
  shows "checkInvariants t"
proof -
  obtain m where m: "check_stack [(True, root t)] [] = Some m" "sorted_wrt (<) (map fst m)"
      "\<forall>s. map_of m s \<noteq> Some 0" "\<forall>s. count_at m s = support (\<lambda>_ e. e = s + 1) (root t)"
    using check_stack_spec [of "[(True, root t)]" "[]"] trie_ok_root(1) [OF t] by (auto simp: count_at_def)
  have "map_of m s = map_of (seqSupport t) s" for s
    using t m(3,4) [THEN spec, of s] by (auto simp: trie_ok_def count_at_def Let_def split: option.splits)
  then have "m = seqSupport t"
    using t m(2) by (intro sorted_map_eq) (auto simp: trie_ok_def)
  then show ?thesis
    using m(1) by (simp add: checkInvariants_def)
qed

end

section \<open>The trie refines the bag of validated ledgers\<close>

text \<open>
  Every sequence of insertions and removals, next to the bag of ledgers it stands for: a removal takes at most
  \<open>k\<close> validations of the given ledger away.
\<close>

inductive trie_run :: "('l, 'id) LedgerOps \<Rightarrow> 'l set \<Rightarrow> 'l multiset \<Rightarrow> 'l LedgerTrie \<Rightarrow> bool"
  for ops :: "('l, 'id) LedgerOps" and U :: "'l set" where
  init: "trie_run ops U {#} (new_LedgerTrie ops)"
| insert: "trie_run ops U M t \<Longrightarrow> a \<in> U \<Longrightarrow> 0 < k \<Longrightarrow>
    trie_run ops U (M + replicate_mset k a) (trie_insert ops a k t)"
| remove: "trie_run ops U M t \<Longrightarrow> a \<in> U \<Longrightarrow> 0 < k \<Longrightarrow> N \<subseteq># filter_mset (same_ledger ops a) M \<Longrightarrow>
    size N = min k (size (filter_mset (same_ledger ops a) M)) \<Longrightarrow>
    trie_run ops U (M - N) (snd (trie_remove ops a k t))"

definition bag_support :: "('l, 'id) LedgerOps \<Rightarrow> ('l \<Rightarrow> nat \<Rightarrow> bool) \<Rightarrow> 'l multiset \<Rightarrow> nat" where
  "bag_support ops P M = size (filter_mset (\<lambda>b. P b (op_seq ops b + 1)) M)"

context ledger_history
begin

lemma filter_replicate_mset: "filter_mset P (replicate_mset k a) = (if P a then replicate_mset k a else {#})"
  by (induction k) auto

lemma same_ledger_pred:
  assumes "prefix_pred ops U P" "a \<in> U" "b \<in> U" "same_ledger ops a b"
  shows "P b (sq b + 1) = P a (sq a + 1)"
  using prefix_predD [OF assms(1-3), of "sq a + 1"] assms(4)
  by (simp add: same_ledger_def ancestor_of_def)

lemma trie_run_refines:
  "trie_run ops U M t \<Longrightarrow>
   trie_ok ops U t \<and> set_mset M \<subseteq> U
   \<and> (\<forall>P. prefix_pred ops U P \<longrightarrow> support P (root t) = bag_support ops P M)"
proof (induction rule: trie_run.induct)
  case init
  then show ?case
    using new_trie_ok by (auto simp: bag_support_def new_LedgerTrie_def)
next
  case (insert M t a k)
  then show ?case
    using insert_ok [of t a k] insert_support [of t a k]
    by (auto simp: bag_support_def filter_replicate_mset)
next
  case (remove M t a k N)
  have t: "trie_ok ops U t" and MU: "set_mset M \<subseteq> U"
    and sup: "\<And>P. prefix_pred ops U P \<Longrightarrow> support P (root t) = bag_support ops P M"
    using remove.IH by auto
  have tip: "support (tip_pred ops a) (root t) = size (filter_mset (same_ledger ops a) M)"
  proof -
    have "filter_mset (\<lambda>b. tip_pred ops a b (sq b + 1)) M = filter_mset (same_ledger ops a) M"
      using tip_pred_ledger [OF remove.hyps(2)] MU by (intro filter_mset_cong) auto
    then show ?thesis
      using sup [OF tip_pred_prefix [OF remove.hyps(2)]] by (simp add: bag_support_def)
  qed
  note r = remove_spec [OF t remove.hyps(2,3), unfolded tip]
  have N: "N \<subseteq># M" "\<And>b. b \<in># N \<Longrightarrow> same_ledger ops a b"
    using remove.hyps(4) by (auto simp: subset_mset.trans [OF _ multiset_filter_subset] dest: mset_subset_eqD)
  have "support P (root (snd (trie_remove ops a k t))) = bag_support ops P (M - N)"
    if P: "prefix_pred ops U P" for P
  proof -
    have "filter_mset (\<lambda>b. P b (sq b + 1)) N = filter_mset (\<lambda>b. P a (sq a + 1)) N"
    proof (rule filter_mset_cong [OF refl])
      fix b assume "b \<in># N"
      then have "b \<in> U" "same_ledger ops a b"
        using N MU by (auto dest: mset_subset_eqD)
      then show "P b (sq b + 1) = P a (sq a + 1)"
        by (rule same_ledger_pred [OF P remove.hyps(2)])
    qed
    then have "bag_support ops P N = (if P a (sq a + 1) then size N else 0)"
      by (simp add: bag_support_def)
    moreover have "bag_support ops P M = bag_support ops P (M - N) + bag_support ops P N"
      using N(1) by (metis bag_support_def filter_union_mset size_union subset_mset.diff_add)
    ultimately show ?thesis
      using r(3) [OF P] sup [OF P] remove.hyps(5) by (cases "P a (sq a + 1)") simp_all
  qed
  then show ?case
    using r(2) MU by (auto dest: in_diffD)
qed

end

context ledger_history
begin

lemma run_supports:
  assumes r: "trie_run ops U M t" and a: "a \<in> U"
  shows "trie_tipSupport ops a t = size (filter_mset (same_ledger ops a) M)"
    "trie_branchSupport ops a t = size (filter_mset (ancestor_of ops a) M)"
    "fst (trie_remove ops a 1 t) \<longleftrightarrow> 0 < size (filter_mset (same_ledger ops a) M)"
    "checkInvariants t"
proof -
  have t: "trie_ok ops U t" and MU: "set_mset M \<subseteq> U"
    and sup: "\<And>P. prefix_pred ops U P \<Longrightarrow> support P (root t) = bag_support ops P M"
    using trie_run_refines [OF r] by auto
  have f: "filter_mset (\<lambda>b. tip_pred ops a b (sq b + 1)) M = filter_mset (same_ledger ops a) M"
    "filter_mset (\<lambda>b. branch_pred ops a b (sq b + 1)) M = filter_mset (ancestor_of ops a) M"
    using tip_pred_ledger [OF a] branch_pred_ledger [OF a] MU by (auto intro!: filter_mset_cong)
  note s = sup [OF tip_pred_prefix [OF a]] sup [OF branch_pred_prefix [OF a]]
  show "trie_tipSupport ops a t = size (filter_mset (same_ledger ops a) M)"
    "trie_branchSupport ops a t = size (filter_mset (ancestor_of ops a) M)"
    using tipSupport_spec [OF t a] branchSupport_spec [OF t a] s f by (simp_all add: bag_support_def)
  show "fst (trie_remove ops a 1 t) \<longleftrightarrow> 0 < size (filter_mset (same_ledger ops a) M)"
    using remove_spec(1) [OF t a] s(1) f(1) by (simp add: bag_support_def)
  show "checkInvariants t"
    using checkInvariants_holds [OF t] .
qed

end

text \<open>
  C11. The trie of validated ledgers is a faithful bag: after any sequence of insertions and removals of ledgers that
  share a known ancestor, the tip support it reports of a ledger is the number of validations of that very
  ledger, the branch support is the number of validations of the ledger and its descendants, a removal succeeds
  exactly if there is a validation to remove, and the code's own \<^verbatim>\<open>checkInvariants\<close> holds. Compression
  and splitting of spans lose nothing.
\<close>

theorem trie_refines_bag:
  assumes "trie_run rcl_ops (known_ledgers parent number base h) M t"
    and "a \<in> known_ledgers parent number base h"
  shows "trie_tipSupport rcl_ops a t = size (filter_mset (same_ledger rcl_ops a) M)
    \<and> trie_branchSupport rcl_ops a t = size (filter_mset (ancestor_of rcl_ops a) M)
    \<and> (fst (trie_remove rcl_ops a 1 t) = (0 < size (filter_mset (same_ledger rcl_ops a) M)))
    \<and> checkInvariants t"
  using rcl.run_supports [OF assms] by blast

definition demo_ledger :: "nat \<Rightarrow> uint256 list \<Rightarrow> RCLValidatedLedger" where
  "demo_ledger fork hashes =
     new_RCLValidatedLedger (of_nat (10 * length hashes + 10 + fork)) (length hashes + 1) (Some hashes)"

definition demo_parent :: "uint256 \<Rightarrow> uint256" where
  "demo_parent i = (if i = 30 then 20 else if i = 31 then 21 else if i = 20 \<or> i = 21 then 10 else 0)"

definition demo_number :: "uint256 \<Rightarrow> nat" where
  "demo_number i = unat i div 10"

lemma known_chain_code:
  "known_chain parent number base h l \<longleftrightarrow>
     0 < base \<and> number 0 = 0 \<and> minSeq l \<le> base \<and> base \<le> ledgerSeq l \<and> ancestor_id l base = h
     \<and> list_all (\<lambda>s. parent (ancestor_id l s) = ancestor_id l (s - 1)) [Suc (minSeq l)..<Suc (ledgerSeq l)]
     \<and> list_all (\<lambda>s. number (ancestor_id l s) = s) [minSeq l..<Suc (ledgerSeq l)]"
  by (auto simp: known_chain_def list_all_iff less_Suc_eq_le Suc_le_eq)

lemma demo_known:
  "demo_ledger 0 [10] \<in> known_ledgers demo_parent demo_number 1 10"
  "demo_ledger 1 [10] \<in> known_ledgers demo_parent demo_number 1 10"
  "demo_ledger 0 [10, 20] \<in> known_ledgers demo_parent demo_number 1 10"
  "demo_ledger 1 [10, 21] \<in> known_ledgers demo_parent demo_number 1 10"
  by (simp_all add: known_ledgers_def known_chain_code demo_ledger_def new_RCLValidatedLedger_def minSeq_def
      ancestor_id_def demo_parent_def demo_number_def)

definition demo_trie :: "RCLValidatedLedger LedgerTrie" where
  "demo_trie = trie_insert rcl_ops (demo_ledger 0 [10, 20]) 2
     (trie_insert rcl_ops (demo_ledger 1 [10]) 1 (new_LedgerTrie rcl_ops))"

lemma demo_run:
  "trie_run rcl_ops (known_ledgers demo_parent demo_number 1 10)
     ({#} + replicate_mset 1 (demo_ledger 1 [10]) + replicate_mset 2 (demo_ledger 0 [10, 20])) demo_trie"
  unfolding demo_trie_def
  by (intro trie_run.insert trie_run.init demo_known) simp_all

lemma demo_ancestor:
  "ancestor_of rcl_ops (demo_ledger 0 [10]) (demo_ledger 0 [10, 20])"
  "\<not> ancestor_of rcl_ops (demo_ledger 0 [10]) (demo_ledger 1 [10])"
  by (simp_all add: ancestor_of_def rcl_ops_def mismatch_def demo_ledger_def new_RCLValidatedLedger_def minSeq_def
      ancestor_id_def eval_nat_numeral)

theorem trie_refines_bag_witness:
  "trie_branchSupport rcl_ops (demo_ledger 0 [10]) demo_trie = 2 \<and> checkInvariants demo_trie"
  using trie_refines_bag [OF demo_run demo_known(1)]
  by (simp add: demo_ancestor demo_ancestor(2) [unfolded One_nat_def] eval_nat_numeral)

end
