(* ===== verification/Preferred_Ledger.thy ===== *)
theory Preferred_Ledger
  imports Ledger_Trie_Support
begin

text \<open>
  The preferred ledger of the ancestry trie: the walk of \<^verbatim>\<open>LedgerTrie::getPreferred\<close> stays inside the trie, and
  it cannot leave a ledger that is supported by more than two thirds of the validations.
\<close>

section \<open>The loops over the uncommitted support\<close>

lemma add_uncommitted_split:
  "add_uncommitted bound u it = (u', it') \<Longrightarrow>
   \<exists>con. it = con @ it' \<and> u' = u + sum_list (map snd con) \<and> (\<forall>(s, c) \<in> set con. s < bound)
     \<and> (it' \<noteq> [] \<longrightarrow> bound \<le> fst (hd it'))"
proof (induction bound u it rule: add_uncommitted.induct)
  case (2 bound u s c it)
  show ?case
  proof (cases "s < bound")
    case True
    with 2 obtain con where "it = con @ it'" "u' = u + c + sum_list (map snd con)"
      "\<forall>(s, c) \<in> set con. s < bound" "it' \<noteq> [] \<longrightarrow> bound \<le> fst (hd it')"
      by auto
    then show ?thesis
      using True by (intro exI [of _ "(s, c) # con"]) auto
  next
    case False
    then show ?thesis using "2.prems" by auto
  qed
qed auto

lemma advance_split:
  "advance e b ns u it = (ns', u', it') \<Longrightarrow>
   \<exists>con. it = con @ it' \<and> u' = u + sum_list (map snd con) \<and> (\<forall>(s, c) \<in> set con. s < e)"
proof (induction e b ns u it arbitrary: rule: advance.induct)
  case (2 e b ns u s c it)
  show ?case
  proof (cases "ns < e \<and> u < b \<and> s < e")
    case True
    with 2 obtain con where "it = con @ it'" "u' = u + c + sum_list (map snd con)"
      "\<forall>(s, c) \<in> set con. s < e"
      by auto
    then show ?thesis
      using True by (intro exI [of _ "(s, c) # con"]) auto
  next
    case False
    then have "u' = u" "it' = (s, c) # it"
      using "2.prems" by (auto split: if_splits)
    then show ?thesis by auto
  qed
qed (auto split: if_splits)

lemma advance_forward:
  "advance e b ns u it = (ns', u', it') \<Longrightarrow> sorted_wrt (<) (map fst it) \<Longrightarrow> \<forall>(s, c) \<in> set it. ns \<le> s \<Longrightarrow>
   ns \<le> ns'"
proof (induction e b ns u it rule: advance.induct)
  case (2 e b ns u s c it)
  show ?case
  proof (cases "ns < e \<and> u < b \<and> s < e")
    case True
    have "s + 1 \<le> ns'"
      using "2.IH" "2.prems" True by (fastforce simp: Suc_le_eq)
    then show ?thesis using "2.prems"(3) by simp
  next
    case False
    then show ?thesis using "2.prems"(1) by (auto split: if_splits)
  qed
qed (auto split: if_splits)

lemma advance_reach:
  "advance e b ns u it = (ns', u', it') \<Longrightarrow> sorted_wrt (<) (map fst it) \<Longrightarrow> \<forall>(s, c) \<in> set it. ns \<le> s \<Longrightarrow>
   (\<And>con rest. it = con @ rest \<Longrightarrow> \<forall>(s, c) \<in> set con. s < x \<Longrightarrow> u + sum_list (map snd con) < b) \<Longrightarrow>
   e \<le> ns' \<or> x < ns'"
proof (induction e b ns u it rule: advance.induct)
  case (1 e b ns u)
  then show ?case
    using "1.prems"(4) [of "[]" "[]"] by (auto split: if_splits)
next
  case (2 e b ns u s c it)
  have u: "u < b" using "2.prems"(4) [of "[]"] by simp
  show ?case
  proof (cases "ns < e \<and> s < e")
    case True
    then have adv: "advance e b (s + 1) (u + c) it = (ns', u', it')"
      using "2.prems"(1) u by simp
    have it: "sorted_wrt (<) (map fst it)" "\<forall>(s', c) \<in> set it. s + 1 \<le> s'"
      using "2.prems"(2) by (auto simp: Suc_le_eq)
    show ?thesis
    proof (cases "s < x")
      case sx: True
      show ?thesis
      proof (rule "2.IH")
        fix con rest assume "it = con @ rest" "\<forall>(s, c) \<in> set con. s < x"
        then show "u + c + sum_list (map snd con) < b"
          using "2.prems"(4) [of "(s, c) # con" rest] sx by (simp add: add.assoc)
      qed (use True u adv it in auto)
    next
      case False
      then show ?thesis
        using advance_forward [OF adv it] by simp
    qed
  next
    case False
    then show ?thesis using "2.prems"(1) u by (auto split: if_splits)
  qed
qed

section \<open>The best child\<close>

lemma front_strict:
  assumes "m = x \<or> x \<in> set cs" "\<forall>y \<in> Set.insert m (set cs). y = x \<or> branchSupport y < branchSupport x"
  shows "front ops m cs = x"
  using assms
proof (induction cs arbitrary: m)
  case (Cons c cs)
  have "\<not> better ops c x" "\<not> (better ops m x)"
    using Cons.prems(2) by (auto simp: better_def)
  moreover have "better ops x m" if "m \<noteq> x"
    using Cons.prems(2) that by (auto simp: better_def)
  ultimately show ?case
    using Cons by (cases "c = x"; cases "m = x") auto
qed simp

lemma best_child_strict:
  assumes "\<forall>y \<in> set ys \<union> set zs. branchSupport y \<le> r" "r < branchSupport x"
  shows "\<exists>margin. best_child ops (ys @ x # zs) = Some (x, margin) \<and> branchSupport x \<le> margin + r"
proof (cases "ys @ zs")
  case Nil
  then show ?thesis by (simp add: best_child_def)
next
  case (Cons c cs)
  let ?l = "ys @ x # zs"
  have "2 \<le> length ?l"
    using arg_cong [OF Cons, of length] by simp
  then obtain d e ds where l: "?l = d # e # ds"
    by (metis Suc_le_length_iff numeral_2_eq_2)
  have st: "Set.insert d (set (e # ds)) = Set.insert x (set ys \<union> set zs)"
    using arg_cong [OF l, of set] by auto
  have "front ops d (e # ds) = x"
  proof (rule front_strict)
    show "d = x \<or> x \<in> set (e # ds)" using st by auto
    have "\<forall>y \<in> set ys \<union> set zs. branchSupport y < branchSupport x"
      using assms by (meson le_less_trans)
    then show "\<forall>y \<in> Set.insert d (set (e # ds)). y = x \<or> branchSupport y < branchSupport x"
      unfolding st by blast
  qed
  moreover have "x \<notin> set ys" using assms by (meson UnI1 leD)
  then have "remove1 x ?l = ys @ zs" by (simp add: remove1_append)
  ultimately have "best_child ops ?l = Some (x, branchSupport x - branchSupport (front ops c cs)
        + (if startID ops (span (front ops c cs)) < startID ops (span x) then 1 else 0))"
    unfolding l by (simp add: best_child_def Let_def Cons del: front.simps remove1.simps)
  moreover have "branchSupport (front ops c cs) \<le> r"
    using assms(1) front_in [of ops c cs] arg_cong [OF Cons, of set] by auto
  ultimately show ?thesis by simp
qed

section \<open>The walk stays in the trie\<close>

lemma support_disjoint:
  assumes "\<And>l e. \<not> (P l e \<and> Q l e)"
  shows "support (\<lambda>l e. P l e \<or> Q l e) n = support P n + support Q n"
  unfolding support_def sum_list_addf [symmetric]
  by (rule arg_cong [of _ _ sum_list]) (use assms in auto)

lemma support_keys:
  "sorted_wrt (<) (map fst m) \<Longrightarrow> \<forall>(s, c) \<in> set m. c = support (\<lambda>_ e. e = s + 1) n \<Longrightarrow>
   sum_list (map snd m) = support (\<lambda>_ e. \<exists>s \<in> set (map fst m). e = s + 1) n"
proof (induction m)
  case Nil
  show ?case by (simp add: support_none)
next
  case (Cons x m)
  obtain s c where x: "x = (s, c)" by fastforce
  have "support (\<lambda>_ e. e = s + 1 \<or> (\<exists>s' \<in> set (map fst m). e = s' + 1)) n
      = support (\<lambda>_ e. e = s + 1) n + support (\<lambda>_ e. \<exists>s' \<in> set (map fst m). e = s' + 1) n"
    using Cons.prems(1) x by (intro support_disjoint) auto
  then show ?case using Cons x by simp
qed

context ledger_history
begin

lemma preferred_loop_step:
  assumes n: "ok n" and it: "sorted_wrt (<) (map fst it)"
  obtains con1 con2 it2 ns u2 where "it = con1 @ con2 @ it2" "\<forall>(s, c) \<in> set con1. s < max (node_start n + 1) li"
    "advance (node_end n) (branchSupport n) (node_start n + 1) (u + sum_list (map snd con1)) (con2 @ it2) = (ns, u2, it2)"
    "u2 = u + sum_list (map snd (con1 @ con2))" "\<forall>(s, c) \<in> set con2. s < node_end n"
    "sorted_wrt (<) (map fst (con2 @ it2))" "\<forall>(s, c) \<in> set (con2 @ it2). node_start n + 1 \<le> s"
    "node_start n + 1 \<le> ns"
    "preferred_loop ops li n u it =
       (if ns < node_end n then span_tip ops (the (span_before (span n) ns))
        else case best_child ops (children n) of
               None \<Rightarrow> span_tip ops (span n)
             | Some (best, margin) \<Rightarrow>
                 if u2 < margin \<or> u2 = 0 then preferred_loop ops li best u2 it2 else span_tip ops (span n))"
proof -
  obtain u1 it1 where a: "add_uncommitted (max (node_start n + 1) li) u it = (u1, it1)" by fastforce
  obtain ns u2 it2 where b: "advance (node_end n) (branchSupport n) (node_start n + 1) u1 it1 = (ns, u2, it2)"
    by (metis prod_cases3)
  obtain con1 where c1: "it = con1 @ it1" "u1 = u + sum_list (map snd con1)"
      "\<forall>(s, c) \<in> set con1. s < max (node_start n + 1) li"
      "it1 \<noteq> [] \<longrightarrow> max (node_start n + 1) li \<le> fst (hd it1)"
    using add_uncommitted_split [OF a] by blast
  obtain con2 where c2: "it1 = con2 @ it2" "u2 = u1 + sum_list (map snd con2)" "\<forall>(s, c) \<in> set con2. s < node_end n"
    using advance_split [OF b] by blast
  have s1: "sorted_wrt (<) (map fst it1)" using it c1(1) by (simp add: sorted_wrt_append)
  have ge: "\<forall>(s, c) \<in> set it1. node_start n + 1 \<le> s"
    using s1 c1(4) by (cases it1) auto
  have fwd: "node_start n + 1 \<le> ns" using advance_forward [OF b s1 ge] .
  have eq: "preferred_loop ops li n u it =
     (if ns < node_end n then span_tip ops (the (span_before (span n) ns))
         else case best_child ops (children n) of
                None \<Rightarrow> span_tip ops (span n)
              | Some (best, margin) \<Rightarrow>
                  if u2 < margin \<or> u2 = 0
                  then preferred_loop ops li best u2 it2
                  else span_tip ops (span n))"
    by (subst preferred_loop.simps) (simp add: a [simplified] b [simplified] Let_def)
  show thesis
    using that [of con1 con2 it2 ns u2] c1 c2 b s1 ge fwd eq by simp
qed

lemma preferred_loop_cases:
  assumes n: "ok n" and it: "sorted_wrt (<) (map fst it)"
  obtains (stop) ns where "node_start n < ns" "ns < node_end n"
      "preferred_loop ops li n u it = span_tip ops \<lparr>span_start = node_start n, span_end = ns, span_ledger = node_ledger n\<rparr>"
  | (tip) "preferred_loop ops li n u it = span_tip ops (span n)"
  | (child) c u' con it' where "c \<in> set (children n)" "it = con @ it'"
      "preferred_loop ops li n u it = preferred_loop ops li c u' it'"
proof -
  obtain con1 con2 it2 ns u2 where c1: "it = con1 @ con2 @ it2" and fwd: "node_start n + 1 \<le> ns"
    and eq: "preferred_loop ops li n u it =
       (if ns < node_end n then span_tip ops (the (span_before (span n) ns))
        else case best_child ops (children n) of
               None \<Rightarrow> span_tip ops (span n)
             | Some (best, margin) \<Rightarrow>
                 if u2 < margin \<or> u2 = 0 then preferred_loop ops li best u2 it2 else span_tip ops (span n))"
    by (rule preferred_loop_step [OF n it, of li u])
  show thesis
  proof (cases "ns < node_end n")
    case True
    then show thesis
      using stop [of ns] fwd eq by (simp add: span_before_in)
  next
    case False
    show thesis
    proof (cases "best_child ops (children n)")
      case None
      then show thesis using tip eq False by simp
    next
      case (Some p)
      obtain best margin where p: "p = (best, margin)" by fastforce
      show thesis
      proof (cases "u2 < margin \<or> u2 = 0")
        case True
        then show thesis
          using child [of best "con1 @ con2" it2 u2] best_child_in [of ops "children n" best margin] eq False Some p c1
          by simp
      next
        case False
        then show thesis using tip eq \<open>\<not> ns < node_end n\<close> Some p by simp
      qed
    qed
  qed
qed

lemma preferred_in_trie:
  assumes "ok n" "sorted_wrt (<) (map fst it)"
  shows "\<exists>d \<in> set (subnodes n). tip_ledger (preferred_loop ops li n u it) = node_ledger d
     \<and> node_start d \<le> tip_seq (preferred_loop ops li n u it)
     \<and> tip_seq (preferred_loop ops li n u it) < node_end d
     \<and> tip_id (preferred_loop ops li n u it) =
         op_ancestor ops (node_ledger d) (tip_seq (preferred_loop ops li n u it))"
  using assms
proof (induction n arbitrary: u it rule: measure_induct_rule [of size])
  case (less n)
  have e: "node_start n < node_end n" using less.prems(1) node_ok_iff [of ops U n] by auto
  from less.prems show ?case
  proof (cases rule: preferred_loop_cases [where li = li and u = u])
    case (stop ns)
    then show ?thesis
      using e by (intro bexI [of _ n]) (auto simp: span_tip_def Let_def self_subnode)
  next
    case tip
    then show ?thesis
      using e by (intro bexI [of _ n]) (auto simp: span_tip_def Let_def self_subnode)
  next
    case (child c u' con it')
    have "sorted_wrt (<) (map fst it')"
      using less.prems(2) child(2) by (simp add: sorted_wrt_append)
    then show ?thesis
      using less.IH [OF size_child [OF child(1)] ok_child(1) [OF less.prems(1) child(1)], of it' u']
        child subnodes_iff [of _ n] by auto
  qed
qed

end

section \<open>A supermajority holds the preferred ledger\<close>

context ledger_history
begin

text \<open>Consumed support below a ledger's number is not support of the ledger or its descendants.\<close>

lemma consumed_le:
  assumes t: "trie_ok ops U t" and s: "seqSupport t = pre @ it" and lt: "\<forall>(s, c) \<in> set pre. s < sq a"
  shows "sum_list (map snd pre) + support (branch_pred ops a) (root t) \<le> branchSupport (root t)"
proof -
  have srt: "sorted_wrt (<) (map fst (seqSupport t))" using t by (simp add: trie_ok_def)
  then have d: "distinct (map fst (seqSupport t))" by (rule strict_sorted_iff [THEN iffD1, THEN conjunct2])
  have "c = support (\<lambda>_ e. e = s' + 1) (root t)" if "(s', c) \<in> set pre" for s' c
  proof -
    have "map_of (seqSupport t) s' = Some c"
      using that d s by (intro map_of_is_SomeI) simp_all
    then show ?thesis
      using t by (auto simp: trie_ok_def Let_def split: if_splits)
  qed
  then have "sum_list (map snd pre) = support (\<lambda>_ e. \<exists>s \<in> set (map fst pre). e = s + 1) (root t)"
    using support_keys [of pre "root t"] srt s by (auto simp: sorted_wrt_append)
  also have "\<dots> \<le> support (\<lambda>_ e. e \<le> sq a) (root t)"
    using lt by (intro support_mono) fastforce
  finally have "sum_list (map snd pre) + support (branch_pred ops a) (root t)
      \<le> support (\<lambda>l e. e \<le> sq a \<or> branch_pred ops a l e) (root t)"
    by (subst support_disjoint) (auto simp: branch_pred_def)
  also have "\<dots> \<le> branchSupport (root t)"
    using branchSupport_total [OF trie_ok_root(1) [OF t]] tip_le_total by simp
  finally show ?thesis .
qed

lemma supported_ledger:
  assumes n: "ok n" and a: "a \<in> U" and S: "0 < support (branch_pred ops a) n"
  shows "min (sq a + 1) (node_end n) \<le> mm (node_ledger n) a"
proof -
  obtain d where d: "d \<in> set (subnodes n)" "branch_pred ops a (node_ledger d) (node_end d)"
    using S support_none [of n "branch_pred ops a"] by fastforce
  then show ?thesis
    using mismatch_trans [of "node_ledger n" "node_ledger d" a "min (sq a + 1) (node_end n)"]
      ok_subnode [OF n d(1)] ok_ledger n a by (auto simp: branch_pred_def)
qed

lemma in_supported_subtree:
  assumes n: "ok n" and a: "a \<in> U" and S: "0 < support (branch_pred ops a) n"
    and e: "sq a < node_end n" and d: "d \<in> set (subnodes n)"
  shows "sq a + 1 \<le> mm (node_ledger d) a"
proof -
  have "sq a + 1 \<le> mm (node_ledger n) a" using supported_ledger [OF n a S] e by simp
  then show ?thesis
    using mismatch_trans [of "node_ledger d" "node_ledger n" a "sq a + 1"] ok_subnode [OF n d] e
      mismatch_sym [of "node_ledger d" "node_ledger n"] ok_ledger n a by simp
qed

lemma subnode_start: "ok n \<Longrightarrow> d \<in> set (subnodes n) \<Longrightarrow> node_start n \<le> node_start d"
proof (induction n)
  case (Node s t b cs)
  let ?n = "Node s t b cs"
  show ?case
  proof (cases "d = ?n")
    case False
    then obtain c where c: "c \<in> set cs" "d \<in> set (subnodes c)"
      using Node.prems(2) by auto
    then have "node_start c \<le> node_start d" "node_start c = node_end ?n" "node_start ?n < node_end ?n"
      using Node.IH [OF c(1)] ok_child(1,2) [OF Node.prems(1), of c] node_ok_iff [of ops U ?n] Node.prems(1)
      by auto
    then show ?thesis by linarith
  qed simp
qed

text \<open>The child in which a ledger with support lies, and the support of the others.\<close>

lemma supported_child:
  assumes n: "ok n" and a: "a \<in> U" and S: "0 < support (branch_pred ops a) n" and e: "node_end n \<le> sq a"
  obtains ys c zs where "children n = ys @ c # zs" "support (branch_pred ops a) c = support (branch_pred ops a) n"
    "\<forall>y \<in> set ys \<union> set zs. branchSupport y + support (branch_pred ops a) n \<le> branchSupport n"
    "support (branch_pred ops a) n \<le> branchSupport c"
proof -
  have "support (branch_pred ops a) n = sum_list (map (support (branch_pred ops a)) (children n))"
    using e support_unfold [of "branch_pred ops a" n] by (simp add: branch_pred_def)
  then obtain c0 where c0: "c0 \<in> set (children n)" "0 < support (branch_pred ops a) c0"
    using S by (metis (no_types, lifting) imageE list.set_map neq0_conv sum_list_eq_0_iff)
  then obtain i where i: "i < length (children n)" "c0 = children n ! i" by (metis in_set_conv_nth)
  have "node_end n < mm (node_ledger c0) a"
    using supported_ledger [OF ok_child(1) [OF n c0(1)] a c0(2)] ok_child(4) [OF n c0(1)] e by linarith
  then have eq: "support (branch_pred ops a) n = support (branch_pred ops a) c0"
    using support_one_child [OF n i(1) self_subnode a _ e] i(2) by simp
  obtain ys zs where cs: "children n = ys @ c0 # zs" using c0(1) by (meson split_list)
  have le: "support (branch_pred ops a) c0 \<le> branchSupport c0"
    using branchSupport_total [OF ok_child(1) [OF n c0(1)]] tip_le_total by simp
  have b: "branchSupport n = tipSupport n + sum_list (map branchSupport (children n))"
    using n node_ok_iff [of ops U n] by blast
  have "branchSupport y + support (branch_pred ops a) n \<le> branchSupport n" if "y \<in> set ys \<union> set zs" for y
  proof -
    have "branchSupport y \<le> sum_list (map branchSupport (ys @ zs))"
      using that by (intro member_le_sum_list) auto
    then show ?thesis using b le eq by (simp add: cs)
  qed
  then show thesis using that [OF cs] eq le by simp
qed

lemma preferred_majority:
  assumes t: "trie_ok ops U t" and a: "a \<in> U" and li: "li \<le> sq a"
    and S: "S = support (branch_pred ops a) (root t)" and maj: "2 * (branchSupport (root t) - S) < S"
    and n: "ok n" "node_start n \<le> sq a" "support (branch_pred ops a) n = S" "branchSupport n \<le> branchSupport (root t)"
    and it: "seqSupport t = pre @ it" "\<forall>(s, c) \<in> set pre. s < sq a" "u = sum_list (map snd pre)"
  shows "sq a \<le> tip_seq (preferred_loop ops li n u it) \<and>
         sq a + 1 \<le> mm (tip_ledger (preferred_loop ops li n u it)) a"
  using n it
proof (induction n arbitrary: u it pre rule: measure_induct_rule [of size])
  case (less n)
  have S0: "0 < S" and SR: "S \<le> branchSupport n"
    using maj branchSupport_total [OF less.prems(1)] tip_le_total less.prems(3) by auto
  have srt: "sorted_wrt (<) (map fst it)"
    using t less.prems(5) by (simp add: trie_ok_def sorted_wrt_append)
  let ?r = "preferred_loop ops li n u it"
  obtain d where d: "d \<in> set (subnodes n)" "tip_ledger ?r = node_ledger d" "node_start d \<le> tip_seq ?r"
      "tip_seq ?r < node_end d"
    using preferred_in_trie [OF less.prems(1) srt] by blast
  have ne: "node_start n < node_end n" using less.prems(1) node_ok_iff [of ops U n] by auto
  have inside: "sq a + 1 \<le> mm (tip_ledger ?r) a" if "sq a < node_end n"
    using in_supported_subtree [OF less.prems(1) a _ that d(1)] less.prems(3) S0 d(2) by simp
  have start: "node_start n \<le> node_start d"
    using subnode_start [OF less.prems(1) d(1)] .
  obtain con1 con2 it2 ns u2 where st: "it = con1 @ con2 @ it2" "\<forall>(s, c) \<in> set con1. s < max (node_start n + 1) li"
    "advance (node_end n) (branchSupport n) (node_start n + 1) (u + sum_list (map snd con1)) (con2 @ it2) = (ns, u2, it2)"
    "u2 = u + sum_list (map snd (con1 @ con2))" "\<forall>(s, c) \<in> set con2. s < node_end n"
    "sorted_wrt (<) (map fst (con2 @ it2))" "\<forall>(s, c) \<in> set (con2 @ it2). node_start n + 1 \<le> s"
    "node_start n + 1 \<le> ns"
    and eq: "?r =
       (if ns < node_end n then span_tip ops (the (span_before (span n) ns))
        else case best_child ops (children n) of
               None \<Rightarrow> span_tip ops (span n)
             | Some (best, margin) \<Rightarrow>
                 if u2 < margin \<or> u2 = 0 then preferred_loop ops li best u2 it2 else span_tip ops (span n))"
    by (rule preferred_loop_step [OF less.prems(1) srt, of li u])
  show ?case
  proof (cases "node_start n = sq a")
    case True
    then show ?thesis using inside ne d(3) start by simp
  next
    case False
    then have lt: "node_start n < sq a" using less.prems(2) by simp
    have pre1: "\<forall>(s, c) \<in> set (pre @ con1). s < sq a"
      using less.prems(6) st(2) lt li by fastforce
    have low: "u + sum_list (map snd con1) + sum_list (map snd con) + S \<le> branchSupport (root t)"
      if "con2 @ it2 = con @ rest" "\<forall>(s, c) \<in> set con. s < sq a" for con rest
    proof -
      have "seqSupport t = (pre @ con1 @ con) @ rest" "\<forall>(s, c) \<in> set (pre @ con1 @ con). s < sq a"
        using less.prems(5) st(1) that pre1 by (simp_all add: ball_Un)
      from consumed_le [OF t this] show ?thesis
        using less.prems(7) S by (simp add: add.assoc)
    qed
    have reach: "node_end n \<le> ns \<or> sq a < ns"
      using advance_reach [OF st(3,6,7), of "sq a"] low SR maj by fastforce
    consider "ns < node_end n" "sq a < ns" | "node_end n \<le> ns" "sq a < node_end n" | "node_end n \<le> ns" "node_end n \<le> sq a"
      using reach by linarith
    then show ?thesis
    proof cases
      case 1
      then show ?thesis
        using eq inside st(8) by (simp add: span_before_in span_tip_def Let_def)
    next
      case 2
      have "node_end n - 1 \<le> tip_seq ?r"
      proof (cases "?r = span_tip ops (span n)")
        case True
        then show ?thesis by (simp add: span_tip_def Let_def)
      next
        case False
        then obtain c where c: "c \<in> set (children n)" "?r = preferred_loop ops li c u2 it2"
          using eq 2(1) best_child_in by (fastforce split: option.splits if_splits)
        have "sorted_wrt (<) (map fst it2)" using st(6) by (simp add: sorted_wrt_append)
        then obtain d' where "d' \<in> set (subnodes c)" "node_start d' \<le> tip_seq ?r"
          using preferred_in_trie [OF ok_child(1) [OF less.prems(1) c(1)], of it2 li u2] c(2) by auto
        then show ?thesis
          using subnode_start [OF ok_child(1) [OF less.prems(1) c(1)]] ok_child(2) [OF less.prems(1) c(1)] by fastforce
      qed
      then show ?thesis using inside 2(2) by simp
    next
      case 3
      obtain ys c zs where cs: "children n = ys @ c # zs" "support (branch_pred ops a) c = S"
        "\<forall>y \<in> set ys \<union> set zs. branchSupport y + S \<le> branchSupport n" "S \<le> branchSupport c"
        using supported_child [OF less.prems(1) a _ 3(2)] less.prems(3) S0 by blast
      have c: "c \<in> set (children n)" using cs(1) by simp
      let ?R = "branchSupport (root t) - S"
      have "\<forall>y \<in> set ys \<union> set zs. branchSupport y \<le> ?R"
        using cs(3) less.prems(4) by (meson add_le_imp_le_diff le_trans)
      then obtain margin where m: "best_child ops (children n) = Some (c, margin)" "branchSupport c \<le> margin + ?R"
        using best_child_strict [of ys zs ?R c ops] cs(1,4) maj by fastforce
      have c2: "\<forall>(s, c) \<in> set con2. s < sq a" using st(5) 3(2) by auto
      have "u2 < margin"
        using low [OF refl c2] st(4) m(2) cs(4) maj by simp
      then have r: "?r = preferred_loop ops li c u2 it2"
        using eq 3(1) m(1) by simp
      have "branchSupport c \<le> branchSupport n"
        using less.prems(1) node_ok_iff [of ops U n] member_le_sum_list [of "branchSupport c" "map branchSupport (children n)"] c
        by simp
      then show ?thesis
        unfolding r
        using less.IH [OF size_child [OF c] ok_child(1) [OF less.prems(1) c] _ cs(2), of "pre @ con1 @ con2" it2 u2]
          ok_child(2) [OF less.prems(1) c] 3(2) less.prems(4,5,7) st(1,4) pre1 c2 by auto
    qed
  qed
qed

end

context ledger_history
begin

lemma run_total:
  assumes "trie_run ops U M t"
  shows "branchSupport (root t) = size M" "trie_empty t \<longleftrightarrow> M = {#}"
proof -
  have "support (\<lambda>_ _. True) (root t) = bag_support ops (\<lambda>_ _. True) M"
    using trie_run_refines [OF assms] by (simp add: prefix_pred_def)
  then show "branchSupport (root t) = size M"
    using branchSupport_total [OF trie_ok_root(1)] trie_run_refines [OF assms] by (simp add: bag_support_def)
  then show "trie_empty t \<longleftrightarrow> M = {#}"
    by (simp add: trie_empty_def)
qed

lemma run_preferred_tip:
  assumes r: "trie_run ops U M t" and p: "trie_getPreferred ops li t = Some tip"
  shows "tip_ledger tip \<in> U" "tip_seq tip \<le> sq (tip_ledger tip)"
    "tip_id tip = op_ancestor ops (tip_ledger tip) (tip_seq tip)"
proof -
  have t: "trie_ok ops U t" using trie_run_refines [OF r] by blast
  have tip: "tip = preferred_loop ops li (root t) 0 (seqSupport t)"
    using p by (simp add: trie_getPreferred_def split: if_splits)
  obtain d where d: "d \<in> set (subnodes (root t))" "tip_ledger tip = node_ledger d"
      "tip_seq tip < node_end d" "tip_id tip = op_ancestor ops (node_ledger d) (tip_seq tip)"
    using preferred_in_trie [OF trie_ok_root(1) [OF t], of "seqSupport t" li 0] t
    by (auto simp: tip trie_ok_def)
  have "ok d" using ok_subnode [OF trie_ok_root(1) [OF t] d(1)] by blast
  then show "tip_ledger tip \<in> U" "tip_seq tip \<le> sq (tip_ledger tip)"
      "tip_id tip = op_ancestor ops (tip_ledger tip) (tip_seq tip)"
    using d node_ok_iff [of ops U d] by auto
qed

lemma run_preferred_majority:
  assumes r: "trie_run ops U M t" and a: "a \<in> U" and li: "li \<le> sq a"
    and maj: "2 * size (filter_mset (\<lambda>b. \<not> ancestor_of ops a b) M) < size (filter_mset (ancestor_of ops a) M)"
  shows "\<exists>tip. trie_getPreferred ops li t = Some tip \<and> sq a \<le> tip_seq tip \<and> ancestor_of ops a (tip_ledger tip)"
proof -
  let ?S = "support (branch_pred ops a) (root t)"
  have t: "trie_ok ops U t" using trie_run_refines [OF r] by blast
  have S: "?S = size (filter_mset (ancestor_of ops a) M)"
    using run_supports(2) [OF r a] branchSupport_spec [OF t a] by simp
  have T: "branchSupport (root t) = size M" using run_total(1) [OF r] .
  have "size M = ?S + size (filter_mset (\<lambda>b. \<not> ancestor_of ops a b) M)"
    unfolding S by (metis multiset_partition size_union)
  then have "2 * (branchSupport (root t) - ?S) < ?S"
    using maj T S by simp
  moreover have "\<not> trie_empty t"
    using maj run_total(2) [OF r] by auto
  ultimately have "sq a \<le> tip_seq (the (trie_getPreferred ops li t))"
      "sq a + 1 \<le> mm (tip_ledger (the (trie_getPreferred ops li t))) a"
      "trie_getPreferred ops li t \<noteq> None"
    using preferred_majority [OF t a li refl _ trie_ok_root(1) [OF t], of "[]" "seqSupport t" 0] trie_ok_root(2) [OF t]
    by (simp_all add: trie_getPreferred_def)
  moreover have "tip_ledger (the (trie_getPreferred ops li t)) \<in> U"
    using run_preferred_tip(1) [OF r] \<open>\<not> trie_empty t\<close> by (simp add: trie_getPreferred_def)
  ultimately show ?thesis
    using mismatch_le [OF a] mismatch_sym [OF a] by (fastforce simp: ancestor_of_def)
qed

end

text \<open>
  C12. Fork choice: if the validations of a ledger and its descendants outnumber all others by more than two to one,
  and this server has not issued a validation beyond that ledger, then the trie has a preferred ledger and it
  is that ledger or one of its descendants, whatever the other validations are and in whatever order they
  arrived.
\<close>

theorem supermajority_is_preferred:
  assumes "trie_run rcl_ops (known_ledgers parent number base h) M t"
    and "a \<in> known_ledgers parent number base h" and "largestIssued \<le> ledgerSeq a"
    and "2 * size (filter_mset (\<lambda>b. \<not> ancestor_of rcl_ops a b) M)
          < size (filter_mset (ancestor_of rcl_ops a) M)"
  shows "\<exists>tip. trie_getPreferred rcl_ops largestIssued t = Some tip \<and> ledgerSeq a \<le> tip_seq tip
     \<and> ancestor_of rcl_ops a (tip_ledger tip)"
proof -
  have "op_seq rcl_ops = ledgerSeq" by (simp add: rcl_ops_def)
  then show ?thesis
    using rcl.run_preferred_majority [OF assms(1,2), of largestIssued] assms(3,4) by simp
qed

lemma demo_run3:
  "trie_run rcl_ops (known_ledgers demo_parent demo_number 1 10)
     ({#} + replicate_mset 1 (demo_ledger 1 [10]) + replicate_mset 3 (demo_ledger 0 [10, 20]))
     (trie_insert rcl_ops (demo_ledger 0 [10, 20]) 3
        (trie_insert rcl_ops (demo_ledger 1 [10]) 1 (new_LedgerTrie rcl_ops)))"
  by (intro trie_run.insert trie_run.init demo_known) simp_all

theorem supermajority_is_preferred_witness:
  "\<exists>tip. trie_getPreferred rcl_ops 2 (trie_insert rcl_ops (demo_ledger 0 [10, 20]) 3
        (trie_insert rcl_ops (demo_ledger 1 [10]) 1 (new_LedgerTrie rcl_ops))) = Some tip \<and> 2 \<le> tip_seq tip
     \<and> ancestor_of rcl_ops (demo_ledger 0 [10]) (tip_ledger tip)"
proof -
  have s: "ledgerSeq (demo_ledger 0 [10]) = 2"
    by (simp add: demo_ledger_def new_RCLValidatedLedger_def)
  show ?thesis
    using supermajority_is_preferred [OF demo_run3 demo_known(1), of 2] s
    by (simp add: demo_ancestor demo_ancestor(2) [unfolded One_nat_def] numeral_3_eq_3)
qed

end
