(* ===== verification/Vote_Tracker.thy ===== *)
theory Vote_Tracker
  imports Prelude
begin

text \<open>
  Validator votes, \<^verbatim>\<open>src/xrpld/app/misc/ValidatorVoteTracker.cpp\<close>, and the place where they come from,
  \<^verbatim>\<open>handleNewValidation\<close> of \<^verbatim>\<open>src/xrpld/app/consensus/RCLValidations.cpp\<close>. A trusted current validation is
  recorded as a vote; at the start of a round the votes for the last closed ledger become
  \<^verbatim>\<open>ttVALIDATOR_VOTE\<close> pseudo-transactions in the initial position.

  The transaction set (a \<^verbatim>\<open>SHAMap\<close>) is reached through its \<^verbatim>\<open>addItem\<close>, an argument. The validator list
  and the validation store answer \<^verbatim>\<open>handleNewValidation\<close> through arguments as well.

  The lemmas show that each validator's first vote for a ledger gives exactly one transaction, that a
  second call for the same ledger gives none, and which votes the clean-up keeps.
\<close>

section \<open>State\<close>

record Vote =
  validatorKey :: PublicKey
  vote_ledgerHash :: uint256
  vote_ledgerSeq :: u32
  vote_validationHash :: uint256
  voteTime :: u32
  vote_exclusionAdd :: "AccountID option"
  vote_exclusionRemove :: "AccountID option"

record VoteTracker =
  votesByLedger :: "(u32 \<times> Vote list) list"
  processedValidators :: "(u32 \<times> PublicKey list) list"

text \<open>The fields of a \<^verbatim>\<open>ttVALIDATOR_VOTE\<close> transaction beyond the zero account.\<close>

record VoteTx =
  vt_NetworkID :: "u32 option"
  vt_LedgerSequence :: u32
  vt_LedgerHash :: uint256
  vt_ValidatorPublicKey :: PublicKey
  vt_ValidationHash :: uint256
  vt_CloseTime :: "u32 option"
  vt_ExclusionAdd :: "AccountID option"
  vt_ExclusionRemove :: "AccountID option"

definition new_VoteTracker :: VoteTracker where
  "new_VoteTracker = \<lparr>votesByLedger = [], processedValidators = []\<rparr>"

section \<open>Operations\<close>

definition entry_or_empty :: "'k \<Rightarrow> ('k \<times> 'v list) list \<Rightarrow> 'v list" where
  "entry_or_empty k m = (case map_of m k of None \<Rightarrow> [] | Some vs \<Rightarrow> vs)"

definition recordVote ::
  "PublicKey \<Rightarrow> uint256 \<Rightarrow> u32 \<Rightarrow> uint256 \<Rightarrow> u32 \<Rightarrow> AccountID option \<Rightarrow> AccountID option
     \<Rightarrow> VoteTracker \<Rightarrow> VoteTracker" where
  "recordVote key ledgerHash ledgerSeq validationHash time exAdd exRemove t =
     (let vote = \<lparr>validatorKey = key, vote_ledgerHash = ledgerHash, vote_ledgerSeq = ledgerSeq,
                  vote_validationHash = validationHash, voteTime = time,
                  vote_exclusionAdd = exAdd, vote_exclusionRemove = exRemove\<rparr>
      in t\<lparr>votesByLedger := AList.update ledgerSeq
              (entry_or_empty ledgerSeq (votesByLedger t) @ [vote]) (votesByLedger t)\<rparr>)"

definition makeVoteTx :: "u32 \<Rightarrow> Vote \<Rightarrow> VoteTx" where
  "makeVoteTx networkID vote =
     \<lparr>vt_NetworkID = Some networkID, vt_LedgerSequence = vote_ledgerSeq vote,
      vt_LedgerHash = vote_ledgerHash vote, vt_ValidatorPublicKey = validatorKey vote,
      vt_ValidationHash = vote_validationHash vote,
      vt_CloseTime = (if voteTime vote \<noteq> 0 then Some (voteTime vote) else None),
      vt_ExclusionAdd = vote_exclusionAdd vote, vt_ExclusionRemove = vote_exclusionRemove vote\<rparr>"

definition cleanup :: "u32 \<Rightarrow> VoteTracker \<Rightarrow> VoteTracker" where
  "cleanup currentLedger t =
     (let keepAfter = (if 10 < currentLedger then currentLedger - 10 else 0)
      in t\<lparr>votesByLedger := filter (\<lambda>(s, _). \<not> s < keepAfter) (votesByLedger t),
           processedValidators := filter (\<lambda>(s, _). \<not> s < keepAfter) (processedValidators t)\<rparr>)"

text \<open>One turn of the loop: the position, the processed validators and those of this batch.\<close>

definition vote_step ::
  "('pos \<Rightarrow> VoteTx \<Rightarrow> 'pos) \<Rightarrow> u32 \<Rightarrow> Vote
     \<Rightarrow> 'pos \<times> PublicKey list \<times> PublicKey list \<Rightarrow> 'pos \<times> PublicKey list \<times> PublicKey list" where
  "vote_step addItem networkID vote = (\<lambda>(position, processed, uniqueValidators).
     if validatorKey vote \<in> set processed then (position, processed, uniqueValidators)
     else if validatorKey vote \<in> set uniqueValidators then (position, processed, uniqueValidators)
     else (addItem position (makeVoteTx networkID vote),
           List.insert (validatorKey vote) processed,
           List.insert (validatorKey vote) uniqueValidators))"

definition doVoting ::
  "('pos \<Rightarrow> VoteTx \<Rightarrow> 'pos) \<Rightarrow> u32 \<Rightarrow> bool \<Rightarrow> u32 \<Rightarrow> 'pos \<Rightarrow> VoteTracker \<Rightarrow> 'pos \<times> VoteTracker" where
  "doVoting addItem networkID enabled currentSeq initialPosition t =
     (if \<not> enabled then (initialPosition, t)
      else (case map_of (votesByLedger t) currentSeq of
              None \<Rightarrow> (initialPosition, t)
            | Some [] \<Rightarrow> (initialPosition, t)
            | Some votes \<Rightarrow>
                let processed = entry_or_empty currentSeq (processedValidators t);
                    (position, processed', _) =
                      fold (vote_step addItem networkID) votes (initialPosition, processed, [])
                in (position, cleanup currentSeq
                      (t\<lparr>processedValidators :=
                           AList.update currentSeq processed' (processedValidators t)\<rparr>))))"

section \<open>Validations\<close>

datatype ValStatus = vs_current | vs_stale | vs_badSeq | vs_multiple | vs_conflicting

record STValidation =
  val_SignerPublic :: PublicKey
  val_LedgerHash :: uint256
  val_LedgerSequence :: u32
  val_SigningHash :: uint256
  val_Trusted :: bool
  val_ExclusionAdd :: "AccountID option"
  val_ExclusionRemove :: "AccountID option"

text \<open>
  The result: the validation (perhaps now marked trusted), the tracker, and the ledger handed to
  \<^verbatim>\<open>LedgerMaster::checkAccept\<close>, if any. What follows a status other than \<^verbatim>\<open>current\<close> only logs.
\<close>

definition handleNewValidation ::
  "(PublicKey \<Rightarrow> PublicKey option) \<Rightarrow> (PublicKey \<Rightarrow> PublicKey option) \<Rightarrow> (PublicKey \<Rightarrow> NodeID)
     \<Rightarrow> (NodeID \<Rightarrow> STValidation \<Rightarrow> ValStatus) \<Rightarrow> u32 \<Rightarrow> bool \<Rightarrow> STValidation \<Rightarrow> VoteTracker
     \<Rightarrow> STValidation \<times> VoteTracker \<times> (uint256 \<times> u32) option" where
  "handleNewValidation getTrustedKey getListedKey calcNodeID validations_add closeTime bypassAccept val t =
     (let signingKey = val_SignerPublic val;
          trustedKey = getTrustedKey signingKey;
          val1 = (if \<not> val_Trusted val \<and> trustedKey \<noteq> None then val\<lparr>val_Trusted := True\<rparr> else val);
          masterKey = (if trustedKey = None then getListedKey signingKey else trustedKey);
          keyForVote = (case masterKey of None \<Rightarrow> signingKey | Some k \<Rightarrow> k);
          outcome = validations_add (calcNodeID keyForVote) val1
      in if outcome = vs_current
         then (if val_Trusted val1
               then (val1,
                     recordVote keyForVote (val_LedgerHash val) (val_LedgerSequence val)
                       (val_SigningHash val1) closeTime (val_ExclusionAdd val1)
                       (val_ExclusionRemove val1) t,
                     if bypassAccept then None else Some (val_LedgerHash val, val_LedgerSequence val))
               else (val1, t, None))
         else (val1, t, None))"

section \<open>Lemmas\<close>

text \<open>The votes that become transactions: the first of each validator not yet processed.\<close>

fun first_votes :: "PublicKey list \<Rightarrow> Vote list \<Rightarrow> Vote list" where
  "first_votes seen [] = []"
| "first_votes seen (v # vs) =
     (if validatorKey v \<in> set seen then first_votes seen vs
      else v # first_votes (validatorKey v # seen) vs)"

lemma first_votes_cong: "set seen = set seen' \<Longrightarrow> first_votes seen vs = first_votes seen' vs"
proof (induction vs arbitrary: seen seen')
  case (Cons v vs)
  have "first_votes (validatorKey v # seen) vs = first_votes (validatorKey v # seen') vs"
    using Cons.prems by (intro Cons.IH) simp
  moreover have "first_votes seen vs = first_votes seen' vs"
    by (rule Cons.IH [OF Cons.prems])
  ultimately show ?case using Cons.prems by simp
qed simp

lemma first_votes_keys:
  "set (map validatorKey (first_votes seen vs)) = validatorKey ` set vs - set seen
   \<and> distinct (map validatorKey (first_votes seen vs))
   \<and> set (first_votes seen vs) \<subseteq> set vs"
proof (induction seen vs rule: first_votes.induct)
  case (2 seen v vs)
  then show ?case by (cases "validatorKey v \<in> set seen") auto
qed simp

lemma vote_loop:
  assumes "set uniq \<subseteq> set seen"
  shows "\<exists>seen' uniq'. fold (vote_step addItem nid) vs (pos, seen, uniq) =
      (foldl addItem pos (map (makeVoteTx nid) (first_votes seen vs)), seen', uniq')
    \<and> set seen' = set seen \<union> validatorKey ` set vs"
  using assms
proof (induction vs arbitrary: pos seen uniq)
  case (Cons v vs)
  show ?case
  proof (cases "validatorKey v \<in> set seen")
    case True
    then show ?thesis
      using Cons.IH [OF Cons.prems, of pos] by (auto simp: vote_step_def)
  next
    case False
    have sub: "set (List.insert (validatorKey v) uniq) \<subseteq> set (List.insert (validatorKey v) seen)"
      using Cons.prems by auto
    have "validatorKey v \<notin> set uniq" using False Cons.prems by auto
    then have s: "vote_step addItem nid v (pos, seen, uniq) =
        (addItem pos (makeVoteTx nid v), List.insert (validatorKey v) seen, List.insert (validatorKey v) uniq)"
      using False by (simp add: vote_step_def)
    have "first_votes (List.insert (validatorKey v) seen) vs = first_votes (validatorKey v # seen) vs"
      by (rule first_votes_cong) simp
    then show ?thesis
      using Cons.IH [OF sub, of "addItem pos (makeVoteTx nid v)"] False s by auto
  qed
qed auto

lemma entry_or_empty_update [simp]:
  "entry_or_empty k (AList.update k' v m) = (if k = k' then v else entry_or_empty k m)"
  by (simp add: entry_or_empty_def)

lemma map_of_filter_key: "P k \<Longrightarrow> map_of (filter (\<lambda>(s, _). P s) m) k = map_of m k"
  by (induction m) auto

lemma kept_current: "\<not> c < (if 10 < c then c - 10 else (0 :: u32))"
  by (auto simp: not_less word_le_nat_alt unat_sub_if' word_less_nat_alt)

lemma cleanup_current:
  "entry_or_empty c (processedValidators (cleanup c t)) = entry_or_empty c (processedValidators t)"
  "entry_or_empty c (votesByLedger (cleanup c t)) = entry_or_empty c (votesByLedger t)"
  using kept_current [of c]
  by (simp_all add: cleanup_def Let_def entry_or_empty_def map_of_filter_key)

lemma doVoting_generates:
  assumes "enabled" and "entry_or_empty seq (votesByLedger t) \<noteq> []"
  defines "votes \<equiv> entry_or_empty seq (votesByLedger t)"
    and "processed \<equiv> entry_or_empty seq (processedValidators t)"
  shows "fst (doVoting addItem nid enabled seq pos t) =
      foldl addItem pos (map (makeVoteTx nid) (first_votes processed votes))"
    and "set (entry_or_empty seq (processedValidators (snd (doVoting addItem nid enabled seq pos t)))) =
      set processed \<union> validatorKey ` set votes"
    and "entry_or_empty seq (votesByLedger (snd (doVoting addItem nid enabled seq pos t))) = votes"
proof -
  obtain v vs where m: "map_of (votesByLedger t) seq = Some (v # vs)" and votes: "votes = v # vs"
    using assms(2) by (auto simp: entry_or_empty_def votes_def split: option.splits) (metis list.exhaust)
  obtain seen' uniq' where l: "fold (vote_step addItem nid) votes (pos, processed, []) =
      (foldl addItem pos (map (makeVoteTx nid) (first_votes processed votes)), seen', uniq')"
    "set seen' = set processed \<union> validatorKey ` set votes"
    using vote_loop [of "[]" processed addItem nid votes pos] by auto
  have r: "doVoting addItem nid enabled seq pos t =
      (foldl addItem pos (map (makeVoteTx nid) (first_votes processed votes)),
       cleanup seq (t\<lparr>processedValidators := AList.update seq seen' (processedValidators t)\<rparr>))"
    unfolding doVoting_def using assms(1) m votes l(1)
    by (simp add: processed_def Let_def del: fold_simps)
  show "fst (doVoting addItem nid enabled seq pos t) =
      foldl addItem pos (map (makeVoteTx nid) (first_votes processed votes))"
    "set (entry_or_empty seq (processedValidators (snd (doVoting addItem nid enabled seq pos t)))) =
      set processed \<union> validatorKey ` set votes"
    "entry_or_empty seq (votesByLedger (snd (doVoting addItem nid enabled seq pos t))) = votes"
    unfolding r by (simp_all add: cleanup_current l(2) votes_def)
qed

lemma first_votes_none: "validatorKey ` set vs \<subseteq> set seen \<Longrightarrow> first_votes seen vs = []"
  by (induction vs) auto

lemma key_makeVoteTx [simp]:
  "vt_ValidatorPublicKey (makeVoteTx nid v) = validatorKey v"
  "vt_ValidatorPublicKey \<circ> makeVoteTx nid = validatorKey"
  by (simp_all add: makeVoteTx_def fun_eq_iff)

lemma doVoting_no_votes:
  "entry_or_empty seq (votesByLedger t) = [] \<Longrightarrow> doVoting addItem nid enabled seq pos t = (pos, t)"
  by (auto simp: doVoting_def entry_or_empty_def split: option.splits)

section \<open>Properties\<close>

text \<open>
  C38. One transaction per validator and ledger: \<^verbatim>\<open>doVoting\<close> adds, for the last closed ledger, exactly one
  vote transaction for each validator that has a recorded vote and was not processed before, built
  from a vote of that validator, and calling it again for the same ledger adds nothing, into
  whatever position.
\<close>

theorem doVoting_one_tx_per_validator:
  "\<exists>txs. fst (doVoting addItem nid True seq pos t) = foldl addItem pos txs
     \<and> distinct (map vt_ValidatorPublicKey txs)
     \<and> set (map vt_ValidatorPublicKey txs) =
         validatorKey ` set (entry_or_empty seq (votesByLedger t))
           - set (entry_or_empty seq (processedValidators t))
     \<and> set txs \<subseteq> makeVoteTx nid ` set (entry_or_empty seq (votesByLedger t))
     \<and> fst (doVoting addItem nid True seq pos' (snd (doVoting addItem nid True seq pos t))) = pos'"
proof (cases "entry_or_empty seq (votesByLedger t) = []")
  case True
  then show ?thesis by (intro exI [of _ "[]"]) (simp add: doVoting_no_votes)
next
  case False
  let ?t' = "snd (doVoting addItem nid True seq pos t)"
  let ?vs = "entry_or_empty seq (votesByLedger t)"
  let ?txs = "map (makeVoteTx nid) (first_votes (entry_or_empty seq (processedValidators t)) ?vs)"
  note g = doVoting_generates [OF TrueI False, of addItem nid pos]
  have "fst (doVoting addItem nid True seq pos' ?t') = pos'"
    using doVoting_generates(1) [OF TrueI, of seq ?t' addItem nid pos'] False g(2,3)
    by (simp add: first_votes_none)
  then show ?thesis
    using g(1) first_votes_keys [of "entry_or_empty seq (processedValidators t)" ?vs]
    by (intro exI [of _ ?txs]) auto
qed

text \<open>
  The clean-up after ledger \<open>c\<close> keeps votes and processed marks of ledgers \<open>c - 10\<close> and later and drops
  everything older; on the first ten ledgers it drops nothing.
\<close>

theorem cleanup_keeps_ten_ledgers:
  "map_of (votesByLedger (cleanup c t)) s =
     (if unat c \<le> unat s + 10 then map_of (votesByLedger t) s else None)
   \<and> map_of (processedValidators (cleanup c t)) s =
     (if unat c \<le> unat s + 10 then map_of (processedValidators t) s else None)"
proof -
  let ?k = "if 10 < c then c - 10 else (0 :: u32)"
  have k: "s < ?k \<longleftrightarrow> \<not> unat c \<le> unat s + 10"
    by (auto simp: word_less_nat_alt unat_sub_if')
  have none: "\<not> P s \<Longrightarrow> map_of (filter (\<lambda>(s, _). P s) m) s = None" for P and m :: "(u32 \<times> 'b) list"
    by (induction m) auto
  show ?thesis
    unfolding cleanup_def Let_def using k
    by (cases "s < ?k") (simp_all add: map_of_filter_key none)
qed

text \<open>
  Only trusted validators vote: handling a validation leaves the tracker alone unless the
  signer is trusted (or the validation was already marked so) and the validation store accepts it as
  current; then exactly one vote is added, for the ledger the validation names, under the
  validator's master key if that key is trusted or listed.
\<close>

theorem votes_come_from_trusted_validators:
  assumes "handleNewValidation getTrusted getListed calcNodeID add time bypass val t = (val', t', accept)"
    and "t' \<noteq> t"
  shows "(val_Trusted val \<or> getTrusted (val_SignerPublic val) \<noteq> None)
    \<and> (\<exists>vote. entry_or_empty (val_LedgerSequence val) (votesByLedger t') =
            entry_or_empty (val_LedgerSequence val) (votesByLedger t) @ [vote]
        \<and> validatorKey vote = (case getTrusted (val_SignerPublic val) of
              Some k \<Rightarrow> k
            | None \<Rightarrow> (case getListed (val_SignerPublic val) of Some k \<Rightarrow> k | None \<Rightarrow> val_SignerPublic val))
        \<and> add (calcNodeID (validatorKey vote)) val' = vs_current)
    \<and> processedValidators t' = processedValidators t"
  using assms
  by (auto simp: handleNewValidation_def recordVote_def Let_def split: if_splits option.splits)

definition demo_validation :: STValidation where
  "demo_validation = \<lparr>val_SignerPublic = [1], val_LedgerHash = 5, val_LedgerSequence = 20,
     val_SigningHash = 6, val_Trusted = False, val_ExclusionAdd = Some 7, val_ExclusionRemove = None\<rparr>"

definition demo_received :: "u32 \<Rightarrow> STValidation \<times> VoteTracker \<times> (uint256 \<times> u32) option" where
  "demo_received time = handleNewValidation (\<lambda>_. Some [2]) (\<lambda>_. None) (\<lambda>_. 0) (\<lambda>_ _. vs_current)
     time False demo_validation new_VoteTracker"

text \<open>
  Vote transactions depend on the local clock: two servers that receive the same trusted
  validation when their close times differ propose different transactions for it, so the two proposals
  have no transaction in common (a transaction is identified by its content).
\<close>

theorem vote_tx_depends_on_local_clock:
  fixes getListed :: "PublicKey \<Rightarrow> PublicKey option" and nid :: u32
  assumes "getTrusted (val_SignerPublic val) = Some key"
    and "\<forall>v. add (calcNodeID key) v = vs_current" and "time \<noteq> time'"
  defines "tracker c \<equiv> fst (snd (handleNewValidation getTrusted getListed calcNodeID add c True val
      new_VoteTracker))"
  defines "proposal c \<equiv> fst (doVoting (\<lambda>p tx. p @ [tx]) nid True (val_LedgerSequence val) [] (tracker c))"
  shows "length (proposal time) = 1 \<and> length (proposal time') = 1
    \<and> set (proposal time) \<inter> set (proposal time') = {}"
proof -
  define vote where "vote c = \<lparr>validatorKey = key, vote_ledgerHash = val_LedgerHash val,
    vote_ledgerSeq = val_LedgerSequence val, vote_validationHash = val_SigningHash val, voteTime = c,
    vote_exclusionAdd = val_ExclusionAdd val, vote_exclusionRemove = val_ExclusionRemove val\<rparr>" for c
  have t: "tracker c = \<lparr>votesByLedger = [(val_LedgerSequence val, [vote c])], processedValidators = []\<rparr>" for c
    using assms(1,2)
    by (auto simp: tracker_def vote_def handleNewValidation_def recordVote_def new_VoteTracker_def
        entry_or_empty_def Let_def)
  have p: "proposal c = [makeVoteTx nid (vote c)]" for c
    by (simp add: proposal_def t doVoting_def vote_step_def entry_or_empty_def Let_def)
  have "makeVoteTx nid (vote time) \<noteq> makeVoteTx nid (vote time')"
    using assms(3) by (auto simp: makeVoteTx_def vote_def split: if_splits)
  then show ?thesis by (simp add: p)
qed

end
