(* ===== verification/Validations.thy ===== *)
theory Validations
  imports Preferred_Ledger Vote_Tracker
begin

text \<open>
  The store of current and recent validations (\<^verbatim>\<open>src/xrpld/consensus/Validations.h\<close>), instantiated as in
  \<^verbatim>\<open>RCLValidations\<close>.

  \<^item> Network time (\<^verbatim>\<open>NetClock\<close>) is an \<open>int\<close> of seconds: the code promotes the 32-bit values to signed 64 bits
    before it computes with them. The steady clock is an \<open>int\<close> of nanoseconds.
  \<^item> An \<^verbatim>\<open>aged_unordered_map\<close> is an association list whose values carry the time of their last use. Expiry
    removes exactly the old entries, since the code keeps the chronological list in the order of that time.
  \<^item> The adaptor's \<^verbatim>\<open>now\<close> and \<^verbatim>\<open>acquire\<close> are arguments: \<open>acquire h\<close> is the ledger with hash \<open>h\<close> if the server has it.
  \<^item> The function-local static \<^verbatim>\<open>refreshTime\<close> of \<^verbatim>\<open>expire\<close> is a field of the state.
  \<^item> Validations are shared pointers in the code. The trust mark, their only mutable part, is set for all stored
    copies that are read, so copies are faithful.
\<close>

section \<open>Model\<close>

record ValidationParms =
  validationCURRENT_WALL :: int
  validationCURRENT_LOCAL :: int
  validationCURRENT_EARLY :: int
  validationSET_EXPIRES :: int
  validationFRESHNESS :: int

definition validationParms :: ValidationParms where
  "validationParms = \<lparr>validationCURRENT_WALL = 300, validationCURRENT_LOCAL = 180,
     validationCURRENT_EARLY = 180, validationSET_EXPIRES = 600, validationFRESHNESS = 20\<rparr>"

definition nanos :: "int \<Rightarrow> int" where
  "nanos secs = secs * 1000000000"

record SeqEnforcer =
  enf_seq :: nat
  enf_when :: int

definition new_SeqEnforcer :: SeqEnforcer where
  "new_SeqEnforcer = \<lparr>enf_seq = 0, enf_when = 0\<rparr>"

definition enforce :: "int \<Rightarrow> nat \<Rightarrow> ValidationParms \<Rightarrow> SeqEnforcer \<Rightarrow> bool \<times> SeqEnforcer" where
  "enforce now s p enf =
     (let enf1 = (if enf_when enf + nanos (validationSET_EXPIRES p) < now then enf\<lparr>enf_seq := 0\<rparr> else enf)
      in if s \<le> enf_seq enf1 then (False, enf1)
         else (True, enf1\<lparr>enf_seq := s, enf_when := now\<rparr>))"

definition isCurrent :: "ValidationParms \<Rightarrow> int \<Rightarrow> int \<Rightarrow> int \<Rightarrow> bool" where
  "isCurrent p now signTime seenTime \<longleftrightarrow>
     now - validationCURRENT_EARLY p < signTime
     \<and> signTime < now + validationCURRENT_WALL p
     \<and> (seenTime = 0 \<or> seenTime < now + validationCURRENT_LOCAL p)"

record Validation =
  vl_ledgerID :: uint256
  vl_seq :: nat
  vl_signTime :: int
  vl_seenTime :: int
  vl_key :: PublicKey
  vl_trusted :: bool
  vl_full :: bool
  vl_nodeID :: NodeID
  vl_cookie :: u64
  vl_loadFee :: "u32 option"

type_synonym ('k, 'v) aged_map = "('k \<times> int \<times> 'v) list"

definition aged_index :: "int \<Rightarrow> 'k \<Rightarrow> ('k, 'v list) aged_map \<Rightarrow> ('k, 'v list) aged_map" where
  "aged_index now k m = (case map_of m k of Some _ \<Rightarrow> m | None \<Rightarrow> AList.update k (now, []) m)"

definition aged_get :: "'k \<Rightarrow> ('k, 'v list) aged_map \<Rightarrow> 'v list" where
  "aged_get k m = (case map_of m k of Some (_, v) \<Rightarrow> v | None \<Rightarrow> [])"

definition aged_put :: "'k \<Rightarrow> 'v list \<Rightarrow> ('k, 'v list) aged_map \<Rightarrow> ('k, 'v list) aged_map" where
  "aged_put k v m = (case map_of m k of Some (t, _) \<Rightarrow> AList.update k (t, v) m | None \<Rightarrow> m)"

definition aged_touch :: "int \<Rightarrow> 'k \<Rightarrow> ('k, 'v list) aged_map \<Rightarrow> ('k, 'v list) aged_map" where
  "aged_touch now k m = (case map_of m k of Some (_, v) \<Rightarrow> AList.update k (now, v) m | None \<Rightarrow> m)"

definition aged_expire :: "int \<Rightarrow> int \<Rightarrow> ('k, 'v list) aged_map \<Rightarrow> ('k, 'v list) aged_map" where
  "aged_expire now age m = filter (\<lambda>(k, t, v). \<not> t \<le> now - age) m"

record Validations =
  current :: "(NodeID \<times> Validation) list"
  localSeqEnforcer :: SeqEnforcer
  seqEnforcers :: "(NodeID \<times> SeqEnforcer) list"
  byLedger :: "(uint256, (NodeID \<times> Validation) list) aged_map"
  bySequence :: "(nat, (NodeID \<times> Validation) list) aged_map"
  toKeep :: "(nat \<times> nat) option"
  trie :: "RCLValidatedLedger LedgerTrie"
  lastLedger :: "(NodeID \<times> RCLValidatedLedger) list"
  acquiring :: "((nat \<times> uint256) \<times> NodeID list) list"
  refreshTime :: int

definition new_Validations :: Validations where
  "new_Validations = \<lparr>current = [], localSeqEnforcer = new_SeqEnforcer, seqEnforcers = [], byLedger = [],
     bySequence = [], toKeep = None, trie = new_LedgerTrie rcl_ops, lastLedger = [], acquiring = [],
     refreshTime = 0\<rparr>"

text \<open>The block that takes a node out of a pending acquisition.\<close>

definition clear_acquiring :: "nat \<times> uint256 \<Rightarrow> NodeID \<Rightarrow> Validations \<Rightarrow> Validations" where
  "clear_acquiring key nodeID s =
     (case map_of (acquiring s) key of
        None \<Rightarrow> s
      | Some nodes \<Rightarrow>
          let rest = removeAll nodeID nodes
          in s\<lparr>acquiring := if rest = [] then AList.delete key (acquiring s)
                           else AList.update key rest (acquiring s)\<rparr>)"

definition removeTrie :: "NodeID \<Rightarrow> Validation \<Rightarrow> Validations \<Rightarrow> Validations" where
  "removeTrie nodeID val s =
     (let s1 = clear_acquiring (vl_seq val, vl_ledgerID val) nodeID s
      in case map_of (lastLedger s1) nodeID of
           None \<Rightarrow> s1
         | Some l \<Rightarrow>
             if ledgerID l = vl_ledgerID val
             then s1\<lparr>trie := snd (trie_remove rcl_ops l 1 (trie s1)),
                     lastLedger := AList.delete nodeID (lastLedger s1)\<rparr>
             else s1)"

definition updateTrie_ledger :: "NodeID \<Rightarrow> RCLValidatedLedger \<Rightarrow> Validations \<Rightarrow> Validations" where
  "updateTrie_ledger nodeID ledger s =
     (let t = (case map_of (lastLedger s) nodeID of
                 None \<Rightarrow> trie s
               | Some old \<Rightarrow> snd (trie_remove rcl_ops old 1 (trie s)))
      in s\<lparr>lastLedger := AList.update nodeID ledger (lastLedger s), trie := trie_insert rcl_ops ledger 1 t\<rparr>)"

fun acquired_loop ::
  "(uint256 \<Rightarrow> RCLValidatedLedger option) \<Rightarrow> ((nat \<times> uint256) \<times> NodeID list) list \<Rightarrow> Validations
     \<Rightarrow> ((nat \<times> uint256) \<times> NodeID list) list \<times> Validations" where
  "acquired_loop acquire [] s = ([], s)"
| "acquired_loop acquire ((key, nodes) # it) s =
     (case acquire (snd key) of
        Some ledger \<Rightarrow> acquired_loop acquire it (fold (\<lambda>nodeID. updateTrie_ledger nodeID ledger) nodes s)
      | None \<Rightarrow> (let (rest, s') = acquired_loop acquire it s in ((key, nodes) # rest, s')))"

definition checkAcquired :: "(uint256 \<Rightarrow> RCLValidatedLedger option) \<Rightarrow> Validations \<Rightarrow> Validations" where
  "checkAcquired acquire s = (let (rest, s') = acquired_loop acquire (acquiring s) s in s'\<lparr>acquiring := rest\<rparr>)"

definition updateTrie ::
  "(uint256 \<Rightarrow> RCLValidatedLedger option) \<Rightarrow> NodeID \<Rightarrow> Validation \<Rightarrow> (nat \<times> uint256) option
     \<Rightarrow> Validations \<Rightarrow> Validations" where
  "updateTrie acquire nodeID val prior s =
     (let s1 = (case prior of None \<Rightarrow> s | Some key \<Rightarrow> clear_acquiring key nodeID s);
          s2 = checkAcquired acquire s1;
          valPair = (vl_seq val, vl_ledgerID val)
      in case map_of (acquiring s2) valPair of
           Some nodes \<Rightarrow> s2\<lparr>acquiring := AList.update valPair (List.insert nodeID nodes) (acquiring s2)\<rparr>
         | None \<Rightarrow>
             (case acquire (vl_ledgerID val) of
                Some ledger \<Rightarrow> updateTrie_ledger nodeID ledger s2
              | None \<Rightarrow> s2\<lparr>acquiring := AList.update valPair [nodeID] (acquiring s2)\<rparr>))"

text \<open>\<^verbatim>\<open>current\<close>: drop what is stale and return what is live.\<close>

fun current_loop ::
  "ValidationParms \<Rightarrow> int \<Rightarrow> (NodeID \<times> Validation) list \<Rightarrow> Validations
     \<Rightarrow> (NodeID \<times> Validation) list \<times> Validations" where
  "current_loop p t [] s = ([], s)"
| "current_loop p t ((nodeID, val) # it) s =
     (if \<not> isCurrent p t (vl_signTime val) (vl_seenTime val)
      then current_loop p t it (removeTrie nodeID val s)
      else (let (live, s') = current_loop p t it s in ((nodeID, val) # live, s')))"

definition for_current :: "ValidationParms \<Rightarrow> int \<Rightarrow> Validations \<Rightarrow> (NodeID \<times> Validation) list \<times> Validations" where
  "for_current p t s = (let (live, s') = current_loop p t (current s) s in (live, s'\<lparr>current := live\<rparr>))"

definition withTrie ::
  "ValidationParms \<Rightarrow> int \<Rightarrow> (uint256 \<Rightarrow> RCLValidatedLedger option) \<Rightarrow> Validations \<Rightarrow> Validations" where
  "withTrie p t acquire s = checkAcquired acquire (snd (for_current p t s))"

definition for_ledger :: "int \<Rightarrow> uint256 \<Rightarrow> Validations \<Rightarrow> (NodeID \<times> Validation) list \<times> Validations" where
  "for_ledger now lid s =
     (case map_of (byLedger s) lid of
        None \<Rightarrow> ([], s)
      | Some (_, vals) \<Rightarrow> (vals, s\<lparr>byLedger := aged_touch now lid (byLedger s)\<rparr>))"

definition canValidateSeq :: "ValidationParms \<Rightarrow> int \<Rightarrow> nat \<Rightarrow> Validations \<Rightarrow> bool \<times> Validations" where
  "canValidateSeq p now sq s =
     (let (ok, enf) = enforce now sq p (localSeqEnforcer s) in (ok, s\<lparr>localSeqEnforcer := enf\<rparr>))"

text \<open>The first part of \<^verbatim>\<open>add\<close>: the entry by sequence number that the new validation is compared with.\<close>

definition note_sequence ::
  "ValidationParms \<Rightarrow> int \<Rightarrow> NodeID \<Rightarrow> Validation \<Rightarrow> Validations \<Rightarrow> Validation \<times> Validations" where
  "note_sequence p now nodeID val s =
     (let m = aged_index now (vl_seq val) (bySequence s);
          inner = aged_get (vl_seq val) m;
          kept = (case map_of inner nodeID of
                    None \<Rightarrow> val
                  | Some old \<Rightarrow>
                      let d = max (vl_signTime old) (vl_signTime val) - min (vl_signTime old) (vl_signTime val)
                      in if validationCURRENT_WALL p < d \<and> vl_signTime old < vl_signTime val then val else old)
      in (kept, s\<lparr>bySequence := aged_put (vl_seq val) (AList.update nodeID kept inner) m\<rparr>))"

definition enforce_node ::
  "ValidationParms \<Rightarrow> int \<Rightarrow> NodeID \<Rightarrow> nat \<Rightarrow> Validations \<Rightarrow> bool \<times> Validations" where
  "enforce_node p now nodeID sq s =
     (let (ok, enf) = enforce now sq p
            (case map_of (seqEnforcers s) nodeID of None \<Rightarrow> new_SeqEnforcer | Some e \<Rightarrow> e)
      in (ok, s\<lparr>seqEnforcers := AList.update nodeID enf (seqEnforcers s)\<rparr>))"

definition store_by_ledger :: "int \<Rightarrow> NodeID \<Rightarrow> Validation \<Rightarrow> Validations \<Rightarrow> Validations" where
  "store_by_ledger now nodeID val s =
     (let m = aged_index now (vl_ledgerID val) (byLedger s)
      in s\<lparr>byLedger := aged_put (vl_ledgerID val)
              (AList.update nodeID val (aged_get (vl_ledgerID val) m)) m\<rparr>)"

definition add ::
  "ValidationParms \<Rightarrow> int \<Rightarrow> int \<Rightarrow> (uint256 \<Rightarrow> RCLValidatedLedger option) \<Rightarrow> NodeID \<Rightarrow> Validation
     \<Rightarrow> Validations \<Rightarrow> ValStatus \<times> Validations" where
  "add p t now acquire nodeID val s =
     (if \<not> isCurrent p t (vl_signTime val) (vl_seenTime val) then (vs_stale, s)
      else
        let (seqit, s1) = note_sequence p now nodeID val s;
            (ok, s2) = enforce_node p now nodeID (vl_seq val) s1
        in if \<not> ok
           then (if vl_seq seqit = vl_seq val
                 then if vl_ledgerID seqit \<noteq> vl_ledgerID val then vs_conflicting
                      else if vl_signTime seqit \<noteq> vl_signTime val then vs_conflicting
                      else if vl_cookie seqit \<noteq> vl_cookie val then vs_multiple
                      else vs_badSeq
                 else vs_badSeq, s2)
           else
             let s3 = store_by_ledger now nodeID val s2
             in case map_of (current s3) nodeID of
                  None \<Rightarrow>
                    let s4 = s3\<lparr>current := AList.update nodeID val (current s3)\<rparr>
                    in (vs_current, if vl_trusted val then updateTrie acquire nodeID val None s4 else s4)
                | Some oldVal \<Rightarrow>
                    if vl_signTime oldVal < vl_signTime val
                    then let s4 = s3\<lparr>current := AList.update nodeID val (current s3)\<rparr>
                         in (vs_current,
                             if vl_trusted val
                             then updateTrie acquire nodeID val (Some (vl_seq oldVal, vl_ledgerID oldVal)) s4
                             else s4)
                    else (vs_stale, s3))"

definition setSeqToKeep :: "nat \<Rightarrow> nat \<Rightarrow> Validations \<Rightarrow> Validations" where
  "setSeqToKeep low high s = s\<lparr>toKeep := Some (low, high)\<rparr>"

definition refresh_kept :: "int \<Rightarrow> nat \<Rightarrow> nat \<Rightarrow> Validations \<Rightarrow> Validations" where
  "refresh_kept now low high s =
     s\<lparr>byLedger := map (\<lambda>(k, t, vals).
          (k, (case vals of [] \<Rightarrow> t | (_, v) # _ \<Rightarrow> if low \<le> vl_seq v \<and> vl_seq v < high then now else t), vals))
          (byLedger s),
       bySequence := map (\<lambda>(k, t, vals). (k, (if low \<le> k \<and> k < high then now else t), vals)) (bySequence s)\<rparr>"

definition expire :: "ValidationParms \<Rightarrow> int \<Rightarrow> Validations \<Rightarrow> Validations" where
  "expire p now s =
     (let s1 = (case toKeep s of
                  None \<Rightarrow> s
                | Some (low, high) \<Rightarrow>
                    if refreshTime s \<le> now
                    then (refresh_kept now low high s)
                           \<lparr>refreshTime := now + nanos (validationSET_EXPIRES p) - nanos (validationFRESHNESS p)\<rparr>
                    else s)
      in s1\<lparr>byLedger := aged_expire now (nanos (validationSET_EXPIRES p)) (byLedger s1),
            bySequence := aged_expire now (nanos (validationSET_EXPIRES p)) (bySequence s1)\<rparr>)"

definition mark_trust :: "NodeID list \<Rightarrow> NodeID list \<Rightarrow> NodeID \<Rightarrow> Validation \<Rightarrow> Validation" where
  "mark_trust added removed nodeID v =
     (if nodeID \<in> set added then v\<lparr>vl_trusted := True\<rparr>
      else if nodeID \<in> set removed then v\<lparr>vl_trusted := False\<rparr> else v)"

fun trust_loop ::
  "(uint256 \<Rightarrow> RCLValidatedLedger option) \<Rightarrow> NodeID list \<Rightarrow> NodeID list \<Rightarrow> (NodeID \<times> Validation) list
     \<Rightarrow> Validations \<Rightarrow> Validations" where
  "trust_loop acquire added removed [] s = s"
| "trust_loop acquire added removed ((nodeID, v) # it) s =
     (let v' = mark_trust added removed nodeID v;
          s1 = s\<lparr>current := AList.update nodeID v' (current s)\<rparr>
      in trust_loop acquire added removed it
           (if nodeID \<in> set added then updateTrie acquire nodeID v' None s1
            else if nodeID \<in> set removed then removeTrie nodeID v' s1 else s1))"

definition trustChanged ::
  "(uint256 \<Rightarrow> RCLValidatedLedger option) \<Rightarrow> NodeID list \<Rightarrow> NodeID list \<Rightarrow> Validations \<Rightarrow> Validations" where
  "trustChanged acquire added removed s =
     (let s1 = trust_loop acquire added removed (current s) s
      in s1\<lparr>byLedger := map (\<lambda>(k, t, vals). (k, t, map (\<lambda>(n, v). (n, mark_trust added removed n v)) vals))
               (byLedger s1)\<rparr>)"

fun max_element :: "('a \<Rightarrow> 'a \<Rightarrow> bool) \<Rightarrow> 'a \<Rightarrow> 'a list \<Rightarrow> 'a" where
  "max_element lt m [] = m"
| "max_element lt m (x # xs) = max_element lt (if lt m x then x else m) xs"

definition acquiring_less ::
  "(nat \<times> uint256) \<times> NodeID list \<Rightarrow> (nat \<times> uint256) \<times> NodeID list \<Rightarrow> bool" where
  "acquiring_less a b \<longleftrightarrow>
     length (snd a) < length (snd b)
     \<or> length (snd a) = length (snd b) \<and> snd (fst a) < snd (fst b)"

definition getPreferred ::
  "ValidationParms \<Rightarrow> int \<Rightarrow> (uint256 \<Rightarrow> RCLValidatedLedger option) \<Rightarrow> RCLValidatedLedger \<Rightarrow> Validations
     \<Rightarrow> (nat \<times> uint256) option \<times> Validations" where
  "getPreferred p t acquire cur s =
     (let s1 = withTrie p t acquire s
      in (case trie_getPreferred rcl_ops (enf_seq (localSeqEnforcer s1)) (trie s1) of
            None \<Rightarrow> (case acquiring s1 of
                      [] \<Rightarrow> None
                    | a # as \<Rightarrow> Some (fst (max_element acquiring_less a as)))
          | Some preferred \<Rightarrow>
              if tip_seq preferred = ledgerSeq cur + 1
                 \<and> ancestor_id (tip_ledger preferred) (ledgerSeq cur) = ledgerID cur
              then Some (ledgerSeq cur, ledgerID cur)
              else if ledgerSeq cur < tip_seq preferred then Some (tip_seq preferred, tip_id preferred)
              else if ancestor_id cur (tip_seq preferred) \<noteq> tip_id preferred
              then Some (tip_seq preferred, tip_id preferred)
              else Some (ledgerSeq cur, ledgerID cur), s1))"

definition getPreferred_min ::
  "ValidationParms \<Rightarrow> int \<Rightarrow> (uint256 \<Rightarrow> RCLValidatedLedger option) \<Rightarrow> RCLValidatedLedger \<Rightarrow> nat \<Rightarrow> Validations
     \<Rightarrow> uint256 \<times> Validations" where
  "getPreferred_min p t acquire cur minValidSeq s =
     (let (preferred, s1) = getPreferred p t acquire cur s
      in (case preferred of
            Some (sq, i) \<Rightarrow> if minValidSeq \<le> sq then i else ledgerID cur
          | None \<Rightarrow> ledgerID cur, s1))"

definition count_less :: "uint256 \<times> u32 \<Rightarrow> uint256 \<times> u32 \<Rightarrow> bool" where
  "count_less a b \<longleftrightarrow> snd a < snd b \<or> snd a = snd b \<and> fst a < fst b"

definition getPreferredLCL ::
  "ValidationParms \<Rightarrow> int \<Rightarrow> (uint256 \<Rightarrow> RCLValidatedLedger option) \<Rightarrow> RCLValidatedLedger \<Rightarrow> nat
     \<Rightarrow> (uint256 \<times> u32) list \<Rightarrow> Validations \<Rightarrow> uint256 \<times> Validations" where
  "getPreferredLCL p t acquire lcl minSq peerCounts s =
     (let (preferred, s1) = getPreferred p t acquire lcl s
      in (case preferred of
            Some (sq, i) \<Rightarrow> if minSq \<le> sq then i else ledgerID lcl
          | None \<Rightarrow> (case peerCounts of
                      [] \<Rightarrow> ledgerID lcl
                    | c # cs \<Rightarrow> fst (max_element count_less c cs)), s1))"

definition getNodesAfter ::
  "ValidationParms \<Rightarrow> int \<Rightarrow> (uint256 \<Rightarrow> RCLValidatedLedger option) \<Rightarrow> RCLValidatedLedger \<Rightarrow> uint256
     \<Rightarrow> Validations \<Rightarrow> nat \<times> Validations" where
  "getNodesAfter p t acquire ledger lid s =
     (if ledgerID ledger = lid
      then let s1 = withTrie p t acquire s
           in (trie_branchSupport rcl_ops ledger (trie s1) - trie_tipSupport rcl_ops ledger (trie s1), s1)
      else (length (filter (\<lambda>(_, l). 0 < ledgerSeq l \<and> ancestor_id l (ledgerSeq l - 1) = lid) (lastLedger s)), s))"

definition currentTrusted :: "ValidationParms \<Rightarrow> int \<Rightarrow> Validations \<Rightarrow> Validation list \<times> Validations" where
  "currentTrusted p t s =
     (let (live, s1) = for_current p t s
      in (map snd (filter (\<lambda>(_, v). vl_trusted v \<and> vl_full v) live), s1))"

definition getCurrentNodeIDs :: "ValidationParms \<Rightarrow> int \<Rightarrow> Validations \<Rightarrow> NodeID list \<times> Validations" where
  "getCurrentNodeIDs p t s = (let (live, s1) = for_current p t s in (map fst live, s1))"

definition numTrustedForLedger :: "int \<Rightarrow> uint256 \<Rightarrow> Validations \<Rightarrow> nat \<times> Validations" where
  "numTrustedForLedger now lid s =
     (let (vals, s1) = for_ledger now lid s
      in (length (filter (\<lambda>(_, v). vl_trusted v \<and> vl_full v) vals), s1))"

definition getTrustedForLedger :: "int \<Rightarrow> uint256 \<Rightarrow> nat \<Rightarrow> Validations \<Rightarrow> Validation list \<times> Validations" where
  "getTrustedForLedger now lid sq s =
     (let (vals, s1) = for_ledger now lid s
      in (map snd (filter (\<lambda>(_, v). vl_trusted v \<and> vl_full v \<and> vl_seq v = sq) vals), s1))"

definition fees :: "int \<Rightarrow> uint256 \<Rightarrow> u32 \<Rightarrow> Validations \<Rightarrow> u32 list \<times> Validations" where
  "fees now lid baseFee s =
     (let (vals, s1) = for_ledger now lid s
      in (map (\<lambda>(_, v). case vl_loadFee v of Some f \<Rightarrow> f | None \<Rightarrow> baseFee)
            (filter (\<lambda>(_, v). vl_trusted v \<and> vl_full v) vals), s1))"

definition flush :: "Validations \<Rightarrow> Validations" where
  "flush s = s\<lparr>current := []\<rparr>"

fun laggards_loop ::
  "ValidationParms \<Rightarrow> int \<Rightarrow> nat \<Rightarrow> (NodeID \<times> Validation) list \<Rightarrow> PublicKey list \<Rightarrow> nat \<Rightarrow> nat \<times> PublicKey list" where
  "laggards_loop p t sq [] trustedKeys n = (n, trustedKeys)"
| "laggards_loop p t sq ((_, v) # it) trustedKeys n =
     (if t < vl_seenTime v + validationFRESHNESS p \<and> vl_key v \<in> set trustedKeys
      then laggards_loop p t sq it (removeAll (vl_key v) trustedKeys) (if vl_seq v < sq then n + 1 else n)
      else laggards_loop p t sq it trustedKeys n)"

definition laggards ::
  "ValidationParms \<Rightarrow> int \<Rightarrow> nat \<Rightarrow> PublicKey list \<Rightarrow> Validations \<Rightarrow> (nat \<times> PublicKey list) \<times> Validations" where
  "laggards p t sq trustedKeys s =
     (let (live, s1) = for_current p t s in (laggards_loop p t sq live trustedKeys 0, s1))"

section \<open>The trie holds the last ledger of every node once\<close>

lemma mset_update_new:
  "map_of al k = None \<Longrightarrow> mset (map snd (AList.update k v al)) = add_mset v (mset (map snd al))"
  by (induction al) (auto split: if_splits)

lemma mset_update_old:
  "distinct_keys al \<Longrightarrow> map_of al k = Some old \<Longrightarrow>
   add_mset old (mset (map snd (AList.update k v al))) = add_mset v (mset (map snd al))"
  by (induction al) (auto split: if_splits simp: add_mset_commute)

lemma mset_delete_old:
  "distinct_keys al \<Longrightarrow> map_of al k = Some old \<Longrightarrow>
   mset (map snd al) = add_mset old (mset (map snd (AList.delete k al)))"
  by (induction al) (auto split: if_splits simp: delete_notin)

context ledger_history
begin

lemma run_subset: "trie_run ops U M t \<Longrightarrow> l \<in># M \<Longrightarrow> l \<in> U"
  using trie_run_refines by blast

lemma run_remove_one:
  assumes "trie_run ops U (add_mset l M) t"
  shows "trie_run ops U M (snd (trie_remove ops l 1 t))"
proof -
  have l: "l \<in> U" using run_subset [OF assms] by simp
  have "same_ledger ops l l"
    using ancestor_of_refl [OF l] by (simp add: same_ledger_def)
  then show ?thesis
    using trie_run.remove [OF assms l, of 1 "{#l#}"] by simp
qed

lemma run_insert_one: "trie_run ops U M t \<Longrightarrow> l \<in> U \<Longrightarrow> trie_run ops U (add_mset l M) (trie_insert ops l 1 t)"
  using trie_run.insert [of ops U M t l 1] by simp

end

definition trie_matches :: "RCLValidatedLedger set \<Rightarrow> Validations \<Rightarrow> bool" where
  "trie_matches U s \<longleftrightarrow>
     trie_run rcl_ops U (mset (map snd (lastLedger s))) (trie s) \<and> distinct_keys (lastLedger s)"

definition acquire_ok :: "RCLValidatedLedger set \<Rightarrow> (uint256 \<Rightarrow> RCLValidatedLedger option) \<Rightarrow> bool" where
  "acquire_ok U acquire \<longleftrightarrow> (\<forall>h l. acquire h = Some l \<longrightarrow> l \<in> U \<and> ledgerID l = h)"

lemma clear_acquiring_frame [simp]:
  "trie (clear_acquiring key n s) = trie s" "lastLedger (clear_acquiring key n s) = lastLedger s"
  "current (clear_acquiring key n s) = current s" "byLedger (clear_acquiring key n s) = byLedger s"
  "bySequence (clear_acquiring key n s) = bySequence s" "seqEnforcers (clear_acquiring key n s) = seqEnforcers s"
  "localSeqEnforcer (clear_acquiring key n s) = localSeqEnforcer s"
  by (simp_all add: clear_acquiring_def Let_def split: option.split)

lemma trie_matches_frame:
  "trie s' = trie s \<Longrightarrow> lastLedger s' = lastLedger s \<Longrightarrow> trie_matches U s' = trie_matches U s"
  by (simp add: trie_matches_def)

lemma removeTrie_matches:
  assumes h: "ledger_history rcl_ops U" and s: "trie_matches U s"
  shows "trie_matches U (removeTrie n v s)"
proof (cases "map_of (lastLedger s) n")
  case None
  then show ?thesis using s by (simp add: removeTrie_def trie_matches_def)
next
  case (Some l)
  then show ?thesis
    using s ledger_history.run_remove_one [OF h] mset_delete_old [of "lastLedger s" n l]
    by (simp add: removeTrie_def trie_matches_def Let_def)
qed

lemma updateTrie_ledger_matches:
  assumes h: "ledger_history rcl_ops U" and s: "trie_matches U s" and l: "l \<in> U"
  shows "trie_matches U (updateTrie_ledger n l s)"
proof (cases "map_of (lastLedger s) n")
  case None
  then show ?thesis
    using s ledger_history.run_insert_one [OF h _ l] mset_update_new [OF None, of l]
    by (simp add: updateTrie_ledger_def trie_matches_def)
next
  case (Some old)
  have d: "distinct_keys (lastLedger s)" and r: "trie_run rcl_ops U (mset (map snd (lastLedger s))) (trie s)"
    using s by (simp_all add: trie_matches_def)
  let ?M = "mset (map snd (AList.delete n (lastLedger s)))"
  have m: "mset (map snd (lastLedger s)) = add_mset old ?M"
    using mset_delete_old [OF d Some] .
  then have "mset (map snd (AList.update n l (lastLedger s))) = add_mset l ?M"
    using mset_update_old [OF d Some, of l] by (simp add: add_mset_commute [of l])
  moreover have "trie_run rcl_ops U ?M (snd (trie_remove rcl_ops old 1 (trie s)))"
    using ledger_history.run_remove_one [OF h] r unfolding m .
  ultimately show ?thesis
    using ledger_history.run_insert_one [OF h _ l] d Some
    by (simp add: updateTrie_ledger_def trie_matches_def)
qed

lemma fold_updateTrie_ledger_matches:
  "ledger_history rcl_ops U \<Longrightarrow> trie_matches U s \<Longrightarrow> l \<in> U \<Longrightarrow>
   trie_matches U (fold (\<lambda>n. updateTrie_ledger n l) ns s)"
  by (induction ns arbitrary: s) (simp_all add: updateTrie_ledger_matches)

lemma acquired_loop_matches:
  "ledger_history rcl_ops U \<Longrightarrow> acquire_ok U acquire \<Longrightarrow> trie_matches U s \<Longrightarrow>
   trie_matches U (snd (acquired_loop acquire it s))"
  by (induction acquire it s rule: acquired_loop.induct)
    (auto simp: fold_updateTrie_ledger_matches acquire_ok_def split: option.split prod.split)

lemma checkAcquired_matches:
  "ledger_history rcl_ops U \<Longrightarrow> acquire_ok U acquire \<Longrightarrow> trie_matches U s \<Longrightarrow>
   trie_matches U (checkAcquired acquire s)"
  using acquired_loop_matches [of U acquire s "acquiring s"]
  by (simp add: checkAcquired_def split_beta trie_matches_def)

lemma updateTrie_matches:
  assumes h: "ledger_history rcl_ops U" and a: "acquire_ok U acquire" and s: "trie_matches U s"
  shows "trie_matches U (updateTrie acquire n v prior s)"
proof -
  let ?s1 = "case prior of None \<Rightarrow> s | Some key \<Rightarrow> clear_acquiring key n s"
  have "trie_matches U ?s1"
    using s by (auto simp: trie_matches_def split: option.split)
  then have s2: "trie_matches U (checkAcquired acquire ?s1)"
    using checkAcquired_matches [OF h a] by blast
  then show ?thesis
    using updateTrie_ledger_matches [OF h s2] a
    by (auto simp: updateTrie_def Let_def trie_matches_def acquire_ok_def split: option.split)
qed

lemma current_loop_matches:
  "ledger_history rcl_ops U \<Longrightarrow> trie_matches U s \<Longrightarrow> trie_matches U (snd (current_loop p t it s))"
  by (induction p t it s rule: current_loop.induct) (auto simp: removeTrie_matches split: prod.split)

lemma for_current_matches:
  "ledger_history rcl_ops U \<Longrightarrow> trie_matches U s \<Longrightarrow> trie_matches U (snd (for_current p t s))"
  using current_loop_matches [of U s p t "current s"] by (simp add: for_current_def split_beta trie_matches_def)

lemma withTrie_matches:
  "ledger_history rcl_ops U \<Longrightarrow> acquire_ok U acquire \<Longrightarrow> trie_matches U s \<Longrightarrow>
   trie_matches U (withTrie p t acquire s)"
  by (simp add: withTrie_def checkAcquired_matches for_current_matches)

lemma trust_loop_matches:
  "ledger_history rcl_ops U \<Longrightarrow> acquire_ok U acquire \<Longrightarrow> trie_matches U s \<Longrightarrow>
   trie_matches U (trust_loop acquire added removed it s)"
proof (induction it arbitrary: s)
  case (Cons x it)
  obtain n v where x: "x = (n, v)" by fastforce
  have "trie_matches U (s\<lparr>current := c\<rparr>)" for c
    using Cons.prems(3) by (simp add: trie_matches_def)
  then show ?case
    using Cons updateTrie_matches removeTrie_matches by (simp add: x Let_def)
qed simp

lemma trustChanged_matches:
  "ledger_history rcl_ops U \<Longrightarrow> acquire_ok U acquire \<Longrightarrow> trie_matches U s \<Longrightarrow>
   trie_matches U (trustChanged acquire added removed s)"
  using trust_loop_matches [of U acquire s added removed "current s"]
  by (simp add: trustChanged_def Let_def trie_matches_def)

lemma note_sequence_frame [simp]:
  "trie (snd (note_sequence p now n v s)) = trie s"
  "lastLedger (snd (note_sequence p now n v s)) = lastLedger s"
  "current (snd (note_sequence p now n v s)) = current s"
  "byLedger (snd (note_sequence p now n v s)) = byLedger s"
  "seqEnforcers (snd (note_sequence p now n v s)) = seqEnforcers s"
  "localSeqEnforcer (snd (note_sequence p now n v s)) = localSeqEnforcer s"
  by (simp_all add: note_sequence_def Let_def)

lemma enforce_node_frame [simp]:
  "trie (snd (enforce_node p now n q s)) = trie s"
  "lastLedger (snd (enforce_node p now n q s)) = lastLedger s"
  "current (snd (enforce_node p now n q s)) = current s"
  "byLedger (snd (enforce_node p now n q s)) = byLedger s"
  "localSeqEnforcer (snd (enforce_node p now n q s)) = localSeqEnforcer s"
  by (simp_all add: enforce_node_def split_beta)

lemma store_by_ledger_frame [simp]:
  "trie (store_by_ledger now n v s) = trie s" "lastLedger (store_by_ledger now n v s) = lastLedger s"
  "current (store_by_ledger now n v s) = current s"
  "seqEnforcers (store_by_ledger now n v s) = seqEnforcers s"
  "localSeqEnforcer (store_by_ledger now n v s) = localSeqEnforcer s"
  by (simp_all add: store_by_ledger_def Let_def)

text \<open>The states \<^verbatim>\<open>add\<close> can leave behind.\<close>

abbreviation enforced :: "ValidationParms \<Rightarrow> int \<Rightarrow> NodeID \<Rightarrow> Validation \<Rightarrow> Validations \<Rightarrow> bool \<times> Validations" where
  "enforced p now n v s \<equiv> enforce_node p now n (vl_seq v) (snd (note_sequence p now n v s))"

lemma add_cases [consumes 1, case_names old bad earlier kept updated]:
  assumes "add p t now acquire n v s = (st, s')"
  obtains "st = vs_stale" "s' = s"
  | "st \<noteq> vs_current" "\<not> fst (enforced p now n v s)" "s' = snd (enforced p now n v s)"
  | "st = vs_stale" "fst (enforced p now n v s)" "s' = store_by_ledger now n v (snd (enforced p now n v s))"
  | "st = vs_current" "fst (enforced p now n v s)"
      "s' = (store_by_ledger now n v (snd (enforced p now n v s)))\<lparr>current := AList.update n v (current s)\<rparr>"
  | prior where "st = vs_current" "fst (enforced p now n v s)" "vl_trusted v"
      "s' = updateTrie acquire n v prior
         ((store_by_ledger now n v (snd (enforced p now n v s)))\<lparr>current := AList.update n v (current s)\<rparr>)"
proof (cases "isCurrent p t (vl_signTime v) (vl_seenTime v)")
  case False
  then show thesis using assms that(1) by (simp add: add_def)
next
  case cur: True
  show thesis
  proof (cases "fst (enforced p now n v s)")
    case False
    then show thesis
      using assms cur that(2) by (auto simp: add_def Let_def split_beta split: if_splits)
  next
    case True
    show thesis
    proof (cases "map_of (current s) n")
      case None
      then show thesis
        using assms cur True that(4) that(5) [of None] by (auto simp: add_def Let_def split_beta split: if_splits)
    next
      case (Some old)
      show thesis
      proof (cases "vl_signTime old < vl_signTime v")
        case lt: True
        then show thesis
          using assms cur True Some that(4) that(5) [of "Some (vl_seq old, vl_ledgerID old)"]
          by (auto simp: add_def Let_def split_beta split: if_splits)
      next
        case False
        then show thesis
          using assms cur True Some that(3) by (auto simp: add_def Let_def split_beta split: if_splits)
      qed
    qed
  qed
qed

lemma add_matches:
  assumes h: "ledger_history rcl_ops U" and a: "acquire_ok U acquire" and s: "trie_matches U s"
    and r: "add p t now acquire n v s = (st, s')"
  shows "trie_matches U s'"
  using r
proof (cases rule: add_cases)
  case (updated prior)
  have "trie_matches U ((store_by_ledger now n v (snd (enforced p now n v s)))\<lparr>current := AList.update n v (current s)\<rparr>)"
    using s by (simp add: trie_matches_def)
  then show ?thesis
    unfolding updated by (rule updateTrie_matches [OF h a])
qed (use s in \<open>simp_all add: trie_matches_def\<close>)

section \<open>What the trie operations leave alone\<close>

definition stores where
  "stores s = (current s, localSeqEnforcer s, seqEnforcers s, byLedger s, bySequence s)"

lemma stores_eqD:
  assumes "stores s' = stores s"
  shows "current s' = current s" "localSeqEnforcer s' = localSeqEnforcer s" "seqEnforcers s' = seqEnforcers s"
    "byLedger s' = byLedger s" "bySequence s' = bySequence s"
  using assms by (simp_all add: stores_def)

lemma stores_removeTrie: "stores (removeTrie n v s) = stores s"
  by (auto simp: removeTrie_def stores_def Let_def split: option.split)

lemma stores_updateTrie_ledger: "stores (updateTrie_ledger n l s) = stores s"
  by (simp add: updateTrie_ledger_def stores_def)

lemma stores_fold: "stores (fold (\<lambda>n. updateTrie_ledger n l) ns s) = stores s"
  by (induction ns arbitrary: s) (simp_all add: stores_updateTrie_ledger)

lemma stores_acquired_loop: "stores (snd (acquired_loop acquire it s)) = stores s"
  by (induction acquire it s rule: acquired_loop.induct) (auto simp: stores_fold split: option.split prod.split)

lemma stores_checkAcquired: "stores (checkAcquired acquire s) = stores s"
  using stores_acquired_loop [of acquire "acquiring s" s] by (simp add: checkAcquired_def split_beta stores_def)

lemma stores_updateTrie: "stores (updateTrie acquire n v prior s) = stores s"
proof -
  let ?s1 = "case prior of None \<Rightarrow> s | Some key \<Rightarrow> clear_acquiring key n s"
  have "stores ?s1 = stores s" by (simp add: stores_def split: option.split)
  then have s2: "stores (checkAcquired acquire ?s1) = stores s" by (simp add: stores_checkAcquired)
  then have "stores (checkAcquired acquire ?s1\<lparr>acquiring := a\<rparr>) = stores s" for a
    by (simp add: stores_def)
  then show ?thesis
    using s2 by (auto simp: updateTrie_def Let_def stores_updateTrie_ledger split: option.split)
qed

lemma stores_current_loop: "stores (snd (current_loop p t it s)) = stores s"
  by (induction p t it s rule: current_loop.induct) (auto simp: stores_removeTrie split: prod.split)

lemma current_loop_live:
  "fst (current_loop p t it s) = filter (\<lambda>(_, v). isCurrent p t (vl_signTime v) (vl_seenTime v)) it"
  by (induction p t it s rule: current_loop.induct) (auto split: prod.split)

lemma for_current_live:
  "fst (for_current p t s) = filter (\<lambda>(_, v). isCurrent p t (vl_signTime v) (vl_seenTime v)) (current s)"
  by (simp add: for_current_def split_beta current_loop_live)

lemma for_current_frame:
  "localSeqEnforcer (snd (for_current p t s)) = localSeqEnforcer s"
  "seqEnforcers (snd (for_current p t s)) = seqEnforcers s" "byLedger (snd (for_current p t s)) = byLedger s"
  using stores_eqD [OF stores_current_loop [of p t "current s" s]] by (simp_all add: for_current_def split_beta)

lemma withTrie_frame:
  "localSeqEnforcer (withTrie p t acquire s) = localSeqEnforcer s"
  "seqEnforcers (withTrie p t acquire s) = seqEnforcers s" "byLedger (withTrie p t acquire s) = byLedger s"
  using stores_eqD [OF stores_checkAcquired [of acquire "snd (for_current p t s)"]]
  by (simp_all add: withTrie_def for_current_frame)

lemma trust_loop_frame:
  "localSeqEnforcer (trust_loop acquire added removed it s) = localSeqEnforcer s
   \<and> seqEnforcers (trust_loop acquire added removed it s) = seqEnforcers s
   \<and> byLedger (trust_loop acquire added removed it s) = byLedger s"
proof (induction it arbitrary: s)
  case (Cons x it)
  obtain n v where x: "x = (n, v)" by fastforce
  show ?case
    by (simp add: x Let_def Cons.IH stores_eqD [OF stores_updateTrie] stores_eqD [OF stores_removeTrie])
qed simp

section \<open>Sequence numbers of accepted validations\<close>

text \<open>
  Accepted sequence numbers, the latest first, with the times they were accepted: within the expiry time they
  increase.
\<close>

definition increasing_log :: "ValidationParms \<Rightarrow> (nat \<times> int) list \<Rightarrow> bool" where
  "increasing_log p log \<longleftrightarrow>
     sorted_wrt (\<lambda>(q2, t2) (q1, t1). t2 \<le> t1 + nanos (validationSET_EXPIRES p) \<longrightarrow> q1 < q2) log"

definition enforcer_inv :: "ValidationParms \<Rightarrow> int \<Rightarrow> (nat \<times> int) list \<Rightarrow> SeqEnforcer \<Rightarrow> bool" where
  "enforcer_inv p now log e \<longleftrightarrow>
     increasing_log p log
     \<and> (\<forall>(q, t) \<in> set log. t \<le> now \<and> t \<le> enf_when e
          \<and> (now \<le> t + nanos (validationSET_EXPIRES p) \<longrightarrow> q \<le> enf_seq e))"

lemma enforcer_inv_later:
  "enforcer_inv p now log e \<Longrightarrow> now \<le> now' \<Longrightarrow> enforcer_inv p now' log e"
  unfolding enforcer_inv_def by fastforce

lemma enforce_inv:
  assumes inv: "enforcer_inv p now log e" and le: "now \<le> now'" and r: "enforce now' q p e = (ok, e')"
  shows "enforcer_inv p now' log e'" "ok \<Longrightarrow> enforcer_inv p now' ((q, now') # log) e'"
proof -
  let ?E = "nanos (validationSET_EXPIRES p)"
  have old: "t \<le> now'" "t \<le> enf_when e" "now' \<le> t + ?E \<longrightarrow> q' \<le> enf_seq e"
    if "(q', t) \<in> set log" for q' t
    using inv that le unfolding enforcer_inv_def by fastforce+
  have inc: "increasing_log p log" using inv by (simp add: enforcer_inv_def)
  have "(\<not> ok \<and> enf_when e' = enf_when e \<and> (enf_when e + ?E < now' \<or> enf_seq e' = enf_seq e)) \<or>
        (ok \<and> e' = e\<lparr>enf_seq := q, enf_when := now'\<rparr> \<and> (enf_when e + ?E < now' \<or> enf_seq e < q))"
    using r by (auto simp: enforce_def Let_def split: if_splits)
  then show "enforcer_inv p now' log e'"
    using inc old unfolding enforcer_inv_def by fastforce
  assume ok
  then have e': "e' = e\<lparr>enf_seq := q, enf_when := now'\<rparr>" "enf_when e + ?E < now' \<or> enf_seq e < q"
    using \<open>_ \<or> _\<close> by auto
  have "q' < q" if "(q', t) \<in> set log" "now' \<le> t + ?E" for q' t
    using old [OF that(1)] e'(2) that(2) by linarith
  then have "increasing_log p ((q, now') # log)"
    using inc by (auto simp: increasing_log_def)
  moreover have "t \<le> now' \<and> t \<le> enf_when e' \<and> (now' \<le> t + ?E \<longrightarrow> q' \<le> enf_seq e')"
    if "(q', t) \<in> set ((q, now') # log)" for q' t
    using that old e' by fastforce
  ultimately show "enforcer_inv p now' ((q, now') # log) e'"
    unfolding enforcer_inv_def by blast
qed

definition node_enforcer :: "NodeID \<Rightarrow> Validations \<Rightarrow> SeqEnforcer" where
  "node_enforcer n s = (case map_of (seqEnforcers s) n of None \<Rightarrow> new_SeqEnforcer | Some e \<Rightarrow> e)"

lemma enforce_node_enforcer:
  assumes "enforce_node p now n q s = (ok, s')"
  shows "enforce now q p (node_enforcer n s) = (ok, node_enforcer n s')"
    "n' \<noteq> n \<Longrightarrow> node_enforcer n' s' = node_enforcer n' s"
  using assms by (auto simp: enforce_node_def node_enforcer_def split_beta prod_eq_iff)

section \<open>Stored validations\<close>

definition by_ledger_ok :: "Validations \<Rightarrow> bool" where
  "by_ledger_ok s \<longleftrightarrow>
     distinct_keys (byLedger s)
     \<and> (\<forall>(k, t, vals) \<in> set (byLedger s). distinct_keys vals
          \<and> (\<forall>(n, v) \<in> set vals. vl_ledgerID v = k \<and> vl_nodeID v = n))"

lemma by_ledger_ok_frame: "byLedger s' = byLedger s \<Longrightarrow> by_ledger_ok s \<Longrightarrow> by_ledger_ok s'"
  by (simp add: by_ledger_ok_def)

lemma by_ledger_ok_update:
  assumes "by_ledger_ok s" "distinct_keys vals" "\<And>n v. (n, v) \<in> set vals \<Longrightarrow> vl_ledgerID v = k \<and> vl_nodeID v = n"
  shows "by_ledger_ok (s\<lparr>byLedger := AList.update k (t, vals) (byLedger s)\<rparr>)"
  using assms set_update_subset [of k "(t, vals)" "byLedger s"] by (fastforce simp: by_ledger_ok_def)

lemma by_ledger_lookup:
  assumes "by_ledger_ok s" "map_of (byLedger s) k = Some (t, vals)"
  shows "distinct_keys vals" "\<And>n v. (n, v) \<in> set vals \<Longrightarrow> vl_ledgerID v = k \<and> vl_nodeID v = n"
  using assms map_of_SomeD [of "byLedger s" k "(t, vals)"] by (fastforce simp: by_ledger_ok_def)+

lemma store_by_ledger_ok:
  assumes s: "by_ledger_ok s" and n: "vl_nodeID v = n"
  shows "by_ledger_ok (store_by_ledger now n v s)"
proof (cases "map_of (byLedger s) (vl_ledgerID v)")
  case None
  let ?b = "AList.update (vl_ledgerID v) (now, []) (byLedger s)"
  have "by_ledger_ok (s\<lparr>byLedger := ?b\<rparr>)"
    using s by (intro by_ledger_ok_update) simp_all
  then have "by_ledger_ok (s\<lparr>byLedger := ?b\<rparr>\<lparr>byLedger := AList.update (vl_ledgerID v) (now, [(n, v)]) (byLedger (s\<lparr>byLedger := ?b\<rparr>))\<rparr>)"
    by (rule by_ledger_ok_update) (use n in auto)
  then show ?thesis
    using None by (simp add: store_by_ledger_def Let_def aged_index_def aged_put_def aged_get_def)
next
  case (Some x)
  obtain t vals where x: "x = (t, vals)" by fastforce
  have "by_ledger_ok (s\<lparr>byLedger := AList.update (vl_ledgerID v) (t, AList.update n v vals) (byLedger s)\<rparr>)"
  proof (rule by_ledger_ok_update [OF s])
    show "distinct_keys (AList.update n v vals)"
      using by_ledger_lookup(1) [OF s] Some x by auto
    show "vl_ledgerID v' = vl_ledgerID v \<and> vl_nodeID v' = n'" if "(n', v') \<in> set (AList.update n v vals)" for n' v'
      using that set_update_subset [of n v vals] by_ledger_lookup(2) [OF s] Some x n by fastforce
  qed
  then show ?thesis
    using Some x by (simp add: store_by_ledger_def Let_def aged_index_def aged_put_def aged_get_def)
qed

lemma for_ledger_ok: "by_ledger_ok s \<Longrightarrow> by_ledger_ok (snd (for_ledger now lid s))"
  using by_ledger_ok_update [of s _ lid] by_ledger_lookup [of s lid]
  by (fastforce simp: for_ledger_def aged_touch_def split: option.split)

lemma expire_ok:
  assumes "by_ledger_ok s"
  shows "by_ledger_ok (expire p now s)"
proof -
  have "by_ledger_ok (s'\<lparr>byLedger := aged_expire now age (byLedger s'), bySequence := b\<rparr>)" if "by_ledger_ok s'" for s' age b
    using that by (auto simp: by_ledger_ok_def aged_expire_def distinct_map_filter)
  moreover have "by_ledger_ok ((refresh_kept now low high s)\<lparr>refreshTime := r\<rparr>)" for low high r
    using assms by (fastforce simp: by_ledger_ok_def refresh_kept_def comp_def split_beta)
  ultimately show ?thesis
    using assms by (auto simp: expire_def Let_def split: option.split)
qed

lemma trustChanged_ok:
  assumes "by_ledger_ok s"
  shows "by_ledger_ok (trustChanged acquire added removed s)"
proof -
  have m: "vl_ledgerID (mark_trust a r n v) = vl_ledgerID v" "vl_nodeID (mark_trust a r n v) = vl_nodeID v" for a r n v
    by (simp_all add: mark_trust_def)
  have b: "byLedger (trust_loop acquire added removed (current s) s) = byLedger s"
    using trust_loop_frame by blast
  show ?thesis
    using assms by (fastforce simp: trustChanged_def Let_def by_ledger_ok_def b m comp_def split_beta)
qed

section \<open>Histories of the store\<close>

text \<open>
  Operations that neither accept a validation nor issue one. The clocks of a step are arbitrary, and \<open>acquire\<close>
  returns ledgers of the chain under their own hash.
\<close>

inductive quiet_step :: "ValidationParms \<Rightarrow> RCLValidatedLedger set \<Rightarrow> int \<Rightarrow> Validations \<Rightarrow> Validations \<Rightarrow> bool"
  for p :: ValidationParms and U :: "RCLValidatedLedger set" where
  keep: "low < high \<Longrightarrow> quiet_step p U now s (setSeqToKeep low high s)"
| expire: "quiet_step p U now s (expire p now s)"
| trust: "acquire_ok U acquire \<Longrightarrow> quiet_step p U now s (trustChanged acquire added removed s)"
| preferred: "acquire_ok U acquire \<Longrightarrow> quiet_step p U now s (snd (getPreferred p t acquire cur s))"
| preferred_min: "acquire_ok U acquire \<Longrightarrow> quiet_step p U now s (snd (getPreferred_min p t acquire cur m s))"
| preferred_lcl: "acquire_ok U acquire \<Longrightarrow> quiet_step p U now s (snd (getPreferredLCL p t acquire cur m pc s))"
| nodes_after: "acquire_ok U acquire \<Longrightarrow> quiet_step p U now s (snd (getNodesAfter p t acquire l lid s))"
| trusted: "quiet_step p U now s (snd (currentTrusted p t s))"
| node_ids: "quiet_step p U now s (snd (getCurrentNodeIDs p t s))"
| lag: "quiet_step p U now s (snd (laggards p t q tks s))"
| num: "quiet_step p U now s (snd (numTrustedForLedger now lid s))"
| get: "quiet_step p U now s (snd (getTrustedForLedger now lid q s))"
| fee: "quiet_step p U now s (snd (fees now lid base s))"
| flush: "quiet_step p U now s (flush s)"

text \<open>
  A history with the steady clock, the accepted validations \<open>log\<close> and the sequence numbers \<open>own\<close> this server was
  allowed to validate, each with its time, the latest first.
\<close>

inductive validations_run ::
  "ValidationParms \<Rightarrow> RCLValidatedLedger set \<Rightarrow> int \<Rightarrow> (NodeID \<times> nat \<times> int) list \<Rightarrow> (nat \<times> int) list
     \<Rightarrow> Validations \<Rightarrow> bool"
  for p :: ValidationParms and U :: "RCLValidatedLedger set" where
  start: "validations_run p U 0 [] [] new_Validations"
| add: "validations_run p U now log own s \<Longrightarrow> now \<le> now' \<Longrightarrow> acquire_ok U acquire \<Longrightarrow> vl_nodeID v = n \<Longrightarrow>
    add p t now' acquire n v s = (st, s') \<Longrightarrow>
    validations_run p U now' (if st = vs_current then (n, vl_seq v, now') # log else log) own s'"
| issue: "validations_run p U now log own s \<Longrightarrow> now \<le> now' \<Longrightarrow> canValidateSeq p now' q s = (ok, s') \<Longrightarrow>
    validations_run p U now' log (if ok then (q, now') # own else own) s'"
| quiet: "validations_run p U now log own s \<Longrightarrow> now \<le> now' \<Longrightarrow> quiet_step p U now' s s' \<Longrightarrow>
    validations_run p U now' log own s'"

definition node_log :: "NodeID \<Rightarrow> (NodeID \<times> nat \<times> int) list \<Rightarrow> (nat \<times> int) list" where
  "node_log n log = map snd (filter (\<lambda>e. fst e = n) log)"

lemma quiet_step_frame:
  "quiet_step p U now s s' \<Longrightarrow> seqEnforcers s' = seqEnforcers s \<and> localSeqEnforcer s' = localSeqEnforcer s"
proof (induction rule: quiet_step.induct)
  case (expire now s)
  show ?case by (simp add: expire_def Let_def refresh_kept_def split: option.split)
next
  case (trust acquire now s added removed)
  show ?case using trust_loop_frame by (simp add: trustChanged_def Let_def)
qed (simp_all add: setSeqToKeep_def getPreferred_def getPreferred_min_def getPreferredLCL_def getNodesAfter_def
    currentTrusted_def getCurrentNodeIDs_def laggards_def numTrustedForLedger_def getTrustedForLedger_def
    fees_def flush_def for_ledger_def Let_def split_beta withTrie_frame for_current_frame split: option.split)

lemma quiet_step_ok:
  "quiet_step p U now s s' \<Longrightarrow> by_ledger_ok s \<Longrightarrow> by_ledger_ok s'"
proof (induction rule: quiet_step.induct)
  case (expire now s)
  then show ?case by (rule expire_ok)
next
  case (trust acquire now s added removed)
  then show ?case using trustChanged_ok by blast
next
  case (num now s lid)
  then show ?case using for_ledger_ok by (simp add: numTrustedForLedger_def split_beta)
next
  case (get now s lid q)
  then show ?case using for_ledger_ok by (simp add: getTrustedForLedger_def split_beta)
next
  case (fee now s lid base)
  then show ?case using for_ledger_ok by (simp add: fees_def split_beta)
qed (erule by_ledger_ok_frame [rotated], simp add: setSeqToKeep_def getPreferred_def getPreferred_min_def
    getPreferredLCL_def getNodesAfter_def currentTrusted_def getCurrentNodeIDs_def laggards_def flush_def Let_def
    split_beta withTrie_frame for_current_frame)+

lemma quiet_step_matches:
  assumes h: "ledger_history rcl_ops U"
  shows "quiet_step p U now s s' \<Longrightarrow> trie_matches U s \<Longrightarrow> trie_matches U s'"
proof (induction rule: quiet_step.induct)
  case (expire now s)
  then show ?case by (simp add: trie_matches_def expire_def Let_def refresh_kept_def split: option.split)
next
  case (trust acquire now s added removed)
  then show ?case using trustChanged_matches [OF h] by blast
next
  case (keep low high now s)
  then show ?case by (simp add: setSeqToKeep_def trie_matches_def)
next
  case (flush now s)
  then show ?case by (simp add: flush_def trie_matches_def)
next
  case (num now s lid)
  then show ?case by (simp add: numTrustedForLedger_def for_ledger_def split_beta trie_matches_def split: option.split)
next
  case (get now s lid q)
  then show ?case by (simp add: getTrustedForLedger_def for_ledger_def split_beta trie_matches_def split: option.split)
next
  case (fee now s lid base)
  then show ?case by (simp add: fees_def for_ledger_def split_beta trie_matches_def split: option.split)
qed (simp_all add: getPreferred_def getPreferred_min_def getPreferredLCL_def getNodesAfter_def currentTrusted_def
    getCurrentNodeIDs_def laggards_def Let_def split_beta withTrie_matches [OF h] for_current_matches [OF h])

lemma node_enforcer_add:
  assumes r: "add p t now acquire n v s = (st, s')"
  obtains "node_enforcer n s' = node_enforcer n s" "\<And>n'. node_enforcer n' s' = node_enforcer n' s" "st \<noteq> vs_current"
  | ok where "enforce now (vl_seq v) p (node_enforcer n s) = (ok, node_enforcer n s')"
      "\<And>n'. n' \<noteq> n \<Longrightarrow> node_enforcer n' s' = node_enforcer n' s" "st = vs_current \<longrightarrow> ok"
proof -
  let ?s1 = "snd (note_sequence p now n v s)"
  obtain ok s2 where e: "enforce_node p now n (vl_seq v) ?s1 = (ok, s2)" by fastforce
  have ne: "node_enforcer m s' = node_enforcer m s2" if "seqEnforcers s' = seqEnforcers s2" for m
    using that by (simp add: node_enforcer_def)
  have n1: "node_enforcer m ?s1 = node_enforcer m s" for m by (simp add: node_enforcer_def)
  note en = enforce_node_enforcer [OF e]
  from r show thesis
  proof (cases rule: add_cases)
    case old
    then show thesis using that(1) by simp
  next
    case bad
    then show thesis using that(2) [of ok] en ne n1 e by simp
  next
    case earlier
    then show thesis using that(2) [of ok] en ne n1 e by simp
  next
    case kept
    then show thesis using that(2) [of ok] en ne n1 e by simp
  next
    case (updated prior)
    then show thesis
      using that(2) [of ok] en ne n1 e stores_eqD(3) [OF stores_updateTrie] by simp
  qed
qed

lemma add_local:
  assumes "add p t now acquire n v s = (st, s')"
  shows "localSeqEnforcer s' = localSeqEnforcer s"
  using assms by (cases rule: add_cases) (simp_all add: stores_eqD(2) [OF stores_updateTrie])

lemma add_by_ledger:
  assumes "add p t now acquire n v s = (st, s')" "by_ledger_ok s" "vl_nodeID v = n"
  shows "by_ledger_ok s'"
proof -
  have e: "by_ledger_ok (snd (enforced p now n v s))"
    using assms(2) by (rule by_ledger_ok_frame [rotated]) simp
  have b: "by_ledger_ok (store_by_ledger now n v (snd (enforced p now n v s)))"
    using store_by_ledger_ok [OF e assms(3)] .
  from assms(1) show ?thesis
    by (cases rule: add_cases)
      (use assms(2) e b in \<open>simp_all add: by_ledger_ok_def stores_eqD(4) [OF stores_updateTrie]\<close>)
qed

lemma validations_run_inv:
  assumes h: "ledger_history rcl_ops U"
  shows "validations_run p U now log own s \<Longrightarrow>
    trie_matches U s \<and> by_ledger_ok s \<and> enforcer_inv p now own (localSeqEnforcer s)
    \<and> (\<forall>n. enforcer_inv p now (node_log n log) (node_enforcer n s))"
proof (induction rule: validations_run.induct)
  case start
  show ?case
    using trie_run.init [of rcl_ops U]
    by (simp add: new_Validations_def trie_matches_def by_ledger_ok_def enforcer_inv_def increasing_log_def node_log_def)
next
  case (add now log own s now' acquire v n t st s')
  have m: "trie_matches U s'" using add_matches [OF h add.hyps(3) _ add.hyps(5)] add.IH by blast
  have b: "by_ledger_ok s'" using add_by_ledger [OF add.hyps(5) _ add.hyps(4)] add.IH by blast
  have l: "enforcer_inv p now' own (localSeqEnforcer s')"
    using add_local [OF add.hyps(5)] add.IH enforcer_inv_later [OF _ add.hyps(2)] by simp
  let ?log = "if st = vs_current then (n, vl_seq v, now') # log else log"
  have "enforcer_inv p now' (node_log m ?log) (node_enforcer m s')" for m
    using add.hyps(5)
  proof (rule node_enforcer_add)
    assume "\<And>n'. node_enforcer n' s' = node_enforcer n' s" "st \<noteq> vs_current"
    then show ?thesis using add.IH enforcer_inv_later [OF _ add.hyps(2)] by simp
  next
    fix ok assume e: "enforce now' (vl_seq v) p (node_enforcer n s) = (ok, node_enforcer n s')"
      "\<And>n'. n' \<noteq> n \<Longrightarrow> node_enforcer n' s' = node_enforcer n' s" "st = vs_current \<longrightarrow> ok"
    show ?thesis
    proof (cases "m = n")
      case True
      have i: "enforcer_inv p now (node_log n log) (node_enforcer n s)" using add.IH by blast
      show ?thesis
        using enforce_inv [OF i add.hyps(2) e(1)] e(3) True by (simp add: node_log_def)
    next
      case False
      then show ?thesis
        using e(2) [OF False] add.IH enforcer_inv_later [OF _ add.hyps(2)] by (simp add: node_log_def)
    qed
  qed
  with m b l show ?case by blast
next
  case (issue now log own s now' q ok s')
  obtain e where e: "enforce now' q p (localSeqEnforcer s) = (ok, e)" "s' = s\<lparr>localSeqEnforcer := e\<rparr>"
    using issue.hyps(3) by (cases "enforce now' q p (localSeqEnforcer s)") (auto simp: canValidateSeq_def)
  have "enforcer_inv p now' (if ok then (q, now') # own else own) e"
    using enforce_inv [OF _ issue.hyps(2) e(1)] issue.IH by simp
  then show ?case
    using issue.IH enforcer_inv_later [OF _ issue.hyps(2)] e(2)
    by (simp add: trie_matches_def by_ledger_ok_def node_enforcer_def)
next
  case (quiet now log own s now' s')
  have f: "seqEnforcers s' = seqEnforcers s" "localSeqEnforcer s' = localSeqEnforcer s"
    using quiet_step_frame [OF quiet.hyps(3)] by simp_all
  then show ?case
    using quiet.IH quiet_step_matches [OF h quiet.hyps(3)] quiet_step_ok [OF quiet.hyps(3)]
      enforcer_inv_later [OF _ quiet.hyps(2)] by (simp add: node_enforcer_def)
qed

end
