(* ===== verification/Fork_Choice.thy ===== *)
theory Fork_Choice
  imports Validations
begin

text \<open>
  What the store of validations guarantees: every node counts once in the trie, accepted validations and our own
  advance, and a server leaves a branch that a supermajority has abandoned.
\<close>

section \<open>Counting nodes\<close>

lemma size_filter_values:
  assumes "distinct_keys al"
  shows "size (filter_mset P (mset (map snd al))) = card {n. \<exists>l. map_of al n = Some l \<and> P l}"
proof -
  have "size (filter_mset P (mset (map snd al))) = length (filter (\<lambda>x. P (snd x)) al)"
    by (induction al) auto
  also have "\<dots> = card (fst ` set (filter (\<lambda>x. P (snd x)) al))"
    using assms by (metis distinct_card distinct_map_filter length_map set_map)
  also have "fst ` set (filter (\<lambda>x. P (snd x)) al) = {n. \<exists>l. map_of al n = Some l \<and> P l}"
    using assms by force
  finally show ?thesis .
qed

text \<open>
  C14. Every validator counts once. Over every history of the validation store, the branch support of a ledger in the
  trie is the number of nodes whose last acquired ledger is that ledger or a descendant, the tip support is
  the number of nodes whose last acquired ledger it is, and the trie's own invariant check succeeds: replacing,
  expiring, acquiring and changing trust never count a node twice and never lose one.
\<close>

theorem validators_counted_once:
  assumes "validations_run p (known_ledgers parent number base h) now log own s"
    and "a \<in> known_ledgers parent number base h"
  shows "trie_branchSupport rcl_ops a (trie s)
      = card {n. \<exists>l. map_of (lastLedger s) n = Some l \<and> ancestor_of rcl_ops a l}
    \<and> trie_tipSupport rcl_ops a (trie s)
      = card {n. \<exists>l. map_of (lastLedger s) n = Some l \<and> same_ledger rcl_ops a l}
    \<and> checkInvariants (trie s)"
proof -
  have "trie_matches (known_ledgers parent number base h) s"
    using validations_run_inv [OF rcl.ledger_history_axioms assms(1)] by blast
  then have r: "trie_run rcl_ops (known_ledgers parent number base h) (mset (map snd (lastLedger s))) (trie s)"
    and d: "distinct_keys (lastLedger s)"
    by (simp_all add: trie_matches_def)
  show ?thesis
    using rcl.run_supports [OF r assms(2)] size_filter_values [OF d] by metis
qed

definition demo_validation_of :: "NodeID \<Rightarrow> RCLValidatedLedger \<Rightarrow> int \<Rightarrow> Validation" where
  "demo_validation_of n l t =
     \<lparr>vl_ledgerID = ledgerID l, vl_seq = ledgerSeq l, vl_signTime = t, vl_seenTime = t, vl_key = [],
      vl_trusted = True, vl_full = True, vl_nodeID = n, vl_cookie = 0, vl_loadFee = None\<rparr>"

definition demo_acquire :: "uint256 \<Rightarrow> RCLValidatedLedger option" where
  "demo_acquire i = (if i = 20 then Some (demo_ledger 0 [10]) else if i = 21 then Some (demo_ledger 1 [10]) else None)"

lemma demo_acquire_ok: "acquire_ok (known_ledgers demo_parent demo_number 1 10) demo_acquire"
  using demo_known by (auto simp: acquire_ok_def demo_acquire_def demo_ledger_def new_RCLValidatedLedger_def)

definition demo_store :: Validations where
  "demo_store = snd (add validationParms 1000 5 demo_acquire 7 (demo_validation_of 7 (demo_ledger 0 [10]) 1000)
     new_Validations)"

lemma demo_store_run:
  "\<exists>log. validations_run validationParms (known_ledgers demo_parent demo_number 1 10) 5 log [] demo_store"
proof -
  let ?v = "demo_validation_of 7 (demo_ledger 0 [10]) 1000"
  obtain st where st: "add validationParms 1000 5 demo_acquire 7 ?v new_Validations = (st, demo_store)"
    by (metis demo_store_def prod.collapse)
  have "vl_nodeID ?v = 7" by (simp add: demo_validation_of_def)
  from validations_run.add [OF validations_run.start _ demo_acquire_ok this st] show ?thesis
    by auto
qed

lemma demo_store_last: "lastLedger demo_store = [(7, demo_ledger 0 [10])]"
  by (simp add: demo_store_def add_def demo_validation_of_def demo_ledger_def new_RCLValidatedLedger_def isCurrent_def
      validationParms_def note_sequence_def new_Validations_def aged_index_def aged_get_def aged_put_def Let_def
      enforce_node_def enforce_def new_SeqEnforcer_def nanos_def store_by_ledger_def updateTrie_def checkAcquired_def
      demo_acquire_def updateTrie_ledger_def)

theorem validators_counted_once_witness:
  "trie_branchSupport rcl_ops (demo_ledger 0 [10]) (trie demo_store) = 1"
proof -
  have "{n. \<exists>l. map_of (lastLedger demo_store) n = Some l \<and> ancestor_of rcl_ops (demo_ledger 0 [10]) l} = {7}"
    using rcl.ancestor_of_refl [OF demo_known(1)] by (auto simp: demo_store_last split: if_splits)
  moreover obtain log where "validations_run validationParms (known_ledgers demo_parent demo_number 1 10) 5 log [] demo_store"
    using demo_store_run by blast
  ultimately show ?thesis
    using validators_counted_once [OF _ demo_known(1)] by simp
qed

section \<open>Sequence numbers advance\<close>

lemma node_log_append: "node_log n (xs @ ys) = node_log n xs @ node_log n ys"
  by (simp add: node_log_def)

lemma increasing_log_split:
  "increasing_log p (xs @ (q2, t2) # ys @ (q1, t1) # zs) \<Longrightarrow> t2 \<le> t1 + nanos (validationSET_EXPIRES p) \<Longrightarrow> q1 < q2"
  by (simp add: increasing_log_def sorted_wrt_append)

text \<open>
  C15. No going back. Whatever a server receives: of two validations of one node that it accepts as current within
  the expiry time, the later has the larger sequence number, and of two sequence numbers that
  \<^verbatim>\<open>canValidateSeq\<close> allows the server itself to validate within that time, the later is larger. So a validator never
  signs two ledgers with the same number within ten minutes of its last validation.
\<close>

theorem accepted_sequences_increase:
  assumes "validations_run p (known_ledgers parent number base h) now log own s"
    and "t2 \<le> t1 + nanos (validationSET_EXPIRES p)"
  shows "(log = xs @ (n, q2, t2) # ys @ (n, q1, t1) # zs \<longrightarrow> q1 < q2)
    \<and> (own = xs' @ (q2, t2) # ys' @ (q1, t1) # zs' \<longrightarrow> q1 < q2)"
proof -
  have inc: "increasing_log p own" "increasing_log p (node_log n log)"
    using validations_run_inv [OF rcl.ledger_history_axioms assms(1)] by (auto simp: enforcer_inv_def)
  have "q1 < q2" if "log = xs @ (n, q2, t2) # ys @ (n, q1, t1) # zs"
  proof -
    have "node_log n log = node_log n xs @ (q2, t2) # node_log n ys @ (q1, t1) # node_log n zs"
      unfolding that by (simp add: node_log_def)
    then show ?thesis
      using increasing_log_split [OF _ assms(2)] inc(2) by metis
  qed
  moreover have "q1 < q2" if "own = xs' @ (q2, t2) # ys' @ (q1, t1) # zs'"
    using increasing_log_split [OF _ assms(2)] inc(1) that by metis
  ultimately show ?thesis by blast
qed

lemma demo_issue:
  "validations_run validationParms (known_ledgers demo_parent demo_number 1 10) 9 []
     ([] @ (8, 9) # [] @ (6, 5) # [])
     (snd (canValidateSeq validationParms 9 8 (snd (canValidateSeq validationParms 5 6 new_Validations))))"
proof -
  let ?s1 = "snd (canValidateSeq validationParms 5 6 new_Validations)"
  have 1: "canValidateSeq validationParms 5 6 new_Validations = (True, ?s1)"
    by (simp add: canValidateSeq_def enforce_def new_Validations_def new_SeqEnforcer_def nanos_def validationParms_def Let_def)
  have 2: "canValidateSeq validationParms 9 8 ?s1 = (True, snd (canValidateSeq validationParms 9 8 ?s1))"
    by (simp add: canValidateSeq_def enforce_def new_Validations_def new_SeqEnforcer_def nanos_def validationParms_def Let_def)
  show ?thesis
    using validations_run.issue [OF validations_run.issue [OF validations_run.start _ 1] _ 2] by simp
qed

theorem accepted_sequences_increase_witness: "(6 :: nat) < 8"
proof -
  have "(9 :: int) \<le> 5 + nanos (validationSET_EXPIRES validationParms)"
    by (simp add: nanos_def validationParms_def)
  from accepted_sequences_increase [OF demo_issue this, of "[]" 0 8 "[]" 6 "[]" "[]" "[]" "[]"] show ?thesis
    by simp
qed

section \<open>Trusted validations of a ledger\<close>

lemma getTrustedForLedger_sound:
  assumes "by_ledger_ok s" and "fst (getTrustedForLedger now lid q s) = vs"
  shows "\<forall>v \<in> set vs. vl_trusted v \<and> vl_full v \<and> vl_seq v = q \<and> vl_ledgerID v = lid"
    "distinct (map vl_nodeID vs)"
proof -
  have "(\<forall>v \<in> set vs. vl_trusted v \<and> vl_full v \<and> vl_seq v = q \<and> vl_ledgerID v = lid) \<and> distinct (map vl_nodeID vs)"
  proof (cases "map_of (byLedger s) lid")
    case None
    then show ?thesis using assms(2) by (auto simp: getTrustedForLedger_def for_ledger_def)
  next
    case (Some x)
    obtain t vals where x: "x = (t, vals)" by fastforce
    note l = by_ledger_lookup [OF assms(1), of lid t vals]
    let ?f = "filter (\<lambda>(_, v). vl_trusted v \<and> vl_full v \<and> vl_seq v = q) vals"
    have vs: "vs = map snd ?f"
      using assms(2) Some x by (simp add: getTrustedForLedger_def for_ledger_def)
    have "map vl_nodeID vs = map fst ?f"
      unfolding vs using l(2) Some x by (auto simp: comp_def intro!: map_cong)
    moreover have "distinct (map fst ?f)"
      using l(1) Some x by (simp add: distinct_map_filter)
    ultimately have "distinct (map vl_nodeID vs)" by metis
    moreover have "vl_trusted v \<and> vl_full v \<and> vl_seq v = q \<and> vl_ledgerID v = lid" if "v \<in> set vs" for v
      using that l(2) Some x by (auto simp: vs)
    ultimately show ?thesis by blast
  qed
  then show "\<forall>v \<in> set vs. vl_trusted v \<and> vl_full v \<and> vl_seq v = q \<and> vl_ledgerID v = lid"
    "distinct (map vl_nodeID vs)" by blast+
qed

section \<open>Leaving a wrong branch\<close>

lemma agree_ancestor:
  assumes a: "a \<in> known_ledgers parent number base h" and x: "x \<in> known_ledgers parent number base h"
    and l: "l \<in> known_ledgers parent number base h"
    and al: "ancestor_of rcl_ops a l" and q: "ledgerSeq a \<le> q" "q \<le> ledgerSeq x" "q \<le> ledgerSeq l"
    and eq: "ancestor_id x q = ancestor_id l q"
  shows "ancestor_of rcl_ops a x"
proof -
  let ?U = "known_ledgers parent number base h"
  have ops: "op_seq rcl_ops = ledgerSeq" "op_mismatch rcl_ops = mismatch" by (simp_all add: rcl_ops_def)
  show ?thesis
  proof (cases "a = MakeGenesis")
    case True
    then show ?thesis by (simp add: ancestor_of_def ops MakeGenesis_def [THEN arg_cong [of _ _ ledgerSeq]])
  next
    case False
    then have ak: "known_chain parent number base h a" using a by (simp add: known_ledgers_def)
    have b: "0 < base" "base \<le> q" using ak q(1) by (auto simp: known_chain_def)
    have "x \<noteq> MakeGenesis" "l \<noteq> MakeGenesis" using b q by (auto simp: MakeGenesis_def)
    then have k: "known_chain parent number base h x" "known_chain parent number base h l"
      using x l by (auto simp: known_ledgers_def)
    have "q + 1 \<le> mismatch x l"
      using mismatch_known_unique [OF k, of "q + 1"] b q eq by simp
    then have "ledgerSeq a + 1 \<le> mismatch l x"
      using rcl.mismatch_sym [OF x l] q(1) by (simp add: ops)
    then have "ledgerSeq a + 1 \<le> mismatch a x"
      using rcl.mismatch_trans [OF a l x, of "ledgerSeq a + 1"] al by (simp add: ancestor_of_def ops)
    then show ?thesis
      using rcl.mismatch_le [OF a x] by (simp add: ancestor_of_def ops)
  qed
qed

text \<open>
  C13. A server leaves a wrong branch: suppose a ledger \<open>a\<close>, or a descendant, is the last acquired ledger of more than
  two thirds of the nodes that have one, and the server's working ledger is at least as high but not on that
  branch. Then \<^verbatim>\<open>getPreferred\<close> tells it to switch, provided the server itself has not validated beyond \<open>a\<close>: the sequence and
  hash it returns are those of a ledger on the chain of a known ledger that descends from \<open>a\<close>, at \<open>a\<close> or
  above it, and not on the chain of the working ledger.
\<close>

theorem wrong_branch_is_left:
  assumes run: "validations_run p (known_ledgers parent number base h) now log own s"
    and acq: "acquire_ok (known_ledgers parent number base h) acquire"
    and a: "a \<in> known_ledgers parent number base h" and cur: "cur \<in> known_ledgers parent number base h"
    and last: "m = lastLedger (withTrie p t acquire s)"
    and maj: "2 * card {n. \<exists>l. map_of m n = Some l \<and> \<not> ancestor_of rcl_ops a l}
               < card {n. \<exists>l. map_of m n = Some l \<and> ancestor_of rcl_ops a l}"
    and own: "enf_seq (localSeqEnforcer s) \<le> ledgerSeq a"
    and off: "ledgerSeq a \<le> ledgerSeq cur" "\<not> ancestor_of rcl_ops a cur"
  shows "\<exists>q i l. fst (getPreferred p t acquire cur s) = Some (q, i) \<and> ledgerSeq a \<le> q
     \<and> l \<in> known_ledgers parent number base h \<and> ancestor_of rcl_ops a l \<and> q \<le> ledgerSeq l \<and> ancestor_id l q = i
     \<and> \<not> (q \<le> ledgerSeq cur \<and> ancestor_id cur q = i)"
proof -
  let ?U = "known_ledgers parent number base h" and ?s = "withTrie p t acquire s"
  have ops: "op_seq rcl_ops = ledgerSeq" "op_ancestor rcl_ops = ancestor_id" by (simp_all add: rcl_ops_def)
  have "trie_matches ?U s"
    using validations_run_inv [OF rcl.ledger_history_axioms run] by blast
  then have "trie_matches ?U ?s"
    using withTrie_matches [OF rcl.ledger_history_axioms acq] by blast
  then have r: "trie_run rcl_ops ?U (mset (map snd (lastLedger ?s))) (trie ?s)" and d: "distinct_keys (lastLedger ?s)"
    by (simp_all add: trie_matches_def)
  obtain tip where tip: "trie_getPreferred rcl_ops (enf_seq (localSeqEnforcer ?s)) (trie ?s) = Some tip"
      "ledgerSeq a \<le> tip_seq tip" "ancestor_of rcl_ops a (tip_ledger tip)"
    using rcl.run_preferred_majority [OF r a, of "enf_seq (localSeqEnforcer ?s)"] maj own
    unfolding size_filter_values [OF d] last by (auto simp: withTrie_frame ops)
  note tl = rcl.run_preferred_tip [OF r tip(1), unfolded ops]
  have one: "\<not> (tip_seq tip = ledgerSeq cur + 1 \<and> ancestor_id (tip_ledger tip) (ledgerSeq cur) = ledgerID cur)"
    using agree_ancestor [OF a cur tl(1) tip(3) off(1)] off(2) tl(2) by auto
  have two: "\<not> (tip_seq tip \<le> ledgerSeq cur \<and> ancestor_id cur (tip_seq tip) = tip_id tip)"
    using agree_ancestor [OF a cur tl(1) tip(3) tip(2) _ tl(2)] off(2) tl(3) by auto
  have "fst (getPreferred p t acquire cur s) = Some (tip_seq tip, tip_id tip)"
    using tip(1) one two by (auto simp: getPreferred_def Let_def)
  then show ?thesis
    using tip tl two by (intro exI [of _ "tip_seq tip"] exI [of _ "tip_id tip"] exI [of _ "tip_ledger tip"]) simp
qed

lemmas store_eval =
  demo_validation_of_def demo_ledger_def new_RCLValidatedLedger_def isCurrent_def validationParms_def
  note_sequence_def new_Validations_def aged_index_def aged_get_def aged_put_def Let_def enforce_node_def enforce_def
  new_SeqEnforcer_def nanos_def store_by_ledger_def updateTrie_def checkAcquired_def demo_acquire_def
  updateTrie_ledger_def add_def

lemma demo_store_with:
  "lastLedger (withTrie validationParms 1000 demo_acquire demo_store) = [(7, demo_ledger 0 [10])]"
  "enf_seq (localSeqEnforcer demo_store) = 0"
  by (simp_all add: demo_store_def withTrie_def for_current_def store_eval)

lemma demo_fork: "\<not> ancestor_of rcl_ops (demo_ledger 0 [10]) (demo_ledger 1 [10])"
  by (rule demo_ancestor(2))

theorem wrong_branch_is_left_witness:
  "\<exists>q i l. fst (getPreferred validationParms 1000 demo_acquire (demo_ledger 1 [10]) demo_store) = Some (q, i)
     \<and> 2 \<le> q \<and> l \<in> known_ledgers demo_parent demo_number 1 10 \<and> ancestor_of rcl_ops (demo_ledger 0 [10]) l
     \<and> q \<le> ledgerSeq l \<and> ancestor_id l q = i"
proof -
  obtain log where run: "validations_run validationParms (known_ledgers demo_parent demo_number 1 10) 5 log [] demo_store"
    using demo_store_run by blast
  have sq: "ledgerSeq (demo_ledger 0 [10]) = 2" "ledgerSeq (demo_ledger 1 [10]) = 2"
    by (simp_all add: demo_ledger_def new_RCLValidatedLedger_def)
  have yes: "{n. \<exists>l. map_of [(7 :: NodeID, demo_ledger 0 [10])] n = Some l \<and> ancestor_of rcl_ops (demo_ledger 0 [10]) l} = {7}"
    and no: "{n. \<exists>l. map_of [(7 :: NodeID, demo_ledger 0 [10])] n = Some l \<and> \<not> ancestor_of rcl_ops (demo_ledger 0 [10]) l} = {}"
    using rcl.ancestor_of_refl [OF demo_known(1)] by (auto split: if_splits)
  show ?thesis
    using wrong_branch_is_left [OF run demo_acquire_ok demo_known(1) demo_known(2) demo_store_with(1) [symmetric]]
      yes no demo_store_with(2) demo_fork sq by simp blast
qed

section \<open>Stale validations whose ledger was not acquired\<close>

lemma removeTrie_other:
  "n' \<noteq> n \<Longrightarrow> map_of (lastLedger (removeTrie n' v s)) n = map_of (lastLedger s) n"
  by (auto simp: removeTrie_def Let_def split: option.split)

lemma removeTrie_mismatch:
  "map_of (lastLedger s) n = Some l \<Longrightarrow> ledgerID l \<noteq> vl_ledgerID v \<Longrightarrow> lastLedger (removeTrie n v s) = lastLedger s"
  by (simp add: removeTrie_def Let_def)

lemma current_loop_keeps:
  "map_of (lastLedger s) n = Some l \<Longrightarrow> \<forall>v. (n, v) \<in> set it \<longrightarrow> ledgerID l \<noteq> vl_ledgerID v \<Longrightarrow>
   map_of (lastLedger (snd (current_loop p t it s))) n = Some l"
proof (induction p t it s rule: current_loop.induct)
  case (2 p t n' v it s)
  have "map_of (lastLedger (removeTrie n' v s)) n = Some l"
    using "2.prems" removeTrie_other [of n' n v s] removeTrie_mismatch [of s n l v] by (cases "n' = n") auto
  then show ?case
    using 2 by (auto split: prod.split)
qed simp

lemma trie_run_known: "trie_run ops U M t \<Longrightarrow> set_mset M \<subseteq> U"
  by (induction rule: trie_run.induct) (auto dest: in_diffD split: if_splits)

text \<open>
  C40. A node whose last validation has become stale still supports its earlier ledger, if the ledger of the stale
  validation was never acquired. In every store that the operations produce, flushing the current validations drops the node
  from them, but its earlier ledger stays in \<^verbatim>\<open>lastLedger_\<close> and the tip support of that ledger in the trie still counts the
  node, on top of the other nodes whose last ledger it is; \<^verbatim>\<open>withTrie\<close> promises that stale validations are flushed
  from the trie.
\<close>

theorem stale_validation_keeps_support:
  assumes "validations_run p (known_ledgers parent number base h) now log own s"
    and "distinct_keys (current s)" and "map_of (current s) n = Some v"
    and "map_of (lastLedger s) n = Some l" and "ledgerID l \<noteq> vl_ledgerID v"
    and "\<not> isCurrent p t (vl_signTime v) (vl_seenTime v)" and "s' = snd (for_current p t s)"
  shows "map_of (current s') n = None \<and> map_of (lastLedger s') n = Some l
    \<and> trie_tipSupport rcl_ops l (trie s')
      = Suc (card {n'. n' \<noteq> n \<and> (\<exists>l'. map_of (lastLedger s') n' = Some l' \<and> same_ledger rcl_ops l l')})"
proof -
  let ?U = "known_ledgers parent number base h"
  have only: "(n, v') \<in> set (current s) \<longleftrightarrow> v' = v" for v'
    using in_set_map_of [OF assms(2)] assms(3) by auto
  have "map_of (lastLedger (snd (current_loop p t (current s) s))) n = Some l"
    by (rule current_loop_keeps [OF assms(4)]) (use only assms(5) in simp)
  then have last: "map_of (lastLedger s') n = Some l" by (simp add: assms(7) for_current_def split_beta)
  have "current s' = fst (for_current p t s)" by (simp add: assms(7) for_current_def split_beta)
  then have gone: "map_of (current s') n = None"
    using only assms(6) by (auto simp: for_current_live map_of_eq_None_iff)
  have "trie_matches ?U s'"
    using validations_run_inv [OF rcl.ledger_history_axioms assms(1)] for_current_matches [OF rcl.ledger_history_axioms]
    by (simp add: assms(7))
  then have r: "trie_run rcl_ops ?U (mset (map snd (lastLedger s'))) (trie s')" and d: "distinct_keys (lastLedger s')"
    by (simp_all add: trie_matches_def)
  have l: "l \<in> ?U" using trie_run_known [OF r] map_of_SomeD [OF last] by force
  let ?N = "{n'. \<exists>l'. map_of (lastLedger s') n' = Some l' \<and> same_ledger rcl_ops l l'}"
  have "trie_tipSupport rcl_ops l (trie s') = card ?N"
    using rcl.run_supports [OF r l] size_filter_values [OF d] by metis
  moreover have "?N = insert n {n'. n' \<noteq> n \<and> (\<exists>l'. map_of (lastLedger s') n' = Some l' \<and> same_ledger rcl_ops l l')}"
    using last rcl.ancestor_of_refl [OF l] by (auto simp: same_ledger_def)
  moreover have "finite ?N"
    by (rule finite_subset [of _ "keys (lastLedger s')"]) (force dest: map_of_SomeD, simp)
  ultimately show ?thesis using gone last by simp
qed

definition demo_store2 :: Validations where
  "demo_store2 = snd (add validationParms 1100 8 demo_acquire 7 (demo_validation_of 7 (demo_ledger 0 [10, 20]) 1100)
     demo_store)"

lemma demo_store2_run: "\<exists>now log. validations_run validationParms (known_ledgers demo_parent demo_number 1 10) now log [] demo_store2"
proof -
  let ?v = "demo_validation_of 7 (demo_ledger 0 [10, 20]) 1100"
  obtain log where run: "validations_run validationParms (known_ledgers demo_parent demo_number 1 10) 5 log [] demo_store"
    using demo_store_run by blast
  obtain st where st: "add validationParms 1100 8 demo_acquire 7 ?v demo_store = (st, demo_store2)"
    by (metis demo_store2_def prod.collapse)
  have n: "vl_nodeID ?v = 7" by (simp add: demo_validation_of_def)
  from validations_run.add [OF run _ demo_acquire_ok n st] show ?thesis by auto
qed

theorem stale_validation_keeps_support_witness:
  "trie_tipSupport rcl_ops (demo_ledger 0 [10]) (trie (snd (for_current validationParms 2000 demo_store2))) \<noteq> 0"
proof -
  let ?v = "demo_validation_of 7 (demo_ledger 0 [10, 20]) 1100"
  obtain now log where run: "validations_run validationParms (known_ledgers demo_parent demo_number 1 10) now log [] demo_store2"
    using demo_store2_run by blast
  have d: "distinct_keys (current demo_store2)" "map_of (current demo_store2) 7 = Some ?v"
    "map_of (lastLedger demo_store2) 7 = Some (demo_ledger 0 [10])" "ledgerID (demo_ledger 0 [10]) \<noteq> vl_ledgerID ?v"
    "\<not> isCurrent validationParms 2000 (vl_signTime ?v) (vl_seenTime ?v)"
    by (simp_all add: demo_store2_def demo_store_def clear_acquiring_def store_eval)
  show ?thesis using stale_validation_keeps_support [OF run d refl] by simp
qed

end
