(* ===== verification/Transactor.thy ===== *)
theory Transactor
  imports Exclusion_Manager
begin

unbundle bit_operations_syntax

text \<open>
  The checks every transaction passes before it is looked at in detail,
  \<^verbatim>\<open>src/xrpld/app/tx/detail/Transactor.cpp\<close>: \<open>preflight0\<close> (network, identifier, flags) and
  \<open>preflight1\<close> (account, fee, signing key), including the gate that stops excluded accounts. A
  transaction is a record of the common fields with a body of its own type; rules are the
  set of enabled features.

  The lemmas show what a transaction that passes satisfies.
\<close>

section \<open>Transactions and rules\<close>

datatype TxType = ttAMENDMENT | ttFEE | ttUNL_MODIFY | ttVALIDATOR_VOTE | ttOTHER nat

datatype Feature =
    featureTicketBatch
  | featurePermissionDelegation
  | featureBatch
  | featureLendingProtocol
  | featureNegativeUNL
  | featurePF_ValidatorVoteTracking
  | featurePF_AccountExclusion
  | featureXRPFees
  | featureDeletableAccounts
  | fixAmendmentMajorityCalc

type_synonym Rules = "Feature \<Rightarrow> bool"

record 'body Tx =
  tx_Type :: TxType
  tx_ID :: uint256
  tx_Flags :: u32
  tx_NetworkID :: "u32 option"
  tx_Account :: AccountID
  tx_Destination :: "AccountID option"
  tx_Delegate :: "AccountID option"
  tx_Sequence :: u32
  tx_TicketSequence :: "u32 option"
  tx_has_AccountTxnID :: bool
  tx_has_PreviousTxnID :: bool
  tx_fee_native :: bool
  tx_fee :: int
  tx_SigningPubKey :: Blob
  tx_Signature :: Blob
  tx_has_Signers :: bool
  tx_body :: 'body

definition tfInnerBatchTxn :: u32 where
  "tfInnerBatchTxn = 0x40000000"

definition tfUniversal :: u32 where
  "tfUniversal = 0x80000000 OR tfInnerBatchTxn"

definition isFlag :: "u32 \<Rightarrow> 'b Tx \<Rightarrow> bool" where
  "isFlag f tx = (tx_Flags tx AND f = f)"

definition isPseudoTx :: "'b Tx \<Rightarrow> bool" where
  "isPseudoTx tx = (tx_Type tx = ttAMENDMENT \<or> tx_Type tx = ttFEE \<or> tx_Type tx = ttUNL_MODIFY
     \<or> tx_Type tx = ttVALIDATOR_VOTE)"

definition INITIAL_XRP :: int where
  "INITIAL_XRP = 100000000000 * 1000000"

definition isLegalAmount :: "int \<Rightarrow> bool" where
  "isLegalAmount amount = (amount \<le> INITIAL_XRP)"

datatype KeyType = ed25519 | secp256k1

definition publicKeyType :: "Blob \<Rightarrow> KeyType option" where
  "publicKeyType key =
     (if length key = 33
      then (if key ! 0 = 0xED then Some ed25519
            else if key ! 0 = 0x02 \<or> key ! 0 = 0x03 then Some secp256k1
            else None)
      else None)"

section \<open>Preflight\<close>

definition preflight0 :: "u32 \<Rightarrow> u32 \<Rightarrow> 'b Tx \<Rightarrow> ter" where
  "preflight0 nodeNID flagMask tx =
     (if isPseudoTx tx \<and> isFlag tfInnerBatchTxn tx then temINVALID_FLAG
      else let network =
             (if \<not> isPseudoTx tx \<or> tx_NetworkID tx \<noteq> None
              then (if nodeNID \<le> 1024
                    then (if tx_NetworkID tx \<noteq> None then telNETWORK_ID_MAKES_TX_NON_CANONICAL
                          else tesSUCCESS)
                    else (case tx_NetworkID tx of
                            None \<Rightarrow> telREQUIRES_NETWORK_ID
                          | Some n \<Rightarrow> if n \<noteq> nodeNID then telWRONG_NETWORK else tesSUCCESS))
              else tesSUCCESS)
           in if network \<noteq> tesSUCCESS then network
              else if tx_ID tx = 0 then temINVALID
              else if tx_Flags tx AND flagMask \<noteq> 0 then temINVALID_FLAG
              else tesSUCCESS)"

definition preflightCheckSigningKey :: "'b Tx \<Rightarrow> ter" where
  "preflightCheckSigningKey tx =
     (if tx_SigningPubKey tx \<noteq> [] \<and> publicKeyType (tx_SigningPubKey tx) = None
      then temBAD_SIGNATURE else tesSUCCESS)"

text \<open>\<^verbatim>\<open>getSeqProxy().isTicket()\<close>.\<close>

definition seqProxy_isTicket :: "'b Tx \<Rightarrow> bool" where
  "seqProxy_isTicket tx = (if tx_Sequence tx \<noteq> 0 then False else tx_TicketSequence tx \<noteq> None)"

definition preflight1 :: "Rules \<Rightarrow> u32 \<Rightarrow> ExclusionManager \<Rightarrow> u32 \<Rightarrow> 'b Tx \<Rightarrow> ter" where
  "preflight1 rules nodeNID em flagMask tx =
     (if tx_TicketSequence tx \<noteq> None \<and> \<not> rules featureTicketBatch then temMALFORMED
      else if tx_Delegate tx \<noteq> None \<and> \<not> rules featurePermissionDelegation then temDISABLED
      else if tx_Delegate tx = Some (tx_Account tx) then temBAD_SIGNER
      else let ret = preflight0 nodeNID flagMask tx in
           if ret \<noteq> tesSUCCESS then ret
           else if tx_Account tx = 0 then temBAD_SRC_ACCOUNT
           else if isExcluded em (tx_Account tx) then temBAD_SRC_ACCOUNT
           else if (case tx_Destination tx of None \<Rightarrow> False | Some dest \<Rightarrow> isExcluded em dest)
           then temINVALID_ACCOUNT_ID
           else if \<not> tx_fee_native tx \<or> tx_fee tx < 0 \<or> \<not> isLegalAmount (tx_fee tx) then temBAD_FEE
           else let ret = preflightCheckSigningKey tx in
                if ret \<noteq> tesSUCCESS then ret
                else if seqProxy_isTicket tx \<and> tx_has_AccountTxnID tx then temINVALID
                else if isFlag tfInnerBatchTxn tx \<and> \<not> rules featureBatch then temINVALID_FLAG
                else tesSUCCESS)"

section \<open>Lemmas\<close>

lemma preflight0_success:
  assumes "preflight0 nodeNID flagMask tx = tesSUCCESS"
  shows "tx_ID tx \<noteq> 0" "tx_Flags tx AND flagMask = 0"
    "\<not> isPseudoTx tx \<Longrightarrow> (if nodeNID \<le> 1024 then tx_NetworkID tx = None else tx_NetworkID tx = Some nodeNID)"
    "tx_NetworkID tx \<noteq> None \<Longrightarrow> 1024 < nodeNID \<and> tx_NetworkID tx = Some nodeNID"
  using assms by (auto simp: preflight0_def Let_def split: if_splits option.splits)

lemma preflight1_success:
  assumes "preflight1 rules nodeNID em flagMask tx = tesSUCCESS"
  shows "preflight0 nodeNID flagMask tx = tesSUCCESS" "tx_Account tx \<noteq> 0"
    "\<not> isExcluded em (tx_Account tx)" "\<And>dest. tx_Destination tx = Some dest \<Longrightarrow> \<not> isExcluded em dest"
    "tx_fee_native tx" "0 \<le> tx_fee tx" "tx_fee tx \<le> INITIAL_XRP"
  using assms
  by (auto simp: preflight1_def Let_def isLegalAmount_def split: if_splits option.splits)

section \<open>Properties\<close>

text \<open>
  C10. Excluded accounts are stopped at the door. A transaction that passes \<^verbatim>\<open>preflight1\<close> pays a legal non-negative native fee and
  carries the network's identifier exactly if the network requires it. With any reachable exclusion cache that has been initialised
  and has a list, it neither comes from an account that 67% of the list-publishing validators name nor goes to one. Before
  the first \<^verbatim>\<open>rebuildCache\<close> no account counts as excluded and the check lets all accounts pass.
\<close>

theorem preflight1_passes_no_excluded:
  assumes "em_reach em" and "preflight1 rules nodeNID em flagMask tx = tesSUCCESS"
  shows "(em_initialized em \<and> voters em \<noteq> {} \<longrightarrow> (\<forall>a. a = tx_Account tx \<or> tx_Destination tx = Some a \<longrightarrow>
      100 * card (voters_against em a) < 67 * card (voters em)))
    \<and> 0 \<le> tx_fee tx \<and> tx_fee tx \<le> INITIAL_XRP \<and> tx_fee_native tx
    \<and> (isPseudoTx tx \<or> tx_NetworkID tx = (if nodeNID \<le> 1024 then None else Some nodeNID))"
proof -
  note p = preflight1_success [OF assms(2)] and q = preflight0_success [OF preflight1_success(1) [OF assms(2)]]
  have "\<not> isExcluded em a" if "a = tx_Account tx \<or> tx_Destination tx = Some a" for a
    using that p(3,4) by blast
  then show ?thesis
    using isExcluded_quorum [OF em_reach_inv [OF assms(1)]] p q(3)
    by (cases "isPseudoTx tx"; auto simp: not_le split: if_splits)
qed

definition demo_tx :: "AccountID \<Rightarrow> AccountID \<Rightarrow> unit Tx" where
  "demo_tx src dst = \<lparr>tx_Type = ttOTHER 0, tx_ID = 1, tx_Flags = 0, tx_NetworkID = Some 2025,
     tx_Account = src, tx_Destination = Some dst, tx_Delegate = None, tx_Sequence = 5,
     tx_TicketSequence = None, tx_has_AccountTxnID = False, tx_has_PreviousTxnID = False,
     tx_fee_native = True, tx_fee = 10, tx_SigningPubKey = [], tx_Signature = [], tx_has_Signers = False,
     tx_body = ()\<rparr>"

theorem preflight1_passes_no_excluded_witness:
  "100 * card (voters_against demo_cache 7) < 67 * card (voters demo_cache)
   \<and> preflight1 (\<lambda>_. True) 2025 (removeValidator 1 demo_cache) 0 (demo_tx 4 7) = temINVALID_ACCOUNT_ID"
proof -
  have v: "voters demo_cache \<noteq> {}"
    using demo_cache_eval(4) by (auto simp: voters_def simp del: map_of_eq_Some_iff)
  have "isExcluded demo_cache 4 = False" "isExcluded (removeValidator 1 demo_cache) 4 = False"
    by (simp_all add: demo_cache_defs)
  then have p: "preflight1 (\<lambda>_. True) 2025 demo_cache 0 (demo_tx 4 7) = tesSUCCESS"
    "preflight1 (\<lambda>_. True) 2025 (removeValidator 1 demo_cache) 0 (demo_tx 4 7) = temINVALID_ACCOUNT_ID"
    by (simp_all add: preflight1_def preflight0_def demo_tx_def isPseudoTx_def isFlag_def demo_cache_eval
        tfInnerBatchTxn_def isLegalAmount_def INITIAL_XRP_def preflightCheckSigningKey_def
        seqProxy_isTicket_def)
  moreover have "tx_Destination (demo_tx 4 7) = Some 7" by (simp add: demo_tx_def)
  ultimately show ?thesis
    using preflight1_passes_no_excluded [OF demo_cache_reach p(1)] demo_cache_eval(3) v by blast
qed

end
