(* ===== verification/Change_Tx.thy ===== *)
theory Change_Tx
  imports Transactor Vote_Tracker
begin

unbundle bit_operations_syntax

text \<open>
  Pseudo-transactions that change the ledger's own objects, \<^verbatim>\<open>src/xrpld/app/tx/detail/Change.cpp\<close>:
  preflight, preclaim and the four operations \<^verbatim>\<open>applyAmendment\<close>, \<^verbatim>\<open>applyFee\<close>,
  \<^verbatim>\<open>applyUNLModify\<close> and \<^verbatim>\<open>applyValidatorVote\<close>, with \<^verbatim>\<open>Ledger::updateNegativeUNL\<close> of
  \<^verbatim>\<open>src/xrpld/app/ledger/Ledger.cpp\<close>.

  \<open>View\<close> is the buffered ledger view a transactor writes to, one field per ledger object it touches;
  \<open>AppState\<close> is what the operations change in the running server (the exclusion cache, the amendment
  table, the amendment block). \<open>doApply\<close> returns the result code with both. The view is
  discarded by the caller unless the code is \<^verbatim>\<open>tesSUCCESS\<close>; the server's state is not.
  Inserting into an owner directory is an argument: its result is the page, or \<open>None\<close> when full.
  The one-off repair \<^verbatim>\<open>activateTrustLinesToSelfFix\<close> of two historic trust lines is only recorded as
  having been called.
\<close>

section \<open>Ledger objects\<close>

record DisabledValidator =
  dv_PublicKey :: "Blob option"
  dv_FirstLedgerSequence :: "u32 option"

record NegativeUNL =
  nu_DisabledValidators :: "DisabledValidator list option"
  nu_ValidatorToDisable :: "Blob option"
  nu_ValidatorToReEnable :: "Blob option"

record Majority =
  mj_Amendment :: uint256
  mj_CloseTime :: u32

record Amendments =
  am_Amendments :: "uint256 list"
  am_Majorities :: "Majority list option"

text \<open>The new fee fields are amounts: whether the amount is native, and its drops.\<close>

record FeeSettings =
  fs_BaseFee :: "u64 option"
  fs_ReferenceFeeUnits :: "u32 option"
  fs_ReserveBase :: "u32 option"
  fs_ReserveIncrement :: "u32 option"
  fs_BaseFeeDrops :: "(bool \<times> int) option"
  fs_ReserveBaseDrops :: "(bool \<times> int) option"
  fs_ReserveIncrementDrops :: "(bool \<times> int) option"

record ValidatorVoteStats =
  vs_Account :: AccountID
  vs_VoteCount :: u32
  vs_OwnerNode :: u64
  vs_PreviousTxnID :: uint256
  vs_PreviousTxnLgrSeq :: u32

record View =
  v_seq :: u32
  v_open :: bool
  v_rules :: Rules
  v_parentCloseTime :: u32
  v_accounts :: "AccountID \<Rightarrow> AccountRoot option"
  v_voteStats :: "AccountID \<Rightarrow> ValidatorVoteStats option"
  v_negativeUNL :: "NegativeUNL option"
  v_amendments :: "Amendments option"
  v_fees :: "FeeSettings option"

record AppState =
  app_exclusions :: ExclusionManager
  app_enabledAmendments :: "uint256 list"
  app_amendmentBlocked :: bool
  app_trustLinesFixed :: bool

datatype ChangeBody =
    BodyAmendment uint256
  | BodyFee FeeSettings
  | BodyUNLModify "u8 option" "u32 option" "Blob option"
  | BodyVote VoteTx

type_synonym ChangeTx = "ChangeBody Tx"

section \<open>Preflight and preclaim\<close>

definition tfGotMajority :: u32 where
  "tfGotMajority = 0x00010000"

definition tfLostMajority :: u32 where
  "tfLostMajority = 0x00020000"

definition tfChangeMask :: u32 where
  "tfChangeMask = NOT (tfUniversal OR tfGotMajority OR tfLostMajority)"

definition invokePreflight_Change :: "Rules \<Rightarrow> u32 \<Rightarrow> ChangeTx \<Rightarrow> ter" where
  "invokePreflight_Change rules nodeNID tx =
     (let ret = preflight0 nodeNID (if rules featureLendingProtocol then tfChangeMask else 0) tx in
      if ret \<noteq> tesSUCCESS then ret
      else if tx_Account tx \<noteq> 0 then temBAD_SRC_ACCOUNT
      else if \<not> tx_fee_native tx \<or> tx_fee tx \<noteq> 0 then temBAD_FEE
      else if tx_SigningPubKey tx \<noteq> [] \<or> tx_Signature tx \<noteq> [] \<or> tx_has_Signers tx
      then temBAD_SIGNATURE
      else if tx_Sequence tx \<noteq> 0 \<or> tx_has_PreviousTxnID tx then temBAD_SEQUENCE
      else if tx_Type tx = ttUNL_MODIFY \<and> \<not> rules featureNegativeUNL then temDISABLED
      else if tx_Type tx = ttVALIDATOR_VOTE \<and> \<not> rules featurePF_ValidatorVoteTracking
      then temDISABLED
      else tesSUCCESS)"

definition preclaim_fee :: "Rules \<Rightarrow> FeeSettings \<Rightarrow> ter" where
  "preclaim_fee rules f =
     (if rules featureXRPFees
      then (if fs_BaseFeeDrops f = None \<or> fs_ReserveBaseDrops f = None
               \<or> fs_ReserveIncrementDrops f = None then temMALFORMED
            else if fs_BaseFee f \<noteq> None \<or> fs_ReferenceFeeUnits f \<noteq> None \<or> fs_ReserveBase f \<noteq> None
               \<or> fs_ReserveIncrement f \<noteq> None then temMALFORMED
            else tesSUCCESS)
      else (if fs_BaseFee f = None \<or> fs_ReferenceFeeUnits f = None \<or> fs_ReserveBase f = None
               \<or> fs_ReserveIncrement f = None then temMALFORMED
            else if fs_BaseFeeDrops f \<noteq> None \<or> fs_ReserveBaseDrops f \<noteq> None
               \<or> fs_ReserveIncrementDrops f \<noteq> None then temDISABLED
            else tesSUCCESS))"

definition preclaim :: "View \<Rightarrow> ChangeTx \<Rightarrow> ter" where
  "preclaim view tx =
     (if v_open view then temINVALID
      else (case tx_Type tx of
              ttFEE \<Rightarrow> (case tx_body tx of BodyFee f \<Rightarrow> preclaim_fee (v_rules view) f
                        | _ \<Rightarrow> temMALFORMED)
            | ttAMENDMENT \<Rightarrow> tesSUCCESS
            | ttUNL_MODIFY \<Rightarrow> tesSUCCESS
            | ttVALIDATOR_VOTE \<Rightarrow> tesSUCCESS
            | ttOTHER _ \<Rightarrow> temUNKNOWN))"

section \<open>Amendments and fees\<close>

text \<open>
  The loop over the old majorities: \<open>Inl\<close> is the early return, \<open>Inr\<close> the majorities passed through
  and whether the amendment was among them.
\<close>

fun scan_majorities :: "uint256 \<Rightarrow> bool \<Rightarrow> Majority list \<Rightarrow> ter + (Majority list \<times> bool)" where
  "scan_majorities amendment gotMajority [] = Inr ([], False)"
| "scan_majorities amendment gotMajority (m # ms) =
     (if mj_Amendment m = amendment
      then (if gotMajority then Inl tefALREADY
            else (case scan_majorities amendment gotMajority ms of
                    Inl e \<Rightarrow> Inl e | Inr (ns, _) \<Rightarrow> Inr (ns, True)))
      else (case scan_majorities amendment gotMajority ms of
              Inl e \<Rightarrow> Inl e | Inr (ns, found) \<Rightarrow> Inr (m # ns, found)))"

definition applyAmendment ::
  "(uint256 \<Rightarrow> bool) \<Rightarrow> uint256 \<Rightarrow> uint256 \<Rightarrow> u32 \<Rightarrow> View \<Rightarrow> AppState \<Rightarrow> ter \<times> View \<times> AppState" where
  "applyAmendment isSupported fixTrustLinesToSelf amendment flags view app =
     (let obj = (case v_amendments view of
                   None \<Rightarrow> \<lparr>am_Amendments = [], am_Majorities = None\<rparr> | Some o' \<Rightarrow> o');
          view1 = view\<lparr>v_amendments := Some obj\<rparr>
      in if amendment \<in> set (am_Amendments obj) then (tefALREADY, view1, app)
         else let gotMajority = (flags AND tfGotMajority \<noteq> 0);
                  lostMajority = (flags AND tfLostMajority \<noteq> 0)
              in if gotMajority \<and> lostMajority then (temINVALID_FLAG, view1, app)
                 else (case scan_majorities amendment gotMajority
                              (case am_Majorities obj of None \<Rightarrow> [] | Some ms \<Rightarrow> ms) of
                         Inl e \<Rightarrow> (e, view1, app)
                       | Inr (passed, found) \<Rightarrow>
                           if \<not> found \<and> lostMajority then (tefALREADY, view1, app)
                           else let majorities =
                                  (if gotMajority
                                   then passed @ [\<lparr>mj_Amendment = amendment,
                                                   mj_CloseTime = v_parentCloseTime view\<rparr>]
                                   else passed);
                                enable = (\<not> gotMajority \<and> \<not> lostMajority);
                                obj1 = (if enable then obj\<lparr>am_Amendments := am_Amendments obj @ [amendment]\<rparr>
                                        else obj);
                                obj2 = obj1\<lparr>am_Majorities := (if majorities = [] then None else Some majorities)\<rparr>;
                                app1 = (if enable
                                        then app\<lparr>app_trustLinesFixed := app_trustLinesFixed app
                                                   \<or> amendment = fixTrustLinesToSelf,
                                                 app_enabledAmendments := app_enabledAmendments app @ [amendment],
                                                 app_amendmentBlocked := app_amendmentBlocked app
                                                   \<or> \<not> isSupported amendment\<rparr>
                                        else app)
                            in (tesSUCCESS, view1\<lparr>v_amendments := Some obj2\<rparr>, app1)))"

definition applyFee :: "FeeSettings \<Rightarrow> View \<Rightarrow> ter \<times> View" where
  "applyFee tx view =
     (let obj = (case v_fees view of
                   None \<Rightarrow> \<lparr>fs_BaseFee = None, fs_ReferenceFeeUnits = None, fs_ReserveBase = None,
                            fs_ReserveIncrement = None, fs_BaseFeeDrops = None,
                            fs_ReserveBaseDrops = None, fs_ReserveIncrementDrops = None\<rparr>
                 | Some o' \<Rightarrow> o');
          obj1 = (if v_rules view featureXRPFees
                  then obj\<lparr>fs_BaseFeeDrops := fs_BaseFeeDrops tx,
                           fs_ReserveBaseDrops := fs_ReserveBaseDrops tx,
                           fs_ReserveIncrementDrops := fs_ReserveIncrementDrops tx,
                           fs_BaseFee := None, fs_ReferenceFeeUnits := None, fs_ReserveBase := None,
                           fs_ReserveIncrement := None\<rparr>
                  else obj\<lparr>fs_BaseFee := fs_BaseFee tx,
                           fs_ReferenceFeeUnits := fs_ReferenceFeeUnits tx,
                           fs_ReserveBase := fs_ReserveBase tx,
                           fs_ReserveIncrement := fs_ReserveIncrement tx\<rparr>)
      in (tesSUCCESS, view\<lparr>v_fees := Some obj1\<rparr>))"

section \<open>The negative UNL\<close>

definition FLAG_LEDGER_INTERVAL :: u32 where
  "FLAG_LEDGER_INTERVAL = 256"

definition isFlagLedger :: "u32 \<Rightarrow> bool" where
  "isFlagLedger seq = (seq mod FLAG_LEDGER_INTERVAL = 0)"

definition empty_NegativeUNL :: NegativeUNL where
  "empty_NegativeUNL = \<lparr>nu_DisabledValidators = None, nu_ValidatorToDisable = None,
     nu_ValidatorToReEnable = None\<rparr>"

definition disabled_entries :: "NegativeUNL \<Rightarrow> DisabledValidator list" where
  "disabled_entries n = (case nu_DisabledValidators n of None \<Rightarrow> [] | Some vs \<Rightarrow> vs)"

definition applyUNLModify ::
  "u8 option \<Rightarrow> u32 option \<Rightarrow> Blob option \<Rightarrow> View \<Rightarrow> ter \<times> View" where
  "applyUNLModify disablingField seqField validatorField view =
     (if \<not> isFlagLedger (v_seq view) then (tefFAILURE, view)
      else (case (disablingField, seqField, validatorField) of
              (Some d, Some seq, Some validator) \<Rightarrow>
                if d > 1 then (tefFAILURE, view)
                else if seq \<noteq> v_seq view then (tefFAILURE, view)
                else if publicKeyType validator = None then (tefFAILURE, view)
                else let n = (case v_negativeUNL view of None \<Rightarrow> empty_NegativeUNL | Some n \<Rightarrow> n);
                         view1 = view\<lparr>v_negativeUNL := Some n\<rparr>;
                         found = list_ex (\<lambda>v. dv_PublicKey v = Some validator) (disabled_entries n)
                     in if d \<noteq> 0
                        then (if nu_ValidatorToDisable n \<noteq> None then (tefFAILURE, view1)
                              else if nu_ValidatorToReEnable n = Some validator then (tefFAILURE, view1)
                              else if found then (tefFAILURE, view1)
                              else (tesSUCCESS, view1\<lparr>v_negativeUNL :=
                                      Some (n\<lparr>nu_ValidatorToDisable := Some validator\<rparr>)\<rparr>))
                        else (if nu_ValidatorToReEnable n \<noteq> None then (tefFAILURE, view1)
                              else if nu_ValidatorToDisable n = Some validator then (tefFAILURE, view1)
                              else if \<not> found then (tefFAILURE, view1)
                              else (tesSUCCESS, view1\<lparr>v_negativeUNL :=
                                      Some (n\<lparr>nu_ValidatorToReEnable := Some validator\<rparr>)\<rparr>))
            | _ \<Rightarrow> (tefFAILURE, view)))"

definition updateNegativeUNL :: "View \<Rightarrow> View" where
  "updateNegativeUNL view =
     (case v_negativeUNL view of
        None \<Rightarrow> view
      | Some n \<Rightarrow>
          let toDisable = nu_ValidatorToDisable n; toReEnable = nu_ValidatorToReEnable n in
          if toDisable = None \<and> toReEnable = None then view
          else let kept = filter (\<lambda>v. \<not> (toReEnable \<noteq> None \<and> dv_PublicKey v \<noteq> None
                                         \<and> dv_PublicKey v = toReEnable)) (disabled_entries n);
                   newNUnl = (case toDisable of
                                None \<Rightarrow> kept
                              | Some k \<Rightarrow> kept @ [\<lparr>dv_PublicKey = Some k,
                                                   dv_FirstLedgerSequence = Some (v_seq view)\<rparr>])
               in if newNUnl \<noteq> []
                  then view\<lparr>v_negativeUNL := Some \<lparr>nu_DisabledValidators = Some newNUnl,
                         nu_ValidatorToDisable = None, nu_ValidatorToReEnable = None\<rparr>\<rparr>
                  else view\<lparr>v_negativeUNL := None\<rparr>)"

definition negativeUNL :: "View \<Rightarrow> PublicKey list" where
  "negativeUNL view =
     (case v_negativeUNL view of
        None \<Rightarrow> []
      | Some n \<Rightarrow> fold (\<lambda>v acc. case dv_PublicKey v of
                                  None \<Rightarrow> acc
                                | Some d \<Rightarrow> if publicKeyType d = None then acc else List.insert d acc)
                    (disabled_entries n) [])"

definition validatorToDisable :: "View \<Rightarrow> PublicKey option" where
  "validatorToDisable view =
     (case v_negativeUNL view of
        None \<Rightarrow> None
      | Some n \<Rightarrow> (case nu_ValidatorToDisable n of
                     None \<Rightarrow> None | Some d \<Rightarrow> if publicKeyType d \<noteq> None then Some d else None))"

definition validatorToReEnable :: "View \<Rightarrow> PublicKey option" where
  "validatorToReEnable view =
     (case v_negativeUNL view of
        None \<Rightarrow> None
      | Some n \<Rightarrow> (case nu_ValidatorToReEnable n of
                     None \<Rightarrow> None | Some d \<Rightarrow> if publicKeyType d \<noteq> None then Some d else None))"

section \<open>Validator votes\<close>

definition recordVoteStats ::
  "(AccountID \<Rightarrow> u64 option) \<Rightarrow> uint256 \<Rightarrow> AccountID \<Rightarrow> View \<Rightarrow> ter \<times> View" where
  "recordVoteStats dirInsert txID account view =
     (case v_voteStats view account of
        None \<Rightarrow>
          (case dirInsert account of
             None \<Rightarrow> (tecDIR_FULL, view)
           | Some page \<Rightarrow>
               (tesSUCCESS, view\<lparr>v_voteStats := (v_voteStats view)(account \<mapsto>
                  \<lparr>vs_Account = account, vs_VoteCount = 1, vs_OwnerNode = page,
                   vs_PreviousTxnID = txID, vs_PreviousTxnLgrSeq = v_seq view\<rparr>)\<rparr>))
      | Some s \<Rightarrow>
          (tesSUCCESS, view\<lparr>v_voteStats := (v_voteStats view)(account \<mapsto>
             s\<lparr>vs_VoteCount := vs_VoteCount s + 1, vs_PreviousTxnID := txID,
               vs_PreviousTxnLgrSeq := v_seq view\<rparr>)\<rparr>))"

definition new_validator_account :: "View \<Rightarrow> AccountID \<Rightarrow> AccountRoot" where
  "new_validator_account view account =
     \<lparr>ar_Account = account, ar_Balance = 0,
      ar_Sequence = (if v_rules view featureDeletableAccounts then v_seq view else 1),
      ar_OwnerCount = 0, ar_ExclusionList = None\<rparr>"

text \<open>The changed list: the removal first, then the addition, up to 100 entries.\<close>

definition change_list ::
  "AccountID option \<Rightarrow> AccountID option \<Rightarrow> AccountID option list \<Rightarrow> AccountID option list" where
  "change_list exclusionAdd exclusionRemove exclusionList =
     (let removed = (case exclusionRemove of
                       None \<Rightarrow> exclusionList
                     | Some toRemove \<Rightarrow> filter (\<lambda>e. e \<noteq> Some toRemove) exclusionList)
      in case exclusionAdd of
           None \<Rightarrow> removed
         | Some toAdd \<Rightarrow>
             if Some toAdd \<in> set removed then removed
             else if length removed < 100 then removed @ [Some toAdd]
             else removed)"

definition applyExclusionChange ::
  "AccountID option \<Rightarrow> AccountID option \<Rightarrow> AccountID \<Rightarrow> View \<Rightarrow> ExclusionManager \<Rightarrow> View \<times> ExclusionManager" where
  "applyExclusionChange exclusionAdd exclusionRemove account view em =
     (let sle = (case v_accounts view account of
                   None \<Rightarrow> new_validator_account view account | Some ar \<Rightarrow> ar);
          exclusionList = (case ar_ExclusionList sle of None \<Rightarrow> [] | Some l \<Rightarrow> l);
          newList = change_list exclusionAdd exclusionRemove exclusionList;
          sle1 = sle\<lparr>ar_ExclusionList := (if newList = [] then None else Some newList)\<rparr>
      in (view\<lparr>v_accounts := (v_accounts view)(account \<mapsto> sle1)\<rparr>,
          updateValidatorExclusions account (read_entries newList []) em))"

definition applyValidatorVote ::
  "(PublicKey \<Rightarrow> AccountID) \<Rightarrow> (AccountID \<Rightarrow> u64 option) \<Rightarrow> uint256 \<Rightarrow> VoteTx \<Rightarrow> View \<Rightarrow> AppState
     \<Rightarrow> ter \<times> View \<times> AppState" where
  "applyValidatorVote calcAccountID dirInsert txID vote view app =
     (if \<not> v_rules view featurePF_ValidatorVoteTracking then (temDISABLED, view, app)
      else let account = calcAccountID (vt_ValidatorPublicKey vote);
               (ret, view1) = recordVoteStats dirInsert txID account view
           in if ret \<noteq> tesSUCCESS then (ret, view1, app)
              else if v_rules view featurePF_AccountExclusion
                      \<and> (vt_ExclusionAdd vote \<noteq> None \<or> vt_ExclusionRemove vote \<noteq> None)
              then let (view2, em) = applyExclusionChange (vt_ExclusionAdd vote) (vt_ExclusionRemove vote)
                                       account view1 (app_exclusions app)
                   in (tesSUCCESS, view2, app\<lparr>app_exclusions := em\<rparr>)
              else (tesSUCCESS, view1, app))"

text \<open>\<^verbatim>\<open>doApply\<close>, for a body that fits the type; the framework's format check rules out the rest.\<close>

record ChangeEnv =
  calcAccountID :: "PublicKey \<Rightarrow> AccountID"
  dirInsert :: "AccountID \<Rightarrow> u64 option"
  isSupported :: "uint256 \<Rightarrow> bool"
  fixTrustLinesToSelf :: uint256

definition doApply :: "ChangeEnv \<Rightarrow> ChangeTx \<Rightarrow> View \<Rightarrow> AppState \<Rightarrow> ter \<times> View \<times> AppState" where
  "doApply env tx view app =
     (case (tx_Type tx, tx_body tx) of
        (ttAMENDMENT, BodyAmendment a) \<Rightarrow>
          applyAmendment (isSupported env) (fixTrustLinesToSelf env) a (tx_Flags tx) view app
      | (ttFEE, BodyFee f) \<Rightarrow> (case applyFee f view of (r, v) \<Rightarrow> (r, v, app))
      | (ttUNL_MODIFY, BodyUNLModify d s k) \<Rightarrow> (case applyUNLModify d s k view of (r, v) \<Rightarrow> (r, v, app))
      | (ttVALIDATOR_VOTE, BodyVote vote) \<Rightarrow>
          applyValidatorVote (calcAccountID env) (dirInsert env) (tx_ID tx) vote view app
      | _ \<Rightarrow> (tefFAILURE, view, app))"

text \<open>
  One pseudo-transaction on a closed ledger: the checks, the operation, and the commit, where the metadata is within its limit, no
  invariant objects, and account zero has no entry. \<open>Transactor_Call\<close> has the whole of \<^verbatim>\<open>Transactor::operator()\<close>, and that
  it agrees with this.
\<close>

definition process_change :: "ChangeEnv \<Rightarrow> u32 \<Rightarrow> ChangeTx \<Rightarrow> View \<times> AppState \<Rightarrow> ter \<times> View \<times> AppState" where
  "process_change env nodeNID tx = (\<lambda>(view, app).
     let ret = invokePreflight_Change (v_rules view) nodeNID tx in
     if ret \<noteq> tesSUCCESS then (ret, view, app)
     else let ret = preclaim view tx in
          if ret \<noteq> tesSUCCESS then (ret, view, app)
          else (case doApply env tx view app of
                  (r, view', app') \<Rightarrow> (r, if r = tesSUCCESS then view' else view, app')))"

section \<open>The negative UNL: invariant\<close>

definition disabled_keys :: "NegativeUNL \<Rightarrow> Blob option list" where
  "disabled_keys n = map dv_PublicKey (disabled_entries n)"

definition nunl_ok :: "NegativeUNL \<Rightarrow> bool" where
  "nunl_ok n \<longleftrightarrow>
     distinct (disabled_keys n)
     \<and> (\<forall>k\<in>set (disabled_keys n). \<exists>d. k = Some d \<and> publicKeyType d \<noteq> None)
     \<and> (\<forall>d. nu_ValidatorToDisable n = Some d \<longrightarrow> publicKeyType d \<noteq> None \<and> Some d \<notin> set (disabled_keys n))
     \<and> (\<forall>d. nu_ValidatorToReEnable n = Some d \<longrightarrow> Some d \<in> set (disabled_keys n))"

definition nunl_inv :: "View \<Rightarrow> bool" where
  "nunl_inv view \<longleftrightarrow> (\<forall>n. v_negativeUNL view = Some n \<longrightarrow> nunl_ok n)"

lemma nunl_ok_empty: "nunl_ok empty_NegativeUNL"
  by (simp add: nunl_ok_def empty_NegativeUNL_def disabled_keys_def disabled_entries_def)

lemma nunl_ok_pending:
  assumes "nunl_ok n"
  shows "nu_ValidatorToDisable n = Some d \<Longrightarrow> publicKeyType d \<noteq> None"
    and "nu_ValidatorToReEnable n = Some d \<Longrightarrow> publicKeyType d \<noteq> None"
  using assms unfolding nunl_ok_def by (blast, fastforce)

lemma found_disabled:
  "list_ex (\<lambda>v. dv_PublicKey v = Some k) (disabled_entries n) \<longleftrightarrow> Some k \<in> set (disabled_keys n)"
  unfolding list_ex_iff disabled_keys_def set_map image_iff by metis

text \<open>What a successful \<^verbatim>\<open>applyUNLModify\<close> has checked and done.\<close>

lemma applyUNLModify_success:
  assumes "applyUNLModify d s k view = (tesSUCCESS, view')"
  obtains validator n where
    "k = Some validator" "publicKeyType validator \<noteq> None" "isFlagLedger (v_seq view)"
    "n = (case v_negativeUNL view of None \<Rightarrow> empty_NegativeUNL | Some n \<Rightarrow> n)"
    "(nu_ValidatorToDisable n = None \<and> nu_ValidatorToReEnable n \<noteq> Some validator
        \<and> Some validator \<notin> set (disabled_keys n)
        \<and> view' = view\<lparr>v_negativeUNL := Some (n\<lparr>nu_ValidatorToDisable := Some validator\<rparr>)\<rparr>)
     \<or> (nu_ValidatorToReEnable n = None \<and> nu_ValidatorToDisable n \<noteq> Some validator
        \<and> Some validator \<in> set (disabled_keys n)
        \<and> view' = view\<lparr>v_negativeUNL := Some (n\<lparr>nu_ValidatorToReEnable := Some validator\<rparr>)\<rparr>)"
proof -
  from assms obtain d' s' validator where f: "d = Some d'" "s = Some s'" "k = Some validator"
    by (auto simp: applyUNLModify_def split: if_splits option.splits)
  define n where "n = (case v_negativeUNL view of None \<Rightarrow> empty_NegativeUNL | Some n \<Rightarrow> n)"
  have pre: "publicKeyType validator \<noteq> None" "isFlagLedger (v_seq view)"
    using assms f by (auto simp: applyUNLModify_def split: if_splits)
  show ?thesis
  proof (rule that [OF f(3) pre n_def])
    show "(nu_ValidatorToDisable n = None \<and> nu_ValidatorToReEnable n \<noteq> Some validator
        \<and> Some validator \<notin> set (disabled_keys n)
        \<and> view' = view\<lparr>v_negativeUNL := Some (n\<lparr>nu_ValidatorToDisable := Some validator\<rparr>)\<rparr>)
     \<or> (nu_ValidatorToReEnable n = None \<and> nu_ValidatorToDisable n \<noteq> Some validator
        \<and> Some validator \<in> set (disabled_keys n)
        \<and> view' = view\<lparr>v_negativeUNL := Some (n\<lparr>nu_ValidatorToReEnable := Some validator\<rparr>)\<rparr>)"
      using assms unfolding applyUNLModify_def f n_def [symmetric] Let_def
      by (auto simp: found_disabled n_def [symmetric] split: if_split_asm)
  qed
qed

lemma nunl_ok_current:
  "nunl_inv view \<Longrightarrow> nunl_ok (case v_negativeUNL view of None \<Rightarrow> empty_NegativeUNL | Some n \<Rightarrow> n)"
  by (simp add: nunl_inv_def nunl_ok_empty split: option.split)

lemma disabled_keys_frame [simp]:
  "disabled_keys (n\<lparr>nu_ValidatorToDisable := d\<rparr>) = disabled_keys n"
  "disabled_keys (n\<lparr>nu_ValidatorToReEnable := d\<rparr>) = disabled_keys n"
  by (simp_all add: disabled_keys_def disabled_entries_def)

lemma nunl_inv_applyUNLModify [inv_intros]:
  assumes "nunl_inv view" and "applyUNLModify d s k view = (tesSUCCESS, view')"
  shows "nunl_inv view'"
  using assms(2)
proof (rule applyUNLModify_success)
  fix validator n
  assume n: "n = (case v_negativeUNL view of None \<Rightarrow> empty_NegativeUNL | Some n \<Rightarrow> n)"
    and "publicKeyType validator \<noteq> None"
    and "(nu_ValidatorToDisable n = None \<and> nu_ValidatorToReEnable n \<noteq> Some validator
        \<and> Some validator \<notin> set (disabled_keys n)
        \<and> view' = view\<lparr>v_negativeUNL := Some (n\<lparr>nu_ValidatorToDisable := Some validator\<rparr>)\<rparr>)
     \<or> (nu_ValidatorToReEnable n = None \<and> nu_ValidatorToDisable n \<noteq> Some validator
        \<and> Some validator \<in> set (disabled_keys n)
        \<and> view' = view\<lparr>v_negativeUNL := Some (n\<lparr>nu_ValidatorToReEnable := Some validator\<rparr>)\<rparr>)"
  moreover have "nunl_ok n"
    unfolding n by (rule nunl_ok_current [OF assms(1)])
  ultimately show ?thesis
    by (auto simp: nunl_inv_def nunl_ok_def)
qed

text \<open>The list after an update, as a function of the object before.\<close>

definition next_disabled :: "u32 \<Rightarrow> NegativeUNL \<Rightarrow> DisabledValidator list" where
  "next_disabled seq n =
     filter (\<lambda>v. nu_ValidatorToReEnable n = None \<or> dv_PublicKey v \<noteq> nu_ValidatorToReEnable n)
       (disabled_entries n)
     @ (case nu_ValidatorToDisable n of None \<Rightarrow> [] | Some k \<Rightarrow>
          [\<lparr>dv_PublicKey = Some k, dv_FirstLedgerSequence = Some seq\<rparr>])"

lemma updateNegativeUNL_eq:
  "updateNegativeUNL view =
     (case v_negativeUNL view of
        None \<Rightarrow> view
      | Some n \<Rightarrow>
          if nu_ValidatorToDisable n = None \<and> nu_ValidatorToReEnable n = None then view
          else view\<lparr>v_negativeUNL := (if next_disabled (v_seq view) n = [] then None
                 else Some \<lparr>nu_DisabledValidators = Some (next_disabled (v_seq view) n),
                            nu_ValidatorToDisable = None, nu_ValidatorToReEnable = None\<rparr>)\<rparr>)"
proof (cases "v_negativeUNL view")
  case (Some n)
  have f: "filter (\<lambda>v. \<not> (nu_ValidatorToReEnable n \<noteq> None \<and> dv_PublicKey v \<noteq> None
          \<and> dv_PublicKey v = nu_ValidatorToReEnable n)) (disabled_entries n) =
      filter (\<lambda>v. nu_ValidatorToReEnable n = None \<or> dv_PublicKey v \<noteq> nu_ValidatorToReEnable n)
        (disabled_entries n)"
    by (rule filter_cong) auto
  show ?thesis
    unfolding updateNegativeUNL_def next_disabled_def Some Let_def option.case f
    by (cases "nu_ValidatorToDisable n") simp_all
qed (simp add: updateNegativeUNL_def)

lemma next_disabled_keys:
  "map dv_PublicKey (next_disabled seq n) =
     filter (\<lambda>k. nu_ValidatorToReEnable n = None \<or> k \<noteq> nu_ValidatorToReEnable n) (disabled_keys n)
     @ (case nu_ValidatorToDisable n of None \<Rightarrow> [] | Some k \<Rightarrow> [Some k])"
  by (simp add: next_disabled_def disabled_keys_def filter_map o_def split: option.split)

lemma nunl_inv_updateNegativeUNL [inv_intros]:
  assumes "nunl_inv view"
  shows "nunl_inv (updateNegativeUNL view)"
proof (cases "v_negativeUNL view")
  case None
  then show ?thesis using assms by (simp add: updateNegativeUNL_eq)
next
  case (Some n)
  then have ok: "nunl_ok n" using assms by (simp add: nunl_inv_def)
  let ?n' = "\<lparr>nu_DisabledValidators = Some (next_disabled (v_seq view) n),
    nu_ValidatorToDisable = None, nu_ValidatorToReEnable = None\<rparr>"
  have k: "disabled_keys ?n' = map dv_PublicKey (next_disabled (v_seq view) n)"
    by (simp add: disabled_keys_def disabled_entries_def)
  have "nunl_ok ?n'"
    using ok unfolding nunl_ok_def k next_disabled_keys by (auto split: option.splits)
  then show ?thesis
    using assms Some by (auto simp: updateNegativeUNL_eq nunl_inv_def)
qed

lemma set_negativeUNL:
  assumes "nunl_inv view" and "v_negativeUNL view = Some n"
  shows "set (negativeUNL view) = {d. Some d \<in> set (disabled_keys n)}"
proof -
  let ?f = "\<lambda>v acc. case dv_PublicKey v of None \<Rightarrow> acc
      | Some d \<Rightarrow> if publicKeyType d = None then acc else List.insert d acc"
  have "set (fold ?f vs acc) = {d. Some d \<in> dv_PublicKey ` set vs \<and> publicKeyType d \<noteq> None} \<union> set acc"
    for vs acc
  proof (induction vs arbitrary: acc)
    case (Cons v vs)
    then show ?case by (cases "dv_PublicKey v") auto
  qed simp
  note loop = this [of "disabled_entries n" "[]"]
  have "set (negativeUNL view) =
      {d. Some d \<in> set (disabled_keys n) \<and> publicKeyType d \<noteq> None}"
    using loop by (simp add: negativeUNL_def assms(2) disabled_keys_def)
  moreover have "publicKeyType d \<noteq> None" if "Some d \<in> set (disabled_keys n)" for d
    using assms that unfolding nunl_inv_def nunl_ok_def by blast
  ultimately show ?thesis by blast
qed

text \<open>
  On a flag ledger the pending change takes effect, and nothing else does: the new negative UNL is the old one
  without the validator to re-enable and with the validator to disable, and nothing is pending afterwards.
\<close>

lemma updateNegativeUNL_sets:
  assumes "nunl_inv view"
  shows "set (negativeUNL (updateNegativeUNL view)) =
      (set (negativeUNL view) - set_option (validatorToReEnable view)) \<union> set_option (validatorToDisable view)
    \<and> validatorToDisable (updateNegativeUNL view) = None
    \<and> validatorToReEnable (updateNegativeUNL view) = None"
proof (cases "v_negativeUNL view")
  case None
  then show ?thesis
    by (simp add: updateNegativeUNL_eq negativeUNL_def validatorToDisable_def validatorToReEnable_def)
next
  case (Some n)
  let ?u = "updateNegativeUNL view"
  have ok: "nunl_ok n" using assms Some by (simp add: nunl_inv_def)
  have d: "set_option (validatorToDisable view) = {k. nu_ValidatorToDisable n = Some k}"
    "set_option (validatorToReEnable view) = {k. nu_ValidatorToReEnable n = Some k}"
    using nunl_ok_pending [OF ok] Some
    by (auto simp: validatorToDisable_def validatorToReEnable_def split: option.splits)
  show ?thesis
  proof (cases "nu_ValidatorToDisable n = None \<and> nu_ValidatorToReEnable n = None")
    case True
    then show ?thesis
      using Some d by (simp add: updateNegativeUNL_eq validatorToDisable_def validatorToReEnable_def)
  next
    case False
    then have u: "?u = view\<lparr>v_negativeUNL := (if next_disabled (v_seq view) n = [] then None
                 else Some \<lparr>nu_DisabledValidators = Some (next_disabled (v_seq view) n),
                            nu_ValidatorToDisable = None, nu_ValidatorToReEnable = None\<rparr>)\<rparr>"
      using Some by (auto simp: updateNegativeUNL_eq)
    have keys: "set (negativeUNL ?u) = {k. Some k \<in> set (map dv_PublicKey (next_disabled (v_seq view) n))}"
    proof (cases "next_disabled (v_seq view) n = []")
      case True
      then show ?thesis by (simp add: u negativeUNL_def)
    next
      case nonempty: False
      then show ?thesis
        using set_negativeUNL [OF nunl_inv_updateNegativeUNL [OF assms]]
        by (simp add: u disabled_keys_def disabled_entries_def)
    qed
    have "validatorToDisable ?u = None" "validatorToReEnable ?u = None"
      by (simp_all add: u validatorToDisable_def validatorToReEnable_def)
    moreover have "set (negativeUNL ?u) =
        (set (negativeUNL view) - {k. nu_ValidatorToReEnable n = Some k}) \<union> {k. nu_ValidatorToDisable n = Some k}"
      unfolding keys next_disabled_keys set_negativeUNL [OF assms Some]
      by (auto split: option.splits)
    ultimately show ?thesis by (simp add: d)
  qed
qed

section \<open>Building ledgers\<close>

text \<open>
  The part of \<^verbatim>\<open>buildLedgerImpl\<close> (\<^verbatim>\<open>src/xrpld/app/ledger/detail/BuildLedger.cpp\<close>) that concerns these
  objects: a new ledger on its parent, the negative UNL update on a flag ledger, then the transactions.
\<close>

definition startLedger :: "u32 \<Rightarrow> View \<Rightarrow> View" where
  "startLedger closeTime parent =
     (let built = parent\<lparr>v_seq := v_seq parent + 1, v_parentCloseTime := closeTime, v_open := False\<rparr>
      in if isFlagLedger (v_seq built) \<and> v_rules built featureNegativeUNL
         then updateNegativeUNL built else built)"

definition buildLedger ::
  "ChangeEnv \<Rightarrow> u32 \<Rightarrow> u32 \<Rightarrow> ChangeTx list \<Rightarrow> View \<times> AppState \<Rightarrow> View \<times> AppState" where
  "buildLedger env nodeNID closeTime txs = (\<lambda>(parent, app).
     fold (\<lambda>tx s. snd (process_change env nodeNID tx s)) txs (startLedger closeTime parent, app))"

fun chain :: "ChangeEnv \<Rightarrow> u32 \<Rightarrow> (u32 \<times> ChangeTx list) list \<Rightarrow> View \<times> AppState \<Rightarrow> View \<times> AppState" where
  "chain env nodeNID [] s = s"
| "chain env nodeNID ((closeTime, txs) # ledgers) s =
     chain env nodeNID ledgers (buildLedger env nodeNID closeTime txs s)"

lemma chain_induct:
  assumes "P s"
    and "\<And>view app t. P (view, app) \<Longrightarrow> P (startLedger t view, app)"
    and "\<And>s tx. P s \<Longrightarrow> P (snd (process_change env nodeNID tx s))"
  shows "P (chain env nodeNID ledgers s)"
proof -
  have txs: "P (fold (\<lambda>tx s. snd (process_change env nodeNID tx s)) txs s)" if "P s" for txs s
    using that assms(3) by (induction txs arbitrary: s) auto
  have "P (chain env nodeNID ledgers s)" if "P s" for s
    using that
  proof (induction ledgers arbitrary: s)
    case (Cons l ledgers)
    obtain t lt where l: "l = (t, lt)" by (cases l)
    obtain view app where s: "s = (view, app)" by (cases s)
    have "P (buildLedger env nodeNID t lt s)"
      unfolding buildLedger_def s prod.case by (intro txs assms(2)) (use Cons.prems s in simp)
    then show ?case using Cons.IH by (simp add: l)
  qed simp
  then show ?thesis using assms(1) .
qed

section \<open>Frames\<close>

lemma updateNegativeUNL_frame [simp]:
  "v_accounts (updateNegativeUNL view) = v_accounts view"
  "v_amendments (updateNegativeUNL view) = v_amendments view"
  "v_fees (updateNegativeUNL view) = v_fees view"
  "v_voteStats (updateNegativeUNL view) = v_voteStats view"
  "v_rules (updateNegativeUNL view) = v_rules view"
  "v_seq (updateNegativeUNL view) = v_seq view"
  by (simp_all add: updateNegativeUNL_eq split: option.split)

lemma startLedger_frame [simp]:
  "v_accounts (startLedger t view) = v_accounts view"
  "v_amendments (startLedger t view) = v_amendments view"
  "v_rules (startLedger t view) = v_rules view"
  by (simp_all add: startLedger_def Let_def)

lemma nunl_inv_startLedger: "nunl_inv view \<Longrightarrow> nunl_inv (startLedger t view)"
proof -
  assume "nunl_inv view"
  then have "nunl_inv (view\<lparr>v_seq := v_seq view + 1, v_parentCloseTime := t, v_open := False\<rparr>)"
    by (simp add: nunl_inv_def)
  then show ?thesis
    by (simp add: startLedger_def Let_def nunl_inv_updateNegativeUNL)
qed

lemma applyAmendment_frame:
  assumes "applyAmendment supp fid a fl view app = (r, view', app')"
  shows "v_accounts view' = v_accounts view" "v_negativeUNL view' = v_negativeUNL view"
    "app_exclusions app' = app_exclusions app"
  using assms
  by (auto simp: applyAmendment_def Let_def split: if_split_asm sum.split_asm prod.split_asm)

lemma applyUNLModify_frame:
  assumes "applyUNLModify d s k view = (r, view')"
  shows "v_accounts view' = v_accounts view" "v_amendments view' = v_amendments view"
  using assms
  by (auto simp: applyUNLModify_def Let_def split: if_split_asm option.split_asm)

lemma applyFee_frame:
  assumes "applyFee f view = (r, view')"
  shows "v_accounts view' = v_accounts view" "v_amendments view' = v_amendments view"
    "v_negativeUNL view' = v_negativeUNL view"
  using assms by (auto simp: applyFee_def Let_def)

lemma recordVoteStats_frame:
  assumes "recordVoteStats dir txid a view = (r, view')"
  shows "v_accounts view' = v_accounts view" "v_amendments view' = v_amendments view"
    "v_negativeUNL view' = v_negativeUNL view" "v_rules view' = v_rules view" "v_seq view' = v_seq view"
  using assms by (auto simp: recordVoteStats_def split: option.split_asm)

text \<open>What a vote does to the accounts and the cache: nothing, or one exclusion change.\<close>

lemma applyValidatorVote_cases:
  assumes "applyValidatorVote calc dir txid vote view app = (r, view', app')"
  obtains (same) "v_accounts view' = v_accounts view" "app' = app"
      "v_negativeUNL view' = v_negativeUNL view" "v_amendments view' = v_amendments view"
    | (change) view1 em where "r = tesSUCCESS"
        "recordVoteStats dir txid (calc (vt_ValidatorPublicKey vote)) view = (tesSUCCESS, view1)"
        "applyExclusionChange (vt_ExclusionAdd vote) (vt_ExclusionRemove vote)
           (calc (vt_ValidatorPublicKey vote)) view1 (app_exclusions app) = (view', em)"
        "app' = app\<lparr>app_exclusions := em\<rparr>"
proof -
  obtain ret view1 where rs: "recordVoteStats dir txid (calc (vt_ValidatorPublicKey vote)) view = (ret, view1)"
    by (cases "recordVoteStats dir txid (calc (vt_ValidatorPublicKey vote)) view")
  note f = recordVoteStats_frame [OF rs]
  show ?thesis
  proof (cases "v_rules view featurePF_ValidatorVoteTracking \<and> ret = tesSUCCESS
      \<and> v_rules view featurePF_AccountExclusion
      \<and> (vt_ExclusionAdd vote \<noteq> None \<or> vt_ExclusionRemove vote \<noteq> None)")
    case True
    obtain view2 em where ec: "applyExclusionChange (vt_ExclusionAdd vote) (vt_ExclusionRemove vote)
        (calc (vt_ValidatorPublicKey vote)) view1 (app_exclusions app) = (view2, em)"
      by (metis surj_pair)
    have "r = tesSUCCESS" "view' = view2" "app' = app\<lparr>app_exclusions := em\<rparr>"
      using assms True rs ec by (auto simp: applyValidatorVote_def)
    then show ?thesis using change True rs ec by blast
  next
    case False
    then show ?thesis
      using assms rs f
      by (intro same) (auto simp: applyValidatorVote_def Let_def split: if_split_asm)
  qed
qed

section \<open>Exclusion lists: ledger and cache\<close>

definition entries_ok :: "AccountID option list \<Rightarrow> bool" where
  "entries_ok es \<longleftrightarrow> distinct es \<and> None \<notin> set es \<and> length es \<le> 100"

definition stored_list :: "AccountRoot option \<Rightarrow> AccountID option list" where
  "stored_list sle = (case sle of None \<Rightarrow> [] | Some ar \<Rightarrow>
     (case ar_ExclusionList ar of None \<Rightarrow> [] | Some es \<Rightarrow> es))"

definition lists_ok :: "View \<Rightarrow> bool" where
  "lists_ok view \<longleftrightarrow> (\<forall>v. entries_ok (stored_list (v_accounts view v)))"

definition mirrors :: "View \<Rightarrow> ExclusionManager \<Rightarrow> bool" where
  "mirrors view em \<longleftrightarrow> em_inv em
     \<and> (\<forall>v. map_of (validatorExclusions em) v =
          (let l = read_exclusions (v_accounts view v) in if l = [] then None else Some l))"

lemma read_exclusions_stored: "read_exclusions sle = read_entries (stored_list sle) []"
  by (simp add: read_exclusions_def stored_list_def split: option.split)

lemma change_list_ok:
  assumes "entries_ok es"
  shows "entries_ok (change_list add rem es)"
proof -
  let ?r = "case rem of None \<Rightarrow> es | Some a \<Rightarrow> filter (\<lambda>e. e \<noteq> Some a) es"
  have "length (filter P es) \<le> 100" for P
    using assms length_filter_le [of P es] unfolding entries_ok_def by linarith
  then have "entries_ok ?r"
    using assms by (auto simp: entries_ok_def split: option.split)
  then show ?thesis
    by (auto simp: change_list_def Let_def entries_ok_def split: option.split)
qed

lemma set_change_list:
  assumes "length (case rem of None \<Rightarrow> es | Some a \<Rightarrow> filter (\<lambda>e. e \<noteq> Some a) es) < 100"
  shows "set (change_list add rem es) =
    (set es - (case rem of None \<Rightarrow> {} | Some a \<Rightarrow> {Some a}))
      \<union> (case add of None \<Rightarrow> {} | Some a \<Rightarrow> {Some a})"
  using assms by (auto simp: change_list_def Let_def split: option.splits)

lemma map_of_updateValidatorExclusions:
  "map_of (validatorExclusions (updateValidatorExclusions v ex em)) =
     (map_of (validatorExclusions em))(v := if ex = [] then None else Some ex)"
  by (auto simp: updateValidatorExclusions_def Let_def)

lemma applyExclusionChange_stored:
  assumes "applyExclusionChange add rem a view em = (view', em')"
  shows "stored_list (v_accounts view' v) =
      (if v = a then change_list add rem (stored_list (v_accounts view a))
       else stored_list (v_accounts view v))"
    and "em' = updateValidatorExclusions a
      (read_entries (change_list add rem (stored_list (v_accounts view a))) []) em"
    and "v_negativeUNL view' = v_negativeUNL view" "v_amendments view' = v_amendments view"
proof -
  let ?sle = "case v_accounts view a of None \<Rightarrow> new_validator_account view a | Some ar \<Rightarrow> ar"
  have old: "(case ar_ExclusionList ?sle of None \<Rightarrow> [] | Some l \<Rightarrow> l) = stored_list (v_accounts view a)"
    by (simp add: stored_list_def new_validator_account_def split: option.split)
  let ?l = "change_list add rem (stored_list (v_accounts view a))"
  have e: "view' = view\<lparr>v_accounts := (v_accounts view)(a \<mapsto>
      ?sle\<lparr>ar_ExclusionList := (if ?l = [] then None else Some ?l)\<rparr>)\<rparr>"
    and em: "em' = updateValidatorExclusions a (read_entries ?l []) em"
    using assms by (auto simp: applyExclusionChange_def Let_def old)
  show "stored_list (v_accounts view' v) = (if v = a then ?l else stored_list (v_accounts view v))"
    unfolding e by (simp add: stored_list_def)
  show "em' = updateValidatorExclusions a (read_entries ?l []) em"
    by (rule em)
  show "v_negativeUNL view' = v_negativeUNL view" "v_amendments view' = v_amendments view"
    by (simp_all add: e)
qed

lemma mirrors_change:
  assumes "mirrors view em" and "lists_ok view" and "applyExclusionChange add rem a view em = (view', em')"
  shows "mirrors view' em' \<and> lists_ok view'"
proof -
  note s = applyExclusionChange_stored [OF assms(3)]
  have "em_inv em'"
    unfolding s(2) using assms(1) by (intro em_inv_update) (auto simp: mirrors_def)
  then show ?thesis
    using assms(1,2)
    by (auto simp: mirrors_def lists_ok_def s(1) s(2) map_of_updateValidatorExclusions Let_def
        read_exclusions_stored change_list_ok)
qed

definition state_inv :: "View \<times> AppState \<Rightarrow> bool" where
  "state_inv s \<longleftrightarrow> nunl_inv (fst s) \<and> lists_ok (fst s) \<and> mirrors (fst s) (app_exclusions (snd s))"

lemma state_inv_frame:
  assumes "state_inv (view, app)" and "v_accounts view' = v_accounts view"
    and "v_negativeUNL view' = v_negativeUNL view" and "app_exclusions app' = app_exclusions app"
  shows "state_inv (view', app')"
  using assms by (simp add: state_inv_def mirrors_def lists_ok_def nunl_inv_def)

lemma state_inv_nunl:
  assumes "state_inv (view, app)" and "v_accounts view' = v_accounts view" and "nunl_inv view'"
  shows "state_inv (view', app)"
  using assms by (simp add: state_inv_def mirrors_def lists_ok_def)

text \<open>
  An operation that succeeds keeps the invariant; one that fails leaves the cache alone, and its view is
  dropped.
\<close>

lemma doApply_cases:
  assumes "doApply env tx view app = (r, view', app')"
  shows "(\<exists>a. applyAmendment (isSupported env) (fixTrustLinesToSelf env) a (tx_Flags tx) view app
        = (r, view', app'))
    \<or> (\<exists>f. applyFee f view = (r, view') \<and> app' = app)
    \<or> (\<exists>d s k. applyUNLModify d s k view = (r, view') \<and> app' = app)
    \<or> (\<exists>vote. applyValidatorVote (calcAccountID env) (dirInsert env) (tx_ID tx) vote view app
        = (r, view', app'))
    \<or> r = tefFAILURE \<and> app' = app"
proof (cases "tx_body tx")
  case (BodyAmendment a)
  then show ?thesis using assms by (cases "tx_Type tx") (auto simp: doApply_def)
next
  case (BodyFee f)
  then show ?thesis using assms by (cases "tx_Type tx"; cases "applyFee f view") (auto simp: doApply_def)
next
  case (BodyUNLModify d s k)
  then show ?thesis
    using assms by (cases "tx_Type tx"; cases "applyUNLModify d s k view") (auto simp: doApply_def)
next
  case (BodyVote vote)
  then show ?thesis using assms by (cases "tx_Type tx") (auto simp: doApply_def)
qed

lemma doApply_inv:
  assumes "state_inv (view, app)" and "doApply env tx view app = (r, view', app')"
  shows "(r = tesSUCCESS \<longrightarrow> state_inv (view', app'))
    \<and> (r \<noteq> tesSUCCESS \<longrightarrow> app_exclusions app' = app_exclusions app)"
proof -
  have inv: "nunl_inv view" using assms(1) by (simp add: state_inv_def)
  consider (amendment) a where "applyAmendment (isSupported env) (fixTrustLinesToSelf env) a (tx_Flags tx) view app
        = (r, view', app')"
    | (fee) f where "applyFee f view = (r, view')" "app' = app"
    | (unl) d s k where "applyUNLModify d s k view = (r, view')" "app' = app"
    | (vote) vote where "applyValidatorVote (calcAccountID env) (dirInsert env) (tx_ID tx) vote view app
        = (r, view', app')"
    | (other) "r = tefFAILURE" "app' = app"
    using doApply_cases [OF assms(2)] by blast
  then show ?thesis
  proof cases
    case amendment
    then show ?thesis using applyAmendment_frame [OF amendment] state_inv_frame [OF assms(1)] by simp
  next
    case fee
    then show ?thesis using applyFee_frame [OF fee(1)] state_inv_frame [OF assms(1)] by simp
  next
    case unl
    then show ?thesis
      using applyUNLModify_frame [OF unl(1)] nunl_inv_applyUNLModify [OF inv] state_inv_nunl [OF assms(1)]
      by auto
  next
    case vote
    then show ?thesis
    proof (cases rule: applyValidatorVote_cases)
      case same
      then show ?thesis using state_inv_frame [OF assms(1)] by simp
    next
      case (change view1 em)
      have "state_inv (view1, app)"
        using recordVoteStats_frame [OF change(2)] by (intro state_inv_frame [OF assms(1)]) simp_all
      then show ?thesis
        using mirrors_change [OF _ _ change(3)] applyExclusionChange_stored(3) [OF change(3)] change(1,4)
        by (auto simp: state_inv_def nunl_inv_def)
    qed
  next
    case other
    then show ?thesis by simp
  qed
qed

lemma process_change_inv:
  assumes "state_inv s"
  shows "state_inv (snd (process_change env nid tx s))"
proof -
  obtain view app where s: "s = (view, app)" by (cases s)
  obtain r view' app' where d: "doApply env tx view app = (r, view', app')" by (metis prod_cases3)
  have inv: "state_inv (view, app)" using assms s by simp
  have "snd (process_change env nid tx s) = (view, app)
      \<or> snd (process_change env nid tx s) = (if r = tesSUCCESS then view' else view, app')"
    by (simp add: process_change_def s d Let_def)
  moreover have "state_inv (if r = tesSUCCESS then view' else view, app')"
    using doApply_inv [OF inv d] by (cases "r = tesSUCCESS") (simp_all add: state_inv_frame [OF inv])
  ultimately show ?thesis using inv by auto
qed

lemma chain_inv:
  assumes "state_inv s"
  shows "state_inv (chain env nid ledgers s)"
  using assms
proof (rule chain_induct [where P = state_inv])
  fix view app t assume inv: "state_inv (view, app)"
  then have "nunl_inv view" by (simp add: state_inv_def)
  then show "state_inv (startLedger t view, app)"
    by (intro state_inv_nunl [OF inv]) (simp_all add: nunl_inv_startLedger)
next
  fix s tx assume "state_inv s"
  then show "state_inv (snd (process_change env nid tx s))" by (rule process_change_inv)
qed

lemma mirrors_voters:
  assumes "mirrors view em"
  shows "voters em = {v. list_of_account (v_accounts view v) \<noteq> {}}"
    and "voters_against em a = {v. a \<in> list_of_account (v_accounts view v)}"
proof -
  have ne: "read_exclusions (v_accounts view v) \<noteq> [] \<longleftrightarrow> list_of_account (v_accounts view v) \<noteq> {}" for v
    by (metis set_read_exclusions set_empty)
  have m: "map_of (validatorExclusions em) v =
      (if list_of_account (v_accounts view v) = {} then None else Some (read_exclusions (v_accounts view v)))" for v
    using assms ne [of v] by (auto simp: mirrors_def Let_def)
  show "voters em = {v. list_of_account (v_accounts view v) \<noteq> {}}"
    by (auto simp: voters_def dom_def m)
  show "voters_against em a = {v. a \<in> list_of_account (v_accounts view v)}"
    unfolding voters_against_def m by (auto split: if_splits)
qed

lemma lists_ok_card:
  assumes "lists_ok view"
  shows "card (list_of_account (v_accounts view v)) \<le> 100"
proof -
  let ?es = "stored_list (v_accounts view v)"
  have "list_of_account (v_accounts view v) \<subseteq> the ` set ?es"
    by (force simp: list_of_account_def stored_list_def split: option.splits)
  then have "card (list_of_account (v_accounts view v)) \<le> card (the ` set ?es)"
    by (intro card_mono) auto
  also have "\<dots> \<le> length ?es"
    using card_image_le [OF finite_set [of ?es], of the] card_length [of ?es] by linarith
  also have "\<dots> \<le> 100"
    using assms by (simp add: lists_ok_def entries_ok_def)
  finally show ?thesis .
qed

section \<open>Amendments: invariant\<close>

definition amend_ok :: "Amendments \<Rightarrow> bool" where
  "amend_ok o' \<longleftrightarrow> distinct (am_Amendments o')
     \<and> (\<forall>ms. am_Majorities o' = Some ms \<longrightarrow> distinct (map mj_Amendment ms)
          \<and> mj_Amendment ` set ms \<inter> set (am_Amendments o') = {})"

lemma scan_majorities_Inr:
  "scan_majorities a got ms = Inr (passed, found) \<Longrightarrow>
     passed = filter (\<lambda>m. mj_Amendment m \<noteq> a) ms
     \<and> found = (a \<in> mj_Amendment ` set ms) \<and> (found \<longrightarrow> \<not> got)"
proof (induction ms arbitrary: passed found)
  case (Cons m ms)
  then show ?case
    by (cases "scan_majorities a got ms") (auto split: if_split_asm)
qed simp

lemma scan_majorities_Inl: "scan_majorities a got ms = Inl e \<Longrightarrow> e = tefALREADY"
  by (induction ms arbitrary: e) (auto split: if_split_asm sum.split_asm)

definition amendments_of :: "View \<Rightarrow> Amendments" where
  "amendments_of view = (case v_amendments view of
     None \<Rightarrow> \<lparr>am_Amendments = [], am_Majorities = None\<rparr> | Some o' \<Rightarrow> o')"

lemma applyAmendment_success:
  assumes "applyAmendment supp fid a fl view app = (tesSUCCESS, view', app')"
  shows "a \<notin> set (am_Amendments (amendments_of view))"
    and "am_Amendments (amendments_of view') =
      (if fl AND tfGotMajority = 0 \<and> fl AND tfLostMajority = 0
       then am_Amendments (amendments_of view) @ [a] else am_Amendments (amendments_of view))"
    and "\<exists>passed. passed = filter (\<lambda>m. mj_Amendment m \<noteq> a)
          (case am_Majorities (amendments_of view) of None \<Rightarrow> [] | Some ms \<Rightarrow> ms)
      \<and> am_Majorities (amendments_of view') =
          (let ms = (if fl AND tfGotMajority \<noteq> 0
                     then passed @ [\<lparr>mj_Amendment = a, mj_CloseTime = v_parentCloseTime view\<rparr>] else passed)
           in if ms = [] then None else Some ms)"
proof -
  let ?o = "amendments_of view" and ?got = "fl AND tfGotMajority \<noteq> 0" and ?lost = "fl AND tfLostMajority \<noteq> 0"
  let ?ms = "case am_Majorities ?o of None \<Rightarrow> [] | Some ms \<Rightarrow> ms"
  have o: "(case v_amendments view of None \<Rightarrow> \<lparr>am_Amendments = [], am_Majorities = None\<rparr>
      | Some o' \<Rightarrow> o') = ?o"
    by (simp add: amendments_of_def)
  show nin: "a \<notin> set (am_Amendments ?o)"
    using assms unfolding applyAmendment_def o Let_def by (auto split: if_split_asm)
  have nb: "\<not> (?got \<and> ?lost)"
    using assms nin unfolding applyAmendment_def o Let_def by (auto split: if_split_asm)
  obtain passed found where sc: "scan_majorities a ?got ?ms = Inr (passed, found)"
    using assms nin nb unfolding applyAmendment_def o Let_def
    by (cases "scan_majorities a ?got ?ms") (auto dest: scan_majorities_Inl)
  note p = scan_majorities_Inr [OF sc]
  have v: "v_amendments view' = Some ((if \<not> ?got \<and> \<not> ?lost
        then ?o\<lparr>am_Amendments := am_Amendments ?o @ [a]\<rparr> else ?o)
      \<lparr>am_Majorities := (let ms = (if ?got
          then passed @ [\<lparr>mj_Amendment = a, mj_CloseTime = v_parentCloseTime view\<rparr>] else passed)
        in if ms = [] then None else Some ms)\<rparr>)"
    using assms nin nb sc unfolding applyAmendment_def o Let_def
    by (auto split: if_split_asm)
  show "am_Amendments (amendments_of view') =
      (if fl AND tfGotMajority = 0 \<and> fl AND tfLostMajority = 0
       then am_Amendments ?o @ [a] else am_Amendments ?o)"
    by (simp add: amendments_of_def v)
  show "\<exists>passed. passed = filter (\<lambda>m. mj_Amendment m \<noteq> a) ?ms
      \<and> am_Majorities (amendments_of view') =
          (let ms = (if ?got then passed @ [\<lparr>mj_Amendment = a, mj_CloseTime = v_parentCloseTime view\<rparr>]
                     else passed) in if ms = [] then None else Some ms)"
    using p by (intro exI [of _ passed]) (simp add: amendments_of_def [of view'] v)
qed

lemma amend_ok_step:
  assumes "amend_ok (amendments_of view)" and "applyAmendment supp fid a fl view app = (tesSUCCESS, view', app')"
  shows "amend_ok (amendments_of view')"
proof -
  note s = applyAmendment_success [OF assms(2)]
  let ?ms = "case am_Majorities (amendments_of view) of None \<Rightarrow> [] | Some ms \<Rightarrow> ms"
  have ms: "distinct (map mj_Amendment ?ms)" "mj_Amendment ` set ?ms \<inter> set (am_Amendments (amendments_of view)) = {}"
    "distinct (am_Amendments (amendments_of view))"
    using assms(1) unfolding amend_ok_def
    by (cases "am_Majorities (amendments_of view)"; simp)+
  let ?p = "filter (\<lambda>m. mj_Amendment m \<noteq> a) ?ms"
  have p: "distinct (map mj_Amendment ?p)" "a \<notin> mj_Amendment ` set ?p"
    "mj_Amendment ` set ?p \<inter> set (am_Amendments (amendments_of view)) = {}"
    using ms by (auto simp: distinct_map_filter)
  show ?thesis
    using s(1,3) p ms(3) unfolding amend_ok_def s(2) by (auto simp: Let_def split: if_splits)
qed

definition amend_inv :: "uint256 set \<Rightarrow> View \<times> AppState \<Rightarrow> bool" where
  "amend_inv base s \<longleftrightarrow> amend_ok (amendments_of (fst s)) \<and> base \<subseteq> set (am_Amendments (amendments_of (fst s)))"

lemma amend_inv_process:
  assumes "amend_inv base s"
  shows "amend_inv base (snd (process_change env nid tx s))"
proof -
  obtain view app where s: "s = (view, app)" by (cases s)
  obtain r view' app' where d: "doApply env tx view app = (r, view', app')" by (metis prod_cases3)
  have p: "snd (process_change env nid tx s) = (view, app)
      \<or> snd (process_change env nid tx s) = (if r = tesSUCCESS then view' else view, app')"
    by (simp add: process_change_def s d Let_def)
  have "v_amendments view' = v_amendments view
      \<or> (\<exists>supp fid a fl. applyAmendment supp fid a fl view app = (r, view', app')) \<or> r = tefFAILURE"
    using doApply_cases [OF d]
  proof (elim disjE exE conjE)
    fix vote assume "applyValidatorVote (calcAccountID env) (dirInsert env) (tx_ID tx) vote view app = (r, view', app')"
    then show ?thesis
      by (cases rule: applyValidatorVote_cases)
         (auto dest!: recordVoteStats_frame(2) applyExclusionChange_stored(4))
  qed (auto dest: applyFee_frame(2) applyUNLModify_frame(2))
  moreover have "v_amendments view' = v_amendments view \<Longrightarrow> amendments_of view' = amendments_of view"
    by (simp add: amendments_of_def)
  ultimately have "r = tesSUCCESS \<Longrightarrow> amend_inv base (view', app')"
    using assms s amend_ok_step [of view] applyAmendment_success(2) [of _ _ _ _ view app view' app']
    by (auto simp: amend_inv_def)
  then show ?thesis
    using p assms s by (cases "r = tesSUCCESS") (auto simp: amend_inv_def)
qed

section \<open>Properties\<close>

definition demo_key :: "u8 \<Rightarrow> PublicKey" where
  "demo_key b = 0xED # b # replicate 31 0"

definition demo_cenv :: ChangeEnv where
  "demo_cenv = \<lparr>calcAccountID = (\<lambda>k. ucast (k ! 1)), dirInsert = (\<lambda>_. Some 0),
     isSupported = (\<lambda>_. True), fixTrustLinesToSelf = 1\<rparr>"

definition genesis :: View where
  "genesis = \<lparr>v_seq = 255, v_open = False, v_rules = (\<lambda>_. True), v_parentCloseTime = 0,
     v_accounts = (\<lambda>_. None), v_voteStats = (\<lambda>_. None), v_negativeUNL = None, v_amendments = None,
     v_fees = None\<rparr>"

definition genesis_app :: AppState where
  "genesis_app = \<lparr>app_exclusions = new_ExclusionManager\<lparr>em_initialized := True\<rparr>,
     app_enabledAmendments = [], app_amendmentBlocked = False, app_trustLinesFixed = False\<rparr>"

definition pseudo_tx :: "TxType \<Rightarrow> u32 option \<Rightarrow> uint256 \<Rightarrow> u32 \<Rightarrow> ChangeBody \<Rightarrow> ChangeTx" where
  "pseudo_tx ty nid txid flags body = \<lparr>tx_Type = ty, tx_ID = txid, tx_Flags = flags, tx_NetworkID = nid,
     tx_Account = 0, tx_Destination = None, tx_Delegate = None, tx_Sequence = 0, tx_TicketSequence = None,
     tx_has_AccountTxnID = False, tx_has_PreviousTxnID = False, tx_fee_native = True, tx_fee = 0,
     tx_SigningPubKey = [], tx_Signature = [], tx_has_Signers = False, tx_body = body\<rparr>"

definition demo_vote :: "u8 \<Rightarrow> AccountID \<Rightarrow> ChangeTx" where
  "demo_vote b a = pseudo_tx ttVALIDATOR_VOTE (Some 2025) 9 0
     (BodyVote (makeVoteTx 2025 \<lparr>validatorKey = demo_key b, vote_ledgerHash = 0, vote_ledgerSeq = 255,
        vote_validationHash = 0, voteTime = 3, vote_exclusionAdd = Some a, vote_exclusionRemove = None\<rparr>))"

lemma genesis_inv: "state_inv (genesis, genesis_app)"
  by (simp add: state_inv_def genesis_def genesis_app_def nunl_inv_def lists_ok_def entries_ok_def
      stored_list_def mirrors_def em_inv_frame em_inv_new new_ExclusionManager_def read_exclusions_def)
    (use em_inv_new in \<open>simp add: em_inv_def lists_wf_def new_ExclusionManager_def\<close>)

text \<open>
  C2. The exclusion cache mirrors the ledger. Starting from a consistent state, after any chain of
  ledgers with any pseudo-transactions: no account's exclusion list has more than 100 accounts; an
  account is excluded exactly when 67% of the accounts that have a list on the ledger name it there; and
  at most 149 accounts are excluded at any time.
\<close>

theorem cache_mirrors_ledger:
  assumes "state_inv s" and "chain env nodeNID ledgers s = (view, app)"
  shows "(\<forall>v. card (list_of_account (v_accounts view v)) \<le> 100)
    \<and> (isExcluded (app_exclusions app) a \<longleftrightarrow>
        (let listing = {v. list_of_account (v_accounts view v) \<noteq> {}};
             naming = {v. a \<in> list_of_account (v_accounts view v)}
         in em_initialized (app_exclusions app) \<and> listing \<noteq> {} \<and> 67 * card listing \<le> 100 * card naming))
    \<and> card {a. isExcluded (app_exclusions app) a} \<le> 149"
proof -
  have inv: "lists_ok view" "mirrors view (app_exclusions app)"
    using chain_inv [OF assms(1), of env nodeNID ledgers] assms(2) by (auto simp: state_inv_def)
  then have em: "em_inv (app_exclusions app)" by (simp add: mirrors_def)
  note v = mirrors_voters [OF inv(2)]
  have "67 * card {a. isExcluded (app_exclusions app) a} \<le> 100 * 100"
    by (rule em.excluded_bounded [OF em])
       (simp_all add: v lists_ok_card [OF inv(1)])
  then have "card {a. isExcluded (app_exclusions app) a} \<le> 149" by simp
  then show ?thesis
    using isExcluded_quorum [OF em, of a] lists_ok_card [OF inv(1)] by (simp add: v Let_def)
qed

theorem cache_mirrors_ledger_witness:
  "card {a. isExcluded (app_exclusions (snd (chain demo_cenv 2025 [(7, [demo_vote 1 4, demo_vote 2 4])]
      (genesis, genesis_app)))) a} \<le> 149"
  using cache_mirrors_ledger [OF genesis_inv, of demo_cenv 2025 "[(7, [demo_vote 1 4, demo_vote 2 4])]"]
  by (metis prod.collapse)

text \<open>
  C31. The negative UNL stays well formed along any chain of ledgers: no validator is listed twice, the
  validator waiting to be disabled is not listed yet, and the one waiting to be re-enabled is listed
  (so the two are never the same).
\<close>

theorem negative_UNL_well_formed:
  assumes "state_inv s" and "chain env nodeNID ledgers s = (view, app)"
  shows "(\<forall>n. v_negativeUNL view = Some n \<longrightarrow> distinct (disabled_keys n))
    \<and> (\<forall>k. validatorToDisable view = Some k \<longrightarrow> k \<notin> set (negativeUNL view))
    \<and> (\<forall>k. validatorToReEnable view = Some k \<longrightarrow> k \<in> set (negativeUNL view))"
proof -
  have inv: "nunl_inv view"
    using chain_inv [OF assms(1), of env nodeNID ledgers] assms(2) by (simp add: state_inv_def)
  show ?thesis
  proof (cases "v_negativeUNL view")
    case None
    then show ?thesis by (simp add: validatorToDisable_def validatorToReEnable_def)
  next
    case (Some n)
    then have "nunl_ok n" using inv by (simp add: nunl_inv_def)
    then show ?thesis
      using set_negativeUNL [OF inv Some] Some
      by (auto simp: nunl_ok_def validatorToDisable_def validatorToReEnable_def
          split: option.split_asm if_split_asm)
  qed
qed

definition demo_disable :: "u8 \<Rightarrow> ChangeTx" where
  "demo_disable b = pseudo_tx ttUNL_MODIFY None 9 0 (BodyUNLModify (Some 1) (Some 256) (Some (demo_key b)))"

theorem negative_UNL_well_formed_witness:
  "validatorToDisable (fst (chain demo_cenv 2025 [(7, [demo_disable 1, demo_disable 2])]
      (genesis, genesis_app))) = Some (demo_key 1)
   \<and> demo_key 1 \<notin> set (negativeUNL (fst (chain demo_cenv 2025 [(7, [demo_disable 1, demo_disable 2])]
      (genesis, genesis_app))))"
proof -
  obtain view app where c: "chain demo_cenv 2025 [(7, [demo_disable 1, demo_disable 2])] (genesis, genesis_app)
      = (view, app)" by (metis surj_pair)
  then have "validatorToDisable view = Some (demo_key 1)"
    by (auto simp: buildLedger_def startLedger_def genesis_def isFlagLedger_def FLAG_LEDGER_INTERVAL_def
        updateNegativeUNL_def process_change_def invokePreflight_Change_def demo_disable_def pseudo_tx_def
        preflight0_def isPseudoTx_def isFlag_def tfInnerBatchTxn_def preclaim_def doApply_def
        applyUNLModify_def demo_key_def publicKeyType_def empty_NegativeUNL_def disabled_entries_def
        validatorToDisable_def Let_def)
  then show ?thesis
    using negative_UNL_well_formed [OF genesis_inv c] c by simp
qed

text \<open>
  Amendments are never disabled again and never listed twice: along any chain of ledgers the enabled
  amendments only grow, without repetition, and an amendment that is enabled is not waiting with a
  majority.
\<close>

theorem amendments_only_grow:
  assumes "amend_ok (amendments_of view0)" and "chain env nodeNID ledgers (view0, app0) = (view, app)"
  shows "set (am_Amendments (amendments_of view0)) \<subseteq> set (am_Amendments (amendments_of view))
    \<and> distinct (am_Amendments (amendments_of view))
    \<and> (\<forall>ms. am_Majorities (amendments_of view) = Some ms \<longrightarrow>
         mj_Amendment ` set ms \<inter> set (am_Amendments (amendments_of view)) = {})"
proof -
  let ?base = "set (am_Amendments (amendments_of view0))"
  have "amend_inv ?base (chain env nodeNID ledgers (view0, app0))"
  proof (rule chain_induct [where P = "amend_inv ?base"])
    show "amend_inv ?base (view0, app0)" using assms(1) by (simp add: amend_inv_def)
  next
    fix v app t assume "amend_inv ?base (v, app)"
    then show "amend_inv ?base (startLedger t v, app)" by (simp add: amend_inv_def amendments_of_def)
  qed (rule amend_inv_process)
  then show ?thesis
    using assms(2) by (auto simp: amend_inv_def amend_ok_def)
qed

text \<open>
  C39. A vote transaction as \<^verbatim>\<open>ValidatorVoteTracker::doVoting\<close> builds it carries the network identifier always,
  so its preflight succeeds (with the feature enabled) exactly on networks whose identifier is above
  1024; on every other network it fails and no vote is ever recorded.
\<close>

theorem vote_tx_needs_large_network_id:
  assumes "txid \<noteq> 0"
  shows "invokePreflight_Change rules nodeNID
      (pseudo_tx ttVALIDATOR_VOTE (vt_NetworkID (makeVoteTx nodeNID vote)) txid 0 (BodyVote (makeVoteTx nodeNID vote))) =
    (if nodeNID \<le> 1024 then telNETWORK_ID_MAKES_TX_NON_CANONICAL
     else if rules featurePF_ValidatorVoteTracking then tesSUCCESS else temDISABLED)"
  using assms
  by (simp add: invokePreflight_Change_def preflight0_def pseudo_tx_def isPseudoTx_def isFlag_def
      makeVoteTx_def tfInnerBatchTxn_def Let_def)

theorem vote_tx_needs_large_network_id_witness:
  "invokePreflight_Change (\<lambda>_. True) 21 (pseudo_tx ttVALIDATOR_VOTE (Some 21) 1 0 (BodyVote (makeVoteTx 21
      \<lparr>validatorKey = demo_key 1, vote_ledgerHash = 0, vote_ledgerSeq = 1, vote_validationHash = 0,
       voteTime = 3, vote_exclusionAdd = None, vote_exclusionRemove = None\<rparr>))) =
     telNETWORK_ID_MAKES_TX_NON_CANONICAL"
  using vote_tx_needs_large_network_id [of 1 "\<lambda>_. True" 21
      "\<lparr>validatorKey = demo_key 1, vote_ledgerHash = 0, vote_ledgerSeq = 1, vote_validationHash = 0,
       voteTime = 3, vote_exclusionAdd = None, vote_exclusionRemove = None\<rparr>"]
  by (simp add: makeVoteTx_def)

end
