(* ===== verification/Negative_UNL_Vote.thy ===== *)
theory Negative_UNL_Vote
  imports Change_Tx Fork_Choice
begin

text \<open>
  The negative UNL vote (\<^verbatim>\<open>src/xrpld/app/misc/NegativeUNLVote.h\<close> and \<^verbatim>\<open>.cpp\<close>): before a flag ledger a
  server scores every trusted validator by its validations of the last 256 ledgers, and proposes at most one
  validator to disable and one to re-enable.

  \<^item> A hash set is a distinct list, a hash map an association list.
  \<^item> The ledger the vote is based on is a \<^verbatim>\<open>View\<close> of the pseudo-transaction model with its hash and the hashes of
    its skip list.
  \<^item> \<open>calcNodeID\<close> (a hash of the key) and \<open>txID\<close> (the hash of a transaction) are arguments. The clock is read once per
    query of the validation store.
  \<^item> \<^verbatim>\<open>std::ceil (unl.size () * 0.25)\<close> is \<open>(n + 3) div 4\<close>, exact for the sizes a \<^verbatim>\<open>float\<close> holds exactly (up to \<open>2\<^sup>2\<^sup>4\<close>).
\<close>

unbundle bit_operations_syntax

section \<open>Model\<close>

definition negativeUNLLowWaterMark :: nat where
  "negativeUNLLowWaterMark = unat FLAG_LEDGER_INTERVAL * 50 div 100"

definition negativeUNLHighWaterMark :: nat where
  "negativeUNLHighWaterMark = unat FLAG_LEDGER_INTERVAL * 80 div 100"

definition negativeUNLMinLocalValsToVote :: nat where
  "negativeUNLMinLocalValsToVote = unat FLAG_LEDGER_INTERVAL * 90 div 100"

definition newValidatorDisableSkip :: nat where
  "newValidatorDisableSkip = unat FLAG_LEDGER_INTERVAL * 2"

definition maxNegativeListed :: "nat \<Rightarrow> nat" where
  "maxNegativeListed n = (n + 3) div 4"

lemma unl_vote_constants [simp]:
  "negativeUNLLowWaterMark = 128" "negativeUNLHighWaterMark = 204" "negativeUNLMinLocalValsToVote = 230"
  "newValidatorDisableSkip = 512"
  by (simp_all add: negativeUNLLowWaterMark_def negativeUNLHighWaterMark_def negativeUNLMinLocalValsToVote_def
      newValidatorDisableSkip_def FLAG_LEDGER_INTERVAL_def)

record NegativeUNLVote =
  nv_myId :: NodeID
  nv_newValidators :: "(NodeID \<times> u32) list"

record PrevLedger =
  pl_view :: View
  pl_hash :: uint256
  pl_hashes :: "uint256 list option"

record Candidates =
  toDisableCandidates :: "NodeID list"
  toReEnableCandidates :: "NodeID list"

datatype NegativeUNLModify = ToDisable | ToReEnable

definition new_NegativeUNLVote :: "NodeID \<Rightarrow> NegativeUNLVote" where
  "new_NegativeUNLVote myId = \<lparr>nv_myId = myId, nv_newValidators = []\<rparr>"

definition emplace :: "'k \<Rightarrow> 'v \<Rightarrow> ('k \<times> 'v) list \<Rightarrow> ('k \<times> 'v) list" where
  "emplace k v m = (case map_of m k of None \<Rightarrow> (k, v) # m | Some _ \<Rightarrow> m)"

definition newValidators :: "u32 \<Rightarrow> NodeID list \<Rightarrow> NegativeUNLVote \<Rightarrow> NegativeUNLVote" where
  "newValidators seq nowTrusted nv =
     nv\<lparr>nv_newValidators := fold (\<lambda>n m. emplace n seq m) nowTrusted (nv_newValidators nv)\<rparr>"

definition purgeNewValidators :: "u32 \<Rightarrow> NegativeUNLVote \<Rightarrow> NegativeUNLVote" where
  "purgeNewValidators seq nv =
     nv\<lparr>nv_newValidators :=
          filter (\<lambda>(n, q). \<not> newValidatorDisableSkip < unat (seq - q)) (nv_newValidators nv)\<rparr>"

definition choose_node :: "uint256 \<Rightarrow> NodeID list \<Rightarrow> NodeID" where
  "choose_node randomPadData candidates =
     (let randomPad = ucast (drop_bit 96 randomPadData) :: NodeID
      in fold (\<lambda>c txNodeID. if (c XOR randomPad) < (txNodeID XOR randomPad) then c else txNodeID)
           (tl candidates) (hd candidates))"

text \<open>The two nested loops that fill the score table: \<open>k\<close> more ledgers from the \<open>i\<close>-th on.\<close>

definition bump :: "NodeID \<Rightarrow> (NodeID \<times> nat) list \<Rightarrow> (NodeID \<times> nat) list" where
  "bump n table = (case map_of table n of None \<Rightarrow> table | Some c \<Rightarrow> AList.update n (c + 1) table)"

fun score_loop ::
  "(nat \<Rightarrow> int) \<Rightarrow> uint256 list \<Rightarrow> u32 \<Rightarrow> nat \<Rightarrow> nat \<Rightarrow> (NodeID \<times> nat) list \<Rightarrow> Validations
     \<Rightarrow> (NodeID \<times> nat) list \<times> Validations" where
  "score_loop clock hashes seq i 0 table s = (table, s)"
| "score_loop clock hashes seq i (Suc k) table s =
     (let (vs, s') = getTrustedForLedger (clock i) (hashes ! (length hashes - 1 - i))
                       (unat (seq - 2 - of_nat i)) s
      in score_loop clock hashes seq (Suc i) k (fold (\<lambda>v. bump (vl_nodeID v)) vs table) s')"

definition buildScoreTable ::
  "(nat \<Rightarrow> int) \<Rightarrow> PrevLedger \<Rightarrow> NodeID list \<Rightarrow> NegativeUNLVote \<Rightarrow> Validations
     \<Rightarrow> (NodeID \<times> nat) list option \<times> Validations" where
  "buildScoreTable clock prev unl nv s =
     (let seq = v_seq (pl_view prev) + 1;
          s1 = setSeqToKeep (unat (seq - 1)) (unat (seq + FLAG_LEDGER_INTERVAL)) s
      in case pl_hashes prev of
           None \<Rightarrow> (None, s1)
         | Some hashes \<Rightarrow>
             if length hashes < unat FLAG_LEDGER_INTERVAL then (None, s1)
             else let (table, s2) = score_loop clock hashes seq 0 (unat FLAG_LEDGER_INTERVAL)
                                      (map (\<lambda>k. (k, 0)) unl) s1;
                      mine = (case map_of table (nv_myId nv) of None \<Rightarrow> 0 | Some c \<Rightarrow> c)
                  in if mine < negativeUNLMinLocalValsToVote then (None, s2)
                     else if negativeUNLMinLocalValsToVote < mine \<and> mine \<le> unat FLAG_LEDGER_INTERVAL
                     then (Some table, s2)
                     else (None, s2))"

definition findAllCandidates ::
  "NodeID list \<Rightarrow> NodeID list \<Rightarrow> (NodeID \<times> nat) list \<Rightarrow> NegativeUNLVote \<Rightarrow> Candidates" where
  "findAllCandidates unl negUnl table nv =
     (let canAdd = length (filter (\<lambda>n. n \<in> set negUnl) unl) < maxNegativeListed (length unl);
          toDisable = map fst (filter (\<lambda>(n, score). canAdd \<and> score < negativeUNLLowWaterMark
                                 \<and> n \<notin> set negUnl \<and> n \<notin> keys (nv_newValidators nv)) table);
          toReEnable = map fst (filter (\<lambda>(n, score). negativeUNLHighWaterMark < score \<and> n \<in> set negUnl) table)
      in \<lparr>toDisableCandidates = toDisable,
          toReEnableCandidates = (if toReEnable = [] then filter (\<lambda>n. n \<notin> set unl) negUnl else toReEnable)\<rparr>)"

definition addTx ::
  "(ChangeBody \<Rightarrow> uint256) \<Rightarrow> u32 \<Rightarrow> PublicKey \<Rightarrow> NegativeUNLModify \<Rightarrow> ChangeTx list \<Rightarrow> ChangeTx list" where
  "addTx txID seq vp modify initialSet =
     (let body = BodyUNLModify (Some (if modify = ToDisable then 1 else 0)) (Some seq) (Some vp);
          tx = pseudo_tx ttUNL_MODIFY None (txID body) 0 body
      in if tx_ID tx \<in> tx_ID ` set initialSet then initialSet else initialSet @ [tx])"

text \<open>The keys of the next negative UNL, and the map from node identifiers to keys.\<close>

definition nextNegUnlKeys :: "View \<Rightarrow> PublicKey list" where
  "nextNegUnlKeys view =
     (let ks = negativeUNL view;
          ks = (case validatorToDisable view of None \<Rightarrow> ks | Some k \<Rightarrow> List.insert k ks)
      in case validatorToReEnable view of None \<Rightarrow> ks | Some k \<Rightarrow> removeAll k ks)"

definition addKeys :: "(PublicKey \<Rightarrow> NodeID) \<Rightarrow> PublicKey list \<Rightarrow> (NodeID \<times> PublicKey) list \<Rightarrow> (NodeID \<times> PublicKey) list" where
  "addKeys calcNodeID ks m = fold (\<lambda>k. emplace (calcNodeID k) k) ks m"

definition nodeIDs :: "(PublicKey \<Rightarrow> NodeID) \<Rightarrow> PublicKey list \<Rightarrow> NodeID list" where
  "nodeIDs calcNodeID ks = remdups (map calcNodeID ks)"

definition doVoting_NegativeUNL ::
  "(PublicKey \<Rightarrow> NodeID) \<Rightarrow> (ChangeBody \<Rightarrow> uint256) \<Rightarrow> (nat \<Rightarrow> int) \<Rightarrow> PrevLedger \<Rightarrow> PublicKey list
     \<Rightarrow> ChangeTx list \<Rightarrow> NegativeUNLVote \<Rightarrow> Validations \<Rightarrow> ChangeTx list \<times> NegativeUNLVote \<times> Validations" where
  "doVoting_NegativeUNL calcNodeID txID clock prev unlKeys initialSet nv s =
     (let unlNodeIDs = nodeIDs calcNodeID unlKeys; nidToKeyMap = addKeys calcNodeID unlKeys []
      in case buildScoreTable clock prev unlNodeIDs nv s of
           (None, s') \<Rightarrow> (initialSet, nv, s')
         | (Some table, s') \<Rightarrow>
             let negUnlKeys = nextNegUnlKeys (pl_view prev);
                 negUnlNodeIDs = nodeIDs calcNodeID negUnlKeys;
                 nidToKeyMap = addKeys calcNodeID negUnlKeys nidToKeyMap;
                 seq = v_seq (pl_view prev) + 1;
                 nv' = purgeNewValidators seq nv;
                 candidates = findAllCandidates unlNodeIDs negUnlNodeIDs table nv';
                 set1 = (if toDisableCandidates candidates = [] then initialSet
                         else addTx txID seq (the (map_of nidToKeyMap
                                (choose_node (pl_hash prev) (toDisableCandidates candidates)))) ToDisable initialSet);
                 set2 = (if toReEnableCandidates candidates = [] then set1
                         else addTx txID seq (the (map_of nidToKeyMap
                                (choose_node (pl_hash prev) (toReEnableCandidates candidates)))) ToReEnable set1)
             in (set2, nv', s'))"

section \<open>The choice\<close>

lemma xor_left_inj: "(a :: 'a :: len word) XOR p = b XOR p \<longleftrightarrow> a = b"
  by (metis xor.assoc xor_self_eq xor.right_neutral)

lemma choose_fold:
  fixes f :: "'a \<Rightarrow> 'b :: linorder"
  defines "g \<equiv> \<lambda>c b. if f c < f b then c else b"
  shows "fold g cs m \<in> insert m (set cs)" and "c \<in> insert m (set cs) \<Longrightarrow> f (fold g cs m) \<le> f c"
proof -
  have "fold g cs m \<in> insert m (set cs) \<and> (\<forall>c \<in> insert m (set cs). f (fold g cs m) \<le> f c)"
  proof (induction cs arbitrary: m)
    case (Cons x cs)
    have b: "g x m \<in> {m, x}" "f (g x m) \<le> f m" "f (g x m) \<le> f x" by (auto simp: g_def)
    have "f (fold g cs (g x m)) \<le> f (g x m)" using Cons.IH by blast
    then show ?case
      using Cons.IH [of "g x m"] b by simp (metis order.trans)
  qed simp
  then show "fold g cs m \<in> insert m (set cs)" and "c \<in> insert m (set cs) \<Longrightarrow> f (fold g cs m) \<le> f c"
    by blast+
qed

lemma choose_min:
  assumes "cs \<noteq> []"
  shows "choose_node pad cs \<in> set cs"
    and "c \<in> set cs \<Longrightarrow> (choose_node pad cs XOR ucast (drop_bit 96 pad)) \<le> (c XOR ucast (drop_bit 96 pad))"
proof -
  have s: "set cs = insert (hd cs) (set (tl cs))" using assms by (cases cs) simp_all
  note f = choose_fold [where f = "\<lambda>c. c XOR (ucast (drop_bit 96 pad) :: NodeID)" and cs = "tl cs" and m = "hd cs"]
  show "choose_node pad cs \<in> set cs"
    unfolding s choose_node_def Let_def by (rule f(1))
  show "(choose_node pad cs XOR ucast (drop_bit 96 pad)) \<le> (c XOR ucast (drop_bit 96 pad))" if "c \<in> set cs"
    using that unfolding s choose_node_def Let_def by (rule f(2))
qed

text \<open>
  Two servers with the same candidates choose the same validator, in whatever order their hash tables list the
  candidates: the one whose identifier is nearest, in the XOR distance, to the first twenty bytes of the hash of the
  previous ledger.
\<close>

theorem choose_order_irrelevant:
  assumes "cs \<noteq> []" and "set cs = set cs'"
  shows "choose_node pad cs = choose_node pad cs' \<and> choose_node pad cs \<in> set cs
    \<and> (\<forall>c \<in> set cs. c \<noteq> choose_node pad cs \<longrightarrow>
          (choose_node pad cs XOR ucast (drop_bit 96 pad)) < (c XOR ucast (drop_bit 96 pad)))"
proof -
  have ne: "cs' \<noteq> []" using assms by auto
  have "(choose_node pad cs XOR ucast (drop_bit 96 pad)) = (choose_node pad cs' XOR ucast (drop_bit 96 pad))"
    using choose_min [OF assms(1)] choose_min [OF ne] assms(2) by (simp add: order_antisym)
  then have "choose_node pad cs = choose_node pad cs'" by (simp add: xor_left_inj)
  moreover have "(choose_node pad cs XOR ucast (drop_bit 96 pad)) < (c XOR ucast (drop_bit 96 pad))"
    if "c \<in> set cs" "c \<noteq> choose_node pad cs" for c
    using choose_min(2) [OF assms(1) that(1), of pad] that(2) xor_left_inj [of c "ucast (drop_bit 96 pad)" "choose_node pad cs"]
    by (simp add: order_less_le)
  ultimately show ?thesis using choose_min(1) [OF assms(1)] by blast
qed

section \<open>The score table\<close>

text \<open>The store holds a trusted full validation of node \<open>n\<close> for the ledger with hash \<open>lid\<close> and sequence \<open>q\<close>.\<close>

definition has_validated :: "Validations \<Rightarrow> NodeID \<Rightarrow> uint256 \<Rightarrow> nat \<Rightarrow> bool" where
  "has_validated s n lid q \<longleftrightarrow>
     (case map_of (byLedger s) lid of
        None \<Rightarrow> False
      | Some (_, vals) \<Rightarrow> (case map_of vals n of
                            None \<Rightarrow> False | Some v \<Rightarrow> vl_trusted v \<and> vl_full v \<and> vl_seq v = q))"

lemma trusted_nodes:
  assumes "by_ledger_ok s"
  shows "vl_nodeID ` set (fst (getTrustedForLedger now lid q s)) = {n. has_validated s n lid q}"
proof (cases "map_of (byLedger s) lid")
  case None
  then show ?thesis by (simp add: getTrustedForLedger_def for_ledger_def has_validated_def)
next
  case (Some x)
  obtain t vals where x: "x = (t, vals)" by fastforce
  note l = by_ledger_lookup [OF assms, of lid t vals]
  have m: "(n, v) \<in> set vals \<longleftrightarrow> map_of vals n = Some v" for n v
    using in_set_map_of l(1) Some x by simp
  have id: "vl_nodeID v = n" if "map_of vals n = Some v" for n v
    using l(2) Some x m that by simp
  let ?P = "\<lambda>v. vl_trusted v \<and> vl_full v \<and> vl_seq v = q"
  have "set (fst (getTrustedForLedger now lid q s)) = {v. \<exists>n. (n, v) \<in> set vals \<and> ?P v}"
    using Some x by (auto simp: getTrustedForLedger_def for_ledger_def image_iff)
  moreover have "has_validated s n lid q \<longleftrightarrow> (\<exists>v. map_of vals n = Some v \<and> ?P v)" for n
    using Some x by (simp add: has_validated_def split: option.split)
  ultimately show ?thesis
    using id by (intro set_eqI) (simp add: m image_iff, blast)
qed

lemma getTrusted_frame:
  assumes "by_ledger_ok s"
  shows "by_ledger_ok (snd (getTrustedForLedger now lid q s))"
    and "has_validated (snd (getTrustedForLedger now lid q s)) = has_validated s"
proof -
  show "by_ledger_ok (snd (getTrustedForLedger now lid q s))"
    using for_ledger_ok [OF assms] by (simp add: getTrustedForLedger_def split_beta)
  show "has_validated (snd (getTrustedForLedger now lid q s)) = has_validated s"
    by (cases "map_of (byLedger s) lid")
      (auto simp: getTrustedForLedger_def for_ledger_def has_validated_def aged_touch_def split_beta fun_eq_iff)
qed

lemma map_of_bump: "map_of (bump k t) n = map_option (\<lambda>c. c + (if n = k then 1 else 0)) (map_of t n)"
  by (auto simp: bump_def option.map_ident split: option.split)

lemma map_of_bumps:
  "distinct (map vl_nodeID vs) \<Longrightarrow> map_of (fold (\<lambda>v. bump (vl_nodeID v)) vs t) n
     = map_option (\<lambda>c. c + (if n \<in> vl_nodeID ` set vs then 1 else 0)) (map_of t n)"
proof (induction vs arbitrary: t)
  case Nil
  show ?case by (simp add: option.map_ident)
next
  case (Cons v vs)
  then show ?case by (auto simp: map_of_bump option.map_comp o_def split: if_splits)
qed

text \<open>The ledgers among the last 256, counted back from the previous one, that node \<open>n\<close> has validated.\<close>

definition validated_ledgers :: "Validations \<Rightarrow> uint256 list \<Rightarrow> u32 \<Rightarrow> NodeID \<Rightarrow> nat set" where
  "validated_ledgers s hashes seq n =
     {i. i < 256 \<and> has_validated s n (hashes ! (length hashes - 1 - i)) (unat (seq - 2 - of_nat i))}"

lemma score_loop_counts:
  assumes "by_ledger_ok s"
  shows "map_of (fst (score_loop clock hashes seq i k table s)) n =
      map_option (\<lambda>c. c + card {j \<in> {i..<i + k}. has_validated s n (hashes ! (length hashes - 1 - j))
        (unat (seq - 2 - of_nat j))}) (map_of table n)"
  using assms
proof (induction k arbitrary: i table s)
  case 0
  show ?case by (simp add: option.map_ident)
next
  case (Suc k)
  let ?P = "\<lambda>j. has_validated s n (hashes ! (length hashes - 1 - j)) (unat (seq - 2 - of_nat j))"
  let ?g = "getTrustedForLedger (clock i) (hashes ! (length hashes - 1 - i)) (unat (seq - 2 - of_nat i)) s"
  let ?t = "fold (\<lambda>v. bump (vl_nodeID v)) (fst ?g) table"
  note f = getTrusted_frame [OF Suc.prems, of "clock i" "hashes ! (length hashes - 1 - i)" "unat (seq - 2 - of_nat i)"]
  have t: "map_of ?t n = map_option (\<lambda>c. c + (if ?P i then 1 else 0)) (map_of table n)"
    unfolding map_of_bumps [OF getTrustedForLedger_sound(2) [OF Suc.prems refl]] trusted_nodes [OF Suc.prems] by simp
  have "{j \<in> {i..<i + Suc k}. ?P j} = (if ?P i then {i} else {}) \<union> {j \<in> {Suc i..<Suc i + k}. ?P j}"
    by (auto simp: Suc_le_eq dest: le_imp_less_or_eq)
  then have c: "card {j \<in> {i..<i + Suc k}. ?P j} = (if ?P i then 1 else 0) + card {j \<in> {Suc i..<Suc i + k}. ?P j}"
    by (simp add: card_insert_if)
  show ?case
    using Suc.IH [OF f(1), of "Suc i" ?t] unfolding c t f(2)
    by (simp add: split_beta option.map_comp o_def add.assoc)
qed

lemma map_of_zero: "map_of (map (\<lambda>k. (k, 0)) ks) n = (if n \<in> set ks then Some 0 else None)"
  by (induction ks) auto

lemma score_loop_ok:
  "by_ledger_ok s \<Longrightarrow> by_ledger_ok (snd (score_loop clock hashes seq i k table s))"
  by (induction k arbitrary: i table s) (auto simp: split_beta getTrusted_frame)

lemma keep_frame [simp]:
  "by_ledger_ok (setSeqToKeep low high s) = by_ledger_ok s"
  "has_validated (setSeqToKeep low high s) = has_validated s"
  by (simp_all add: setSeqToKeep_def by_ledger_ok_def has_validated_def fun_eq_iff)

lemma score_table:
  assumes "by_ledger_ok s"
  shows "map_of (fst (score_loop clock hashes seq 0 (unat FLAG_LEDGER_INTERVAL) (map (\<lambda>k. (k, 0)) unl) s)) n
     = (if n \<in> set unl then Some (card (validated_ledgers s hashes seq n)) else None)"
  unfolding score_loop_counts [OF assms] map_of_zero validated_ledgers_def
  by (simp add: FLAG_LEDGER_INTERVAL_def atLeast0LessThan lessThan_def conj_commute)

lemma validated_ledgers_le: "card (validated_ledgers s hashes seq n) \<le> 256"
proof -
  have "validated_ledgers s hashes seq n \<subseteq> {..<256}" by (auto simp: validated_ledgers_def)
  then have "card (validated_ledgers s hashes seq n) \<le> card {..<256 :: nat}" by (intro card_mono) auto
  then show ?thesis by simp
qed

section \<open>The candidates\<close>

lemma keys_score_loop: "map fst (fst (score_loop clock hashes seq i k table s)) = map fst table"
proof -
  have b: "map fst (bump n t) = map fst t" for n t
    by (auto simp: bump_def update_keys map_of_eq_None_iff split: option.split)
  have f: "map fst (fold (\<lambda>v. bump (vl_nodeID v)) vs t) = map fst t" for vs t
    by (induction vs arbitrary: t) (simp_all add: b)
  show ?thesis
    by (induction k arbitrary: i table s) (simp_all add: split_beta f)
qed

lemma buildScoreTable_Some:
  assumes "buildScoreTable clock prev unl nv s = (Some table, s')"
  obtains hashes where "pl_hashes prev = Some hashes" "256 \<le> length hashes" "map fst table = unl"
    "by_ledger_ok s \<Longrightarrow> \<forall>n. map_of table n = (if n \<in> set unl
       then Some (card (validated_ledgers s hashes (v_seq (pl_view prev) + 1) n)) else None)"
    "\<exists>c. map_of table (nv_myId nv) = Some c \<and> 230 < c"
proof -
  let ?seq = "v_seq (pl_view prev) + 1"
  let ?s = "setSeqToKeep (unat (?seq - 1)) (unat (?seq + FLAG_LEDGER_INTERVAL)) s"
  obtain hashes where h: "pl_hashes prev = Some hashes" "\<not> length hashes < unat FLAG_LEDGER_INTERVAL"
    using assms by (auto simp: buildScoreTable_def Let_def split: option.splits if_splits)
  let ?l = "score_loop clock hashes ?seq 0 (unat FLAG_LEDGER_INTERVAL) (map (\<lambda>k. (k, 0)) unl) ?s"
  have t: "table = fst ?l" and mine: "230 < (case map_of (fst ?l) (nv_myId nv) of None \<Rightarrow> 0 | Some c \<Rightarrow> c)"
    using assms h by (auto simp: buildScoreTable_def Let_def split_beta split: if_splits)
  have "map fst table = unl" by (simp add: t keys_score_loop comp_def)
  moreover have "\<forall>n. map_of table n = (if n \<in> set unl then Some (card (validated_ledgers s hashes ?seq n)) else None)"
    if "by_ledger_ok s"
    unfolding t using score_table [of ?s] that by (simp add: validated_ledgers_def)
  moreover have "256 \<le> length hashes" using h(2) by (simp add: FLAG_LEDGER_INTERVAL_def)
  ultimately show thesis
    using that [of hashes] h(1) mine t by (auto split: option.splits)
qed

lemma map_of_addKeys:
  assumes "inj_on calcNodeID (set ks \<union> K)" "\<And>n k. map_of m n = Some k \<Longrightarrow> n = calcNodeID k \<and> k \<in> K"
  shows "k \<in> set ks \<Longrightarrow> map_of (addKeys calcNodeID ks m) (calcNodeID k) = Some k"
    and "map_of m n = Some k' \<Longrightarrow> map_of (addKeys calcNodeID ks m) n = Some k'"
    and "map_of (addKeys calcNodeID ks m) n = Some k' \<Longrightarrow> n = calcNodeID k' \<and> k' \<in> set ks \<union> K"
proof -
  have "map_of m n = Some k' \<Longrightarrow> map_of (emplace x y m) n = Some k'" for m :: "(NodeID \<times> PublicKey) list" and x y n k'
    by (auto simp: emplace_def split: option.split)
  then have kept: "map_of m n = Some k' \<Longrightarrow> map_of (fold (\<lambda>k. emplace (calcNodeID k) k) ks m) n = Some k'" for ks m n k'
    by (induction ks arbitrary: m) simp_all
  then show "map_of m n = Some k' \<Longrightarrow> map_of (addKeys calcNodeID ks m) n = Some k'"
    by (simp add: addKeys_def)
  have "(k \<in> set ks \<longrightarrow> map_of (addKeys calcNodeID ks m) (calcNodeID k) = Some k)
    \<and> (map_of (addKeys calcNodeID ks m) n = Some k' \<longrightarrow> n = calcNodeID k' \<and> k' \<in> set ks \<union> K)"
    using assms
  proof (induction ks arbitrary: m K)
    case Nil
    then show ?case by (simp add: addKeys_def)
  next
    case (Cons x ks)
    let ?m = "emplace (calcNodeID x) x m"
    have x: "map_of ?m (calcNodeID x) = Some x"
    proof (cases "map_of m (calcNodeID x)")
      case (Some y)
      then have "calcNodeID x = calcNodeID y" "y \<in> K" using Cons.prems(2) by blast+
      then have "y = x" using inj_onD [OF Cons.prems(1), of x y] by simp
      then show ?thesis using Some by (simp add: emplace_def)
    qed (simp add: emplace_def)
    have "inj_on calcNodeID (set ks \<union> insert x K)"
      using Cons.prems(1) by (rule inj_on_subset) auto
    moreover have "\<And>n k. map_of ?m n = Some k \<Longrightarrow> n = calcNodeID k \<and> k \<in> insert x K"
      using Cons.prems(2) by (cases "map_of m (calcNodeID x)") (auto simp: emplace_def split: if_splits)
    ultimately have "(k \<in> set ks \<longrightarrow> map_of (addKeys calcNodeID ks ?m) (calcNodeID k) = Some k)
      \<and> (map_of (addKeys calcNodeID ks ?m) n = Some k' \<longrightarrow> n = calcNodeID k' \<and> k' \<in> set ks \<union> insert x K)"
      by (rule Cons.IH)
    then show ?case
      using kept [OF x, of ks] by (auto simp: addKeys_def)
  qed
  then show "k \<in> set ks \<Longrightarrow> map_of (addKeys calcNodeID ks m) (calcNodeID k) = Some k"
    "map_of (addKeys calcNodeID ks m) n = Some k' \<Longrightarrow> n = calcNodeID k' \<and> k' \<in> set ks \<union> K"
    by blast+
qed

text \<open>A vote, and the vote for an optional validator.\<close>

definition unl_vote :: "(ChangeBody \<Rightarrow> uint256) \<Rightarrow> u8 \<Rightarrow> u32 \<Rightarrow> PublicKey \<Rightarrow> ChangeTx" where
  "unl_vote txID d seq k =
     (let body = BodyUNLModify (Some d) (Some seq) (Some k) in pseudo_tx ttUNL_MODIFY None (txID body) 0 body)"

definition unl_votes :: "(ChangeBody \<Rightarrow> uint256) \<Rightarrow> u32 \<Rightarrow> PublicKey option \<Rightarrow> PublicKey option \<Rightarrow> ChangeTx list" where
  "unl_votes txID seq dis re =
     (case dis of None \<Rightarrow> [] | Some k \<Rightarrow> [unl_vote txID 1 seq k])
     @ (case re of None \<Rightarrow> [] | Some k \<Rightarrow> [unl_vote txID 0 seq k])"

lemma addTx_vote:
  "addTx txID seq k m S =
     (let tx = unl_vote txID (if m = ToDisable then 1 else 0) seq k in if tx_ID tx \<in> tx_ID ` set S then S else S @ [tx])"
  by (simp add: addTx_def unl_vote_def Let_def)

lemma tx_ID_vote: "tx_ID (unl_vote txID d seq k) = txID (BodyUNLModify (Some d) (Some seq) (Some k))"
  by (simp add: unl_vote_def pseudo_tx_def Let_def)

lemma set_nodeIDs [simp]: "set (nodeIDs f ks) = f ` set ks"
  by (simp add: nodeIDs_def)

lemma card_nodeIDs:
  assumes "inj_on f (set ks \<union> set ks')"
  shows "length (nodeIDs f ks) = card (set ks)"
    and "length (filter (\<lambda>n. n \<in> set (nodeIDs f ks')) (nodeIDs f ks)) = card (set ks \<inter> set ks')"
proof -
  have i: "inj_on f (set ks)" using assms by (rule inj_on_subset) simp
  show "length (nodeIDs f ks) = card (set ks)"
    unfolding nodeIDs_def using i by (simp add: length_remdups_card_conv card_image)
  have "length (filter (\<lambda>n. n \<in> set (nodeIDs f ks')) (nodeIDs f ks)) = card (f ` set ks \<inter> f ` set ks')"
    using distinct_card [of "filter (\<lambda>n. n \<in> set (nodeIDs f ks')) (nodeIDs f ks)"]
    by (simp add: nodeIDs_def Int_def)
  also have "\<dots> = card (f ` (set ks \<inter> set ks'))"
    using inj_on_image_Int [OF assms, of "set ks" "set ks'"] by simp
  also have "\<dots> = card (set ks \<inter> set ks')"
    using i by (intro card_image) (rule inj_on_subset, auto)
  finally show "length (filter (\<lambda>n. n \<in> set (nodeIDs f ks')) (nodeIDs f ks)) = card (set ks \<inter> set ks')" .
qed

lemma disable_candidate:
  assumes "n \<in> set (toDisableCandidates (findAllCandidates unl negUnl table nv))"
  shows "length (filter (\<lambda>n. n \<in> set negUnl) unl) < maxNegativeListed (length unl)"
    and "n \<notin> set negUnl" and "n \<notin> keys (nv_newValidators nv)" and "\<exists>c < 128. (n, c) \<in> set table"
proof -
  obtain c where "(n, c) \<in> set table" "length (filter (\<lambda>n. n \<in> set negUnl) unl) < maxNegativeListed (length unl)"
      "c < 128" "n \<notin> set negUnl" "n \<notin> keys (nv_newValidators nv)"
    using assms unfolding findAllCandidates_def Let_def Candidates.select_convs set_map set_filter by fastforce
  then show "length (filter (\<lambda>n. n \<in> set negUnl) unl) < maxNegativeListed (length unl)"
    and "n \<notin> set negUnl" and "n \<notin> keys (nv_newValidators nv)" and "\<exists>c < 128. (n, c) \<in> set table"
    by blast+
qed

lemma reEnable_candidate:
  assumes "n \<in> set (toReEnableCandidates (findAllCandidates unl negUnl table nv))"
  shows "n \<in> set negUnl" and "n \<notin> set unl \<or> (\<exists>c > 204. (n, c) \<in> set table)"
  using assms by (auto simp: findAllCandidates_def Let_def split: if_splits)

text \<open>What a vote to disable and a vote to re-enable rest on.\<close>

definition may_disable :: "(PublicKey \<Rightarrow> NodeID) \<Rightarrow> View \<Rightarrow> PublicKey list \<Rightarrow> (NodeID \<times> nat) list \<Rightarrow> NegativeUNLVote \<Rightarrow> PublicKey \<Rightarrow> bool" where
  "may_disable calcNodeID view unlKeys table nv k \<longleftrightarrow>
     k \<in> set unlKeys \<and> k \<notin> set (nextNegUnlKeys view)
     \<and> card (set unlKeys \<inter> set (nextNegUnlKeys view)) < maxNegativeListed (card (set unlKeys))
     \<and> calcNodeID k \<notin> keys (nv_newValidators nv) \<and> (\<exists>c < 128. (calcNodeID k, c) \<in> set table)"

definition may_reEnable :: "(PublicKey \<Rightarrow> NodeID) \<Rightarrow> View \<Rightarrow> PublicKey list \<Rightarrow> (NodeID \<times> nat) list \<Rightarrow> PublicKey \<Rightarrow> bool" where
  "may_reEnable calcNodeID view unlKeys table k \<longleftrightarrow>
     k \<in> set (nextNegUnlKeys view) \<and> (k \<notin> set unlKeys \<or> (\<exists>c > 204. (calcNodeID k, c) \<in> set table))"

definition vote_bodies :: "View \<Rightarrow> PublicKey list \<Rightarrow> ChangeBody set" where
  "vote_bodies view unlKeys =
     (\<lambda>(d, k). BodyUNLModify (Some d) (Some (v_seq view + 1)) (Some k))
       ` ({0, 1} \<times> (set unlKeys \<union> set (nextNegUnlKeys view)))"

lemma votes_cases:
  assumes inj: "inj_on calcNodeID (set unlKeys \<union> set (nextNegUnlKeys (pl_view prev)))"
    and ids: "inj_on txID (vote_bodies (pl_view prev) unlKeys)"
    and vote: "doVoting_NegativeUNL calcNodeID txID clock prev unlKeys [] nv s = (txs, nv', s')"
  obtains "txs = []" "nv' = nv"
  | table s1 dis re where
    "buildScoreTable clock prev (nodeIDs calcNodeID unlKeys) nv s = (Some table, s1)"
    "nv' = purgeNewValidators (v_seq (pl_view prev) + 1) nv"
    "txs = unl_votes txID (v_seq (pl_view prev) + 1) dis re"
    "pred_option (may_disable calcNodeID (pl_view prev) unlKeys table nv') dis"
    "pred_option (may_reEnable calcNodeID (pl_view prev) unlKeys table) re"
proof (cases "buildScoreTable clock prev (nodeIDs calcNodeID unlKeys) nv s")
  case (Pair r s1)
  show thesis
  proof (cases r)
    case None
    then show thesis using that(1) vote Pair by (simp add: doVoting_NegativeUNL_def Let_def)
  next
    case (Some table)
    let ?view = "pl_view prev" and ?unl = "nodeIDs calcNodeID unlKeys"
    let ?seq = "v_seq ?view + 1" and ?neg = "nextNegUnlKeys ?view"
    let ?nv = "purgeNewValidators ?seq nv" and ?negIDs = "nodeIDs calcNodeID ?neg"
    let ?c = "findAllCandidates ?unl ?negIDs table ?nv"
    let ?m = "addKeys calcNodeID ?neg (addKeys calcNodeID unlKeys [])"
    let ?pick = "\<lambda>cs. the (map_of ?m (choose_node (pl_hash prev) cs))"
    define dis where "dis = (if toDisableCandidates ?c = [] then None else Some (?pick (toDisableCandidates ?c)))"
    define re where "re = (if toReEnableCandidates ?c = [] then None else Some (?pick (toReEnableCandidates ?c)))"
    have m1: "map_of (addKeys calcNodeID unlKeys []) n = Some k \<Longrightarrow> n = calcNodeID k \<and> k \<in> set unlKeys" for n k
      using map_of_addKeys(3) [of calcNodeID unlKeys "{}" "[]"] inj_on_subset [OF inj] by simp
    have inj': "inj_on calcNodeID (set ?neg \<union> set unlKeys)" using inj by (simp add: Un_commute)
    note addKeys = map_of_addKeys [OF inj' m1]
    have look: "map_of ?m (calcNodeID k) = Some k" if "k \<in> set unlKeys \<union> set ?neg" for k
      using that addKeys(1,2) map_of_addKeys(1) [of calcNodeID unlKeys "{}" "[]" k] inj_on_subset [OF inj, of "set unlKeys"]
      by auto
    have k: "keys table = calcNodeID ` set unlKeys"
      using buildScoreTable_Some [of clock prev ?unl nv s table s1] Pair Some by (metis list.set_map set_nodeIDs)
    have dis_ok: "may_disable calcNodeID ?view unlKeys table ?nv k" if "dis = Some k" for k
    proof -
      let ?n = "choose_node (pl_hash prev) (toDisableCandidates ?c)"
      have n: "?n \<in> set (toDisableCandidates ?c)" and ke: "k = the (map_of ?m ?n)"
        using that choose_min(1) by (auto simp: dis_def split: if_splits)
      note cand = disable_candidate [OF n]
      then obtain k' where k': "k' \<in> set unlKeys" "?n = calcNodeID k'" using k by (force simp: image_iff)
      then have "k = k'" using look ke by simp
      then show ?thesis
        using cand k' unfolding may_disable_def card_nodeIDs [OF inj] by auto
    qed
    have re_ok: "may_reEnable calcNodeID ?view unlKeys table k" if "re = Some k" for k
    proof -
      let ?n = "choose_node (pl_hash prev) (toReEnableCandidates ?c)"
      have n: "?n \<in> set (toReEnableCandidates ?c)" and ke: "k = the (map_of ?m ?n)"
        using that choose_min(1) by (auto simp: re_def split: if_splits)
      note cand = reEnable_candidate [OF n]
      then obtain k' where k': "k' \<in> set ?neg" "?n = calcNodeID k'" by auto
      then have "k = k'" using look ke by simp
      then show ?thesis
        using cand(2) k' unfolding may_reEnable_def by auto
    qed
    have ne: "tx_ID (unl_vote txID 0 ?seq k') \<noteq> tx_ID (unl_vote txID 1 ?seq k)" if "dis = Some k" "re = Some k'" for k k'
      using dis_ok [OF that(1)] re_ok [OF that(2)] unfolding tx_ID_vote may_disable_def may_reEnable_def
      by (subst inj_on_eq_iff [OF ids]) (auto simp: vote_bodies_def)
    have "txs = unl_votes txID ?seq dis re \<and> nv' = ?nv"
      using vote Pair Some ne
      by (auto simp: doVoting_NegativeUNL_def Let_def addTx_vote unl_votes_def dis_def re_def split: if_splits)
    then show thesis
      using that(2) [of table s1 dis re] Pair Some dis_ok re_ok by (cases dis; cases re; simp)
  qed
qed

lemma votes_shape:
  assumes "inj_on calcNodeID (set unlKeys \<union> set (nextNegUnlKeys (pl_view prev)))"
    and "inj_on txID (vote_bodies (pl_view prev) unlKeys)"
    and "doVoting_NegativeUNL calcNodeID txID clock prev unlKeys [] nv s = (txs, nv', s')"
  shows "\<exists>dis re. txs = unl_votes txID (v_seq (pl_view prev) + 1) dis re
    \<and> (\<forall>k. dis = Some k \<longrightarrow> k \<in> set unlKeys \<and> k \<notin> set (nextNegUnlKeys (pl_view prev))
         \<and> card (set unlKeys \<inter> set (nextNegUnlKeys (pl_view prev))) < maxNegativeListed (card (set unlKeys)))
    \<and> (\<forall>k. re = Some k \<longrightarrow> k \<in> set (nextNegUnlKeys (pl_view prev)))"
  using assms
proof (cases rule: votes_cases)
  case 1
  then show ?thesis by (intro exI [of _ None]) (simp add: unl_votes_def)
next
  case (2 table s1 dis re)
  then show ?thesis by (intro exI [of _ dis] exI [of _ re]) (auto simp: may_disable_def may_reEnable_def)
qed

section \<open>The votes on the flag ledger\<close>

abbreviation nunl_of :: "View \<Rightarrow> NegativeUNL" where
  "nunl_of view \<equiv> (case v_negativeUNL view of None \<Rightarrow> empty_NegativeUNL | Some n \<Rightarrow> n)"

lemma process_vote_checks:
  assumes "\<not> v_open view" "v_rules view featureNegativeUNL" "txID (BodyUNLModify (Some d) (Some q) (Some k)) \<noteq> 0"
  shows "process_change env nid (unl_vote txID d q k) (view, app) =
    (case applyUNLModify (Some d) (Some q) (Some k) view of
       (r, v) \<Rightarrow> (r, if r = tesSUCCESS then v else view, app))"
proof -
  let ?tx = "unl_vote txID d q k"
  have tx: "tx_Type ?tx = ttUNL_MODIFY" "tx_body ?tx = BodyUNLModify (Some d) (Some q) (Some k)"
    by (simp_all add: unl_vote_def pseudo_tx_def Let_def)
  have "invokePreflight_Change (v_rules view) nid ?tx = tesSUCCESS"
    using assms by (simp add: invokePreflight_Change_def preflight0_def isPseudoTx_def isFlag_def unl_vote_def
        pseudo_tx_def tfInnerBatchTxn_def Let_def)
  moreover have "preclaim view ?tx = tesSUCCESS" using assms(1) by (simp add: preclaim_def tx)
  moreover have "doApply env ?tx view app =
      (case applyUNLModify (Some d) (Some q) (Some k) view of (r, v) \<Rightarrow> (r, v, app))"
    by (simp add: doApply_def tx)
  ultimately show ?thesis by (simp add: process_change_def Let_def split: prod.split)
qed

lemma process_disable:
  assumes "\<not> v_open view" "v_rules view featureNegativeUNL" "isFlagLedger (v_seq view)" "publicKeyType k \<noteq> None"
    "txID (BodyUNLModify (Some 1) (Some (v_seq view)) (Some k)) \<noteq> 0"
    "nu_ValidatorToDisable (nunl_of view) = None" "nu_ValidatorToReEnable (nunl_of view) \<noteq> Some k"
    "Some k \<notin> set (disabled_keys (nunl_of view))"
  shows "process_change env nid (unl_vote txID 1 (v_seq view) k) (view, app) =
    (tesSUCCESS, view\<lparr>v_negativeUNL := Some ((nunl_of view)\<lparr>nu_ValidatorToDisable := Some k\<rparr>)\<rparr>, app)"
proof -
  have "applyUNLModify (Some 1) (Some (v_seq view)) (Some k) view =
      (tesSUCCESS, view\<lparr>v_negativeUNL := Some ((nunl_of view)\<lparr>nu_ValidatorToDisable := Some k\<rparr>)\<rparr>)"
    using assms unfolding applyUNLModify_def found_disabled Let_def by simp
  then show ?thesis using assms process_vote_checks [of view txID 1 "v_seq view" k] by simp
qed

lemma process_reEnable:
  assumes "\<not> v_open view" "v_rules view featureNegativeUNL" "isFlagLedger (v_seq view)" "publicKeyType k \<noteq> None"
    "txID (BodyUNLModify (Some 0) (Some (v_seq view)) (Some k)) \<noteq> 0"
    "nu_ValidatorToReEnable (nunl_of view) = None" "nu_ValidatorToDisable (nunl_of view) \<noteq> Some k"
    "Some k \<in> set (disabled_keys (nunl_of view))"
  shows "process_change env nid (unl_vote txID 0 (v_seq view) k) (view, app) =
    (tesSUCCESS, view\<lparr>v_negativeUNL := Some ((nunl_of view)\<lparr>nu_ValidatorToReEnable := Some k\<rparr>)\<rparr>, app)"
proof -
  have "applyUNLModify (Some 0) (Some (v_seq view)) (Some k) view =
      (tesSUCCESS, view\<lparr>v_negativeUNL := Some ((nunl_of view)\<lparr>nu_ValidatorToReEnable := Some k\<rparr>)\<rparr>)"
    using assms unfolding applyUNLModify_def found_disabled Let_def by simp
  then show ?thesis using assms process_vote_checks [of view txID 0 "v_seq view" k] by simp
qed

text \<open>The pending changes of a well-formed object have valid keys, so the readers see exactly them.\<close>

lemma pending_raw:
  assumes "nunl_inv view"
  shows "validatorToDisable view = nu_ValidatorToDisable (nunl_of view)"
    and "validatorToReEnable view = nu_ValidatorToReEnable (nunl_of view)"
    and "set (negativeUNL view) = {k. Some k \<in> set (disabled_keys (nunl_of view))}"
proof -
  note ok = nunl_ok_pending [OF nunl_ok_current [OF assms]]
  show "validatorToDisable view = nu_ValidatorToDisable (nunl_of view)"
    "validatorToReEnable view = nu_ValidatorToReEnable (nunl_of view)"
    using ok by (auto simp: validatorToDisable_def validatorToReEnable_def empty_NegativeUNL_def split: option.splits)
  show "set (negativeUNL view) = {k. Some k \<in> set (disabled_keys (nunl_of view))}"
    using set_negativeUNL [OF assms]
    by (cases "v_negativeUNL view")
      (simp_all add: negativeUNL_def empty_NegativeUNL_def disabled_keys_def disabled_entries_def)
qed

lemma pending_apart:
  assumes "nunl_inv view"
  shows "validatorToDisable view = Some k \<Longrightarrow> k \<notin> set (negativeUNL view)"
    and "validatorToReEnable view = Some k \<Longrightarrow> k \<in> set (negativeUNL view)"
  using nunl_ok_current [OF assms] unfolding pending_raw [OF assms] by (simp_all add: nunl_ok_def)

lemma set_nextNegUnlKeys:
  "set (nextNegUnlKeys view) =
     set (negativeUNL view) \<union> set_option (validatorToDisable view) - set_option (validatorToReEnable view)"
  by (auto simp: nextNegUnlKeys_def Let_def split: option.split)

lemma start_flag_ledger:
  assumes "nunl_inv view" "isFlagLedger (v_seq view + 1)" "v_rules view featureNegativeUNL"
    "view1 = startLedger t view"
  shows "v_seq view1 = v_seq view + 1" "\<not> v_open view1" "v_rules view1 = v_rules view" "nunl_inv view1"
    "nu_ValidatorToDisable (nunl_of view1) = None" "nu_ValidatorToReEnable (nunl_of view1) = None"
    "{k. Some k \<in> set (disabled_keys (nunl_of view1))} = set (nextNegUnlKeys view)"
proof -
  let ?b = "view\<lparr>v_seq := v_seq view + 1, v_parentCloseTime := t, v_open := False\<rparr>"
  have v1: "view1 = updateNegativeUNL ?b"
    using assms(2,3) by (simp add: assms(4) startLedger_def Let_def)
  have b: "nunl_inv ?b" using assms(1) by (simp add: nunl_inv_def)
  have o: "v_open (updateNegativeUNL v) = v_open v" for v by (simp add: updateNegativeUNL_eq split: option.split)
  show inv: "nunl_inv view1" unfolding v1 by (rule nunl_inv_updateNegativeUNL [OF b])
  show "v_seq view1 = v_seq view + 1" "\<not> v_open view1" "v_rules view1 = v_rules view"
    by (simp_all add: v1 o)
  note eff = updateNegativeUNL_sets [OF b, folded v1]
  show "nu_ValidatorToDisable (nunl_of view1) = None" "nu_ValidatorToReEnable (nunl_of view1) = None"
    using eff unfolding pending_raw(1,2) [OF inv] by simp_all
  have same: "negativeUNL ?b = negativeUNL view" "validatorToDisable ?b = validatorToDisable view"
    "validatorToReEnable ?b = validatorToReEnable view"
    by (simp_all add: negativeUNL_def validatorToDisable_def validatorToReEnable_def)
  show "{k. Some k \<in> set (disabled_keys (nunl_of view1))} = set (nextNegUnlKeys view)"
    using eff pending_apart [OF assms(1)] unfolding pending_raw(3) [OF inv, symmetric] same set_nextNegUnlKeys by auto
qed

lemma nextNegUnl_valid:
  assumes "nunl_inv view" "k \<in> set (nextNegUnlKeys view)"
  shows "publicKeyType k \<noteq> None"
proof -
  note ok = nunl_ok_current [OF assms(1)]
  have "publicKeyType k \<noteq> None" if "Some k \<in> set (disabled_keys (nunl_of view))"
    using that ok unfolding nunl_ok_def by blast
  then show ?thesis
    using assms(2) nunl_ok_pending(1) [OF ok] unfolding set_nextNegUnlKeys pending_raw [OF assms(1)] by auto
qed

lemma votes_applied:
  assumes "nunl_inv view" "isFlagLedger (v_seq view + 1)" "v_rules view featureNegativeUNL"
    and ids: "0 \<notin> txID ` vote_bodies view unlKeys"
    and dis: "\<And>k. dis = Some k \<Longrightarrow> k \<in> set unlKeys \<and> k \<notin> set (nextNegUnlKeys view) \<and> publicKeyType k \<noteq> None"
    and re: "\<And>k. re = Some k \<Longrightarrow> k \<in> set (nextNegUnlKeys view)"
    and view': "view' = fst (buildLedger env nid t (unl_votes txID (v_seq view + 1) dis re) (view, app))"
  shows "nunl_inv view' \<and> validatorToDisable view' = dis \<and> validatorToReEnable view' = re
    \<and> set (negativeUNL view') = set (nextNegUnlKeys view)"
proof -
  define view1 where "view1 = startLedger t view"
  note st = start_flag_ledger [OF assms(1-3) view1_def]
  define n where "n = nunl_of view1"
  have id: "txID (BodyUNLModify (Some d) (Some (v_seq view + 1)) (Some k)) \<noteq> 0"
    if "d = 0 \<or> d = 1" "k \<in> set unlKeys \<union> set (nextNegUnlKeys view)" for d k
    using ids that by (force simp: vote_bodies_def)
  have flag: "isFlagLedger (v_seq view1)" "v_rules view1 featureNegativeUNL" using st assms(2,3) by simp_all
  have keys: "Some k \<in> set (disabled_keys n) \<longleftrightarrow> k \<in> set (nextNegUnlKeys view)" for k
    using st(7) by (auto simp: n_def)
  define view2 where "view2 = (case dis of None \<Rightarrow> view1
      | Some k \<Rightarrow> view1\<lparr>v_negativeUNL := Some (n\<lparr>nu_ValidatorToDisable := Some k\<rparr>)\<rparr>)"
  have f2: "v_seq view2 = v_seq view1" "v_open view2 = v_open view1" "v_rules view2 = v_rules view1"
    and n2: "nunl_of view2 = n\<lparr>nu_ValidatorToDisable := dis\<rparr>"
    using st(5) by (cases dis; simp add: view2_def n_def)+
  have s2: "fold (\<lambda>tx s. snd (process_change env nid tx s))
      (case dis of None \<Rightarrow> [] | Some k \<Rightarrow> [unl_vote txID 1 (v_seq view + 1) k]) (view1, app) = (view2, app)"
    using process_disable [OF st(2) flag(2) flag(1), of _ txID env nid app] dis id st keys
    by (cases dis) (simp_all add: view2_def n_def)
  define view3 where "view3 = (case re of None \<Rightarrow> view2
      | Some k \<Rightarrow> view2\<lparr>v_negativeUNL := Some (n\<lparr>nu_ValidatorToDisable := dis, nu_ValidatorToReEnable := Some k\<rparr>)\<rparr>)"
  have n3: "nunl_of view3 = n\<lparr>nu_ValidatorToDisable := dis, nu_ValidatorToReEnable := re\<rparr>"
    using n2 st(6) by (cases re; simp add: view3_def n_def [symmetric])
  have s3: "fold (\<lambda>tx s. snd (process_change env nid tx s))
      (case re of None \<Rightarrow> [] | Some k \<Rightarrow> [unl_vote txID 0 (v_seq view + 1) k]) (view2, app) = (view3, app)"
  proof (cases re)
    case (Some k)
    have "process_change env nid (unl_vote txID 0 (v_seq view2) k) (view2, app) =
      (tesSUCCESS, view2\<lparr>v_negativeUNL := Some ((nunl_of view2)\<lparr>nu_ValidatorToReEnable := Some k\<rparr>)\<rparr>, app)"
      using f2 n2 st flag id [of 0 k] re [OF Some] nextNegUnl_valid [OF assms(1)] dis keys
      by (intro process_reEnable) (auto simp: n_def)
    then show ?thesis using Some f2(1) st(1) by (simp add: view3_def n2)
  qed (simp add: view3_def)
  have v': "view' = view3"
    using s2 s3 by (simp add: view' buildLedger_def unl_votes_def view1_def [symmetric])
  have "nunl_ok (n\<lparr>nu_ValidatorToDisable := dis, nu_ValidatorToReEnable := re\<rparr>)"
    using nunl_ok_current [OF st(4)] dis re keys by (simp add: nunl_ok_def n_def)
  then have inv: "nunl_inv view3"
    using n3 by (auto simp: nunl_inv_def split: option.splits)
  show ?thesis
    using n3 keys inv unfolding v' pending_raw [OF inv] by simp
qed

text \<open>
  C16. The votes for a flag ledger take effect on it. If the transactions a server proposes before a flag ledger are
  those of the ledger, none of them fails: the negative UNL of the flag ledger is the one the server computed from the
  previous ledger, and the validators it voted to disable and to re-enable, at most one each, are pending.
\<close>

theorem negative_unl_votes_take_effect:
  assumes "nunl_inv (pl_view prev)" and "isFlagLedger (v_seq (pl_view prev) + 1)"
    and "v_rules (pl_view prev) featureNegativeUNL" and "\<forall>k \<in> set unlKeys. publicKeyType k \<noteq> None"
    and "inj_on calcNodeID (set unlKeys \<union> set (nextNegUnlKeys (pl_view prev)))"
    and "inj_on txID (vote_bodies (pl_view prev) unlKeys)" and "0 \<notin> txID ` vote_bodies (pl_view prev) unlKeys"
    and "doVoting_NegativeUNL calcNodeID txID clock prev unlKeys [] nv s = (txs, nv', s')"
    and "view' = fst (buildLedger env nid t txs (pl_view prev, app))"
  shows "txs = unl_votes txID (v_seq (pl_view prev) + 1) (validatorToDisable view') (validatorToReEnable view')
    \<and> set (negativeUNL view') = set (nextNegUnlKeys (pl_view prev))"
proof -
  obtain dis re where "txs = unl_votes txID (v_seq (pl_view prev) + 1) dis re"
    "\<And>k. dis = Some k \<Longrightarrow> k \<in> set unlKeys \<and> k \<notin> set (nextNegUnlKeys (pl_view prev))"
    "\<And>k. re = Some k \<Longrightarrow> k \<in> set (nextNegUnlKeys (pl_view prev))"
    using votes_shape [OF assms(5,6,8)] by blast
  then show ?thesis
    using votes_applied [OF assms(1-3,7), of dis re view' env nid t app] assms(4,9) by simp
qed

text \<open>
  C17. A server never votes the negative UNL beyond a quarter of its trusted validators: with its own votes on the flag
  ledger, the number of its validators on the next negative UNL is at most the number before or, where that is
  smaller, a quarter of its list (rounded up).
\<close>

theorem negative_unl_stays_small:
  assumes "nunl_inv (pl_view prev)" and "isFlagLedger (v_seq (pl_view prev) + 1)"
    and "v_rules (pl_view prev) featureNegativeUNL" and "\<forall>k \<in> set unlKeys. publicKeyType k \<noteq> None"
    and "inj_on calcNodeID (set unlKeys \<union> set (nextNegUnlKeys (pl_view prev)))"
    and "inj_on txID (vote_bodies (pl_view prev) unlKeys)" and "0 \<notin> txID ` vote_bodies (pl_view prev) unlKeys"
    and "doVoting_NegativeUNL calcNodeID txID clock prev unlKeys [] nv s = (txs, nv', s')"
    and "view' = fst (buildLedger env nid t txs (pl_view prev, app))"
  shows "card (set unlKeys \<inter> set (nextNegUnlKeys view'))
    \<le> max (card (set unlKeys \<inter> set (nextNegUnlKeys (pl_view prev)))) (maxNegativeListed (card (set unlKeys)))"
proof -
  let ?next = "set (nextNegUnlKeys (pl_view prev))"
  obtain dis re where v: "txs = unl_votes txID (v_seq (pl_view prev) + 1) dis re"
    "\<And>k. dis = Some k \<Longrightarrow> k \<in> set unlKeys \<and> k \<notin> ?next" "\<And>k. re = Some k \<Longrightarrow> k \<in> ?next"
    and few: "\<And>k. dis = Some k \<Longrightarrow> card (set unlKeys \<inter> ?next) < maxNegativeListed (card (set unlKeys))"
    using votes_shape [OF assms(5,6,8)] by blast
  have n': "set (nextNegUnlKeys view') \<subseteq> ?next \<union> set_option dis"
    using votes_applied [OF assms(1-3,7), of dis re view' env nid t app] v assms(4,9)
    by (auto simp: set_nextNegUnlKeys)
  show ?thesis
  proof (cases dis)
    case None
    then have "card (set unlKeys \<inter> set (nextNegUnlKeys view')) \<le> card (set unlKeys \<inter> ?next)"
      using n' by (intro card_mono) auto
    then show ?thesis by simp
  next
    case (Some k)
    then have "card (set unlKeys \<inter> set (nextNegUnlKeys view')) \<le> card (insert k (set unlKeys \<inter> ?next))"
      using n' by (intro card_mono) auto
    also have "\<dots> \<le> Suc (card (set unlKeys \<inter> ?next))" by (rule card_insert_le_m1) simp_all
    finally show ?thesis using few [OF Some] by simp
  qed
qed

text \<open>
  C18. Every vote has a reason. A server votes only if it validated more than 230 of the last 256 ledgers itself. It
  votes to disable only a trusted validator of which it holds trusted validations for fewer than 128 of them, which is
  not on the next negative UNL and did not join within the last 512 ledgers; to re-enable only one that is on the next
  negative UNL and that it no longer trusts or holds validations of for more than 204 of the 256 ledgers.
\<close>

theorem negative_unl_votes_justified:
  assumes "by_ledger_ok s"
    and "inj_on calcNodeID (set unlKeys \<union> set (nextNegUnlKeys (pl_view prev)))"
    and "inj_on txID (vote_bodies (pl_view prev) unlKeys)"
    and "doVoting_NegativeUNL calcNodeID txID clock prev unlKeys [] nv s = (txs, nv', s')"
    and "tx \<in> set txs" and "seq = v_seq (pl_view prev) + 1"
  shows "\<exists>hashes k. pl_hashes prev = Some hashes \<and> 256 \<le> length hashes
    \<and> 230 < card (validated_ledgers s hashes seq (nv_myId nv))
    \<and> (tx = unl_vote txID 1 seq k \<and> k \<in> set unlKeys - set (nextNegUnlKeys (pl_view prev))
         \<and> card (validated_ledgers s hashes seq (calcNodeID k)) < 128
         \<and> (\<forall>q. (calcNodeID k, q) \<in> set (nv_newValidators nv) \<longrightarrow> 512 < unat (seq - q))
       \<or> tx = unl_vote txID 0 seq k \<and> k \<in> set (nextNegUnlKeys (pl_view prev))
         \<and> (k \<in> set unlKeys \<longrightarrow> 204 < card (validated_ledgers s hashes seq (calcNodeID k))))"
  using assms(2-4)
proof (cases rule: votes_cases)
  case 1
  then show ?thesis using assms(5) by simp
next
  case (2 table s1 dis re)
  from 2(1) obtain hashes where h: "pl_hashes prev = Some hashes" "256 \<le> length hashes"
      "map fst table = nodeIDs calcNodeID unlKeys"
      "\<forall>n. map_of table n = (if n \<in> calcNodeID ` set unlKeys then Some (card (validated_ledgers s hashes seq n)) else None)"
      "\<exists>c. map_of table (nv_myId nv) = Some c \<and> 230 < c"
    using assms(1,6) by (elim buildScoreTable_Some) auto
  have score: "c = card (validated_ledgers s hashes seq n)" if "(n, c) \<in> set table" for n c
    using that h(3,4) in_set_map_of [of table n c] by (auto simp: nodeIDs_def split: if_splits)
  have mine: "230 < card (validated_ledgers s hashes seq (nv_myId nv))"
    using h(4,5) by (auto split: if_splits)
  consider (d) k where "dis = Some k" "tx = unl_vote txID 1 seq k" | (r) k where "re = Some k" "tx = unl_vote txID 0 seq k"
    using assms(5,6) 2(3) by (auto simp: unl_votes_def split: option.splits)
  then show ?thesis
  proof cases
    case d
    then have "may_disable calcNodeID (pl_view prev) unlKeys table nv' k" using 2(4) by simp
    then show ?thesis
      using d(2) h(1,2) mine score 2(2) assms(6)
      by (intro exI [of _ hashes] exI [of _ k]) (force simp: may_disable_def purgeNewValidators_def)
  next
    case r
    then have "may_reEnable calcNodeID (pl_view prev) unlKeys table k" using 2(5) by simp
    then show ?thesis
      using r(2) h(1,2) mine score by (intro exI [of _ hashes] exI [of _ k]) (auto simp: may_reEnable_def)
  qed
qed

lemma buildScoreTable_result:
  assumes ok: "by_ledger_ok s" and "pl_hashes prev = Some hashes" "256 \<le> length hashes" "seq = v_seq (pl_view prev) + 1"
  shows "nv_myId nv \<in> set unl \<and> 230 < card (validated_ledgers s hashes seq (nv_myId nv)) \<Longrightarrow>
      \<exists>table. fst (buildScoreTable clock prev unl nv s) = Some table \<and> map fst table = unl
        \<and> (\<forall>n \<in> set unl. map_of table n = Some (card (validated_ledgers s hashes seq n)))"
    and "\<not> (nv_myId nv \<in> set unl \<and> 230 < card (validated_ledgers s hashes seq (nv_myId nv))) \<Longrightarrow>
      fst (buildScoreTable clock prev unl nv s) = None"
proof -
  let ?s = "setSeqToKeep (unat (seq - 1)) (unat (seq + FLAG_LEDGER_INTERVAL)) s"
  let ?t = "fst (score_loop clock hashes seq 0 (unat FLAG_LEDGER_INTERVAL) (map (\<lambda>k. (k, 0)) unl) ?s)"
  have t: "map_of ?t n = (if n \<in> set unl then Some (card (validated_ledgers s hashes seq n)) else None)" for n
    using score_table [of ?s] ok by (simp add: validated_ledgers_def)
  have le: "card (validated_ledgers s hashes seq n) \<le> unat FLAG_LEDGER_INTERVAL" for n
    using validated_ledgers_le by (simp add: FLAG_LEDGER_INTERVAL_def)
  have r: "fst (buildScoreTable clock prev unl nv s) =
      (if nv_myId nv \<in> set unl \<and> 230 < card (validated_ledgers s hashes seq (nv_myId nv)) then Some ?t else None)"
    using assms(2-4) t [of "nv_myId nv"] le [of "nv_myId nv"]
    by (auto simp: buildScoreTable_def Let_def split_beta FLAG_LEDGER_INTERVAL_def)
  have "map fst ?t = unl" by (simp add: keys_score_loop comp_def)
  then show "nv_myId nv \<in> set unl \<and> 230 < card (validated_ledgers s hashes seq (nv_myId nv)) \<Longrightarrow>
      \<exists>table. fst (buildScoreTable clock prev unl nv s) = Some table \<and> map fst table = unl
        \<and> (\<forall>n \<in> set unl. map_of table n = Some (card (validated_ledgers s hashes seq n)))"
    using r t by simp
  show "\<not> (nv_myId nv \<in> set unl \<and> 230 < card (validated_ledgers s hashes seq (nv_myId nv))) \<Longrightarrow>
      fst (buildScoreTable clock prev unl nv s) = None"
    using r by simp
qed

text \<open>
  The score of a validator is the number of the last 256 ledgers for which the validation store holds a trusted
  full validation of it; no ledger counts twice, so no score exceeds 256. A server with enough history votes exactly if
  its own score exceeds 230: a server with the documented minimum of 230 validations does not vote.
\<close>

theorem scores_count_validated_ledgers:
  assumes "validations_run p (known_ledgers parent number base h) now log own s"
    and "pl_hashes prev = Some hashes" and "256 \<le> length hashes" and "seq = v_seq (pl_view prev) + 1"
  shows "(fst (buildScoreTable clock prev unl nv s) \<noteq> None \<longleftrightarrow>
       nv_myId nv \<in> set unl \<and> 230 < card (validated_ledgers s hashes seq (nv_myId nv)))
    \<and> (\<forall>table. fst (buildScoreTable clock prev unl nv s) = Some table \<longrightarrow>
         (\<forall>n \<in> set unl. \<exists>c. map_of table n = Some c \<and> c = card (validated_ledgers s hashes seq n) \<and> c \<le> 256))"
proof -
  have ok: "by_ledger_ok s" using validations_run_inv [OF rcl.ledger_history_axioms assms(1)] by blast
  note r = buildScoreTable_result [OF ok assms(2-4), of nv unl clock]
  show ?thesis
  proof (cases "nv_myId nv \<in> set unl \<and> 230 < card (validated_ledgers s hashes seq (nv_myId nv))")
    case True
    then show ?thesis using r(1) validated_ledgers_le by auto
  next
    case False
    then show ?thesis using r(2) by simp
  qed
qed

section \<open>A concrete vote\<close>

definition demo_score_validation :: "nat \<Rightarrow> Validation" where
  "demo_score_validation j = \<lparr>vl_ledgerID = of_nat j, vl_seq = 255 + j, vl_signTime = 0, vl_seenTime = 0,
     vl_key = demo_key 1, vl_trusted = True, vl_full = True, vl_nodeID = 1, vl_cookie = 0, vl_loadFee = None\<rparr>"

definition demo_scores :: Validations where
  "demo_scores = new_Validations\<lparr>byLedger := map (\<lambda>j. (of_nat j, 0, [(1, demo_score_validation j)])) [0..<256]\<rparr>"

definition demo_prev :: PrevLedger where
  "demo_prev = \<lparr>pl_view = genesis\<lparr>v_seq := 511\<rparr>, pl_hash = 0, pl_hashes = Some (map of_nat [0..<256])\<rparr>"

definition demo_nodeID :: "PublicKey \<Rightarrow> NodeID" where
  "demo_nodeID k = ucast (k ! 1)"

definition demo_txID :: "ChangeBody \<Rightarrow> uint256" where
  "demo_txID body =
     (case body of BodyUNLModify (Some d) _ (Some k) \<Rightarrow> ucast d + 2 * ucast (k ! 1) | _ \<Rightarrow> 1)"

lemma of_nat_inj_small: "i < 256 \<Longrightarrow> j < 256 \<Longrightarrow> (of_nat i :: uint256) = of_nat j \<longleftrightarrow> i = j"
  by (simp add: word_of_nat_eq_iff take_bit_nat_eq_self)

lemma demo_scores_lookup:
  assumes "j < 256"
  shows "map_of (byLedger demo_scores) (of_nat j) = Some (0, [(1, demo_score_validation j)])"
proof -
  have d: "distinct_keys (byLedger demo_scores)"
    by (auto simp: demo_scores_def comp_def distinct_map of_nat_inj_small intro!: inj_onI)
  show ?thesis
    using assms by (subst in_set_map_of [OF d, symmetric]) (auto simp: demo_scores_def)
qed

lemma demo_scores_ok: "by_ledger_ok demo_scores"
  by (auto simp: by_ledger_ok_def demo_scores_def comp_def distinct_map of_nat_inj_small demo_score_validation_def
      intro!: inj_onI)

lemma demo_validated:
  "validated_ledgers demo_scores (map of_nat [0..<256]) 512 1 = {..<256}"
  "validated_ledgers demo_scores (map of_nat [0..<256]) 512 2 = {}"
proof -
  have q: "unat (512 - 2 - of_nat i :: u32) = 510 - i" if "i < 256" for i
    using that by (simp add: unat_sub word_le_nat_alt unat_of_nat take_bit_nat_eq_self)
  have l: "map_of (byLedger demo_scores) (of_nat (255 - i)) = Some (0, [(1, demo_score_validation (255 - i))])" for i
    by (rule demo_scores_lookup) simp
  show "validated_ledgers demo_scores (map of_nat [0..<256]) 512 1 = {..<256}"
    "validated_ledgers demo_scores (map of_nat [0..<256]) 512 2 = {}"
    using q l by (auto simp: validated_ledgers_def has_validated_def demo_score_validation_def)
qed

definition demo_unl :: "PublicKey list" where
  "demo_unl = [demo_key 1, demo_key 2]"

lemma demo_unl_ids: "nodeIDs demo_nodeID demo_unl = [1, 2]" "nextNegUnlKeys (pl_view demo_prev) = []"
  by (simp_all add: nodeIDs_def demo_unl_def demo_nodeID_def demo_key_def nextNegUnlKeys_def demo_prev_def genesis_def
      negativeUNL_def validatorToDisable_def validatorToReEnable_def)

lemma demo_table:
  "fst (buildScoreTable (\<lambda>_. 0) demo_prev [1, 2] (new_NegativeUNLVote 1) demo_scores) = Some [(1, 256), (2, 0)]"
proof -
  have p: "pl_hashes demo_prev = Some (map of_nat [0..<256])" "256 \<le> length (map of_nat [0..<256] :: uint256 list)"
      "512 = v_seq (pl_view demo_prev) + 1"
    by (simp_all add: demo_prev_def genesis_def)
  obtain table where t: "fst (buildScoreTable (\<lambda>_. 0) demo_prev [1, 2] (new_NegativeUNLVote 1) demo_scores) = Some table"
      "map fst table = [1, 2]" "map_of table 1 = Some 256" "map_of table 2 = Some 0"
    using buildScoreTable_result(1) [OF demo_scores_ok p, of "new_NegativeUNLVote 1" "[1, 2]" "\<lambda>_. 0"]
    by (auto simp: demo_validated new_NegativeUNLVote_def)
  then have "table = [(1, 256), (2, 0)]" by (auto simp: Cons_eq_map_conv map_eq_Cons_conv)
  then show ?thesis using t(1) by simp
qed

lemma demo_votes:
  "\<exists>nv' s'. doVoting_NegativeUNL demo_nodeID demo_txID (\<lambda>_. 0) demo_prev demo_unl [] (new_NegativeUNLVote 1) demo_scores
     = ([unl_vote demo_txID 1 512 (demo_key 2)], nv', s')"
proof -
  obtain s1 where b: "buildScoreTable (\<lambda>_. 0) demo_prev [1, 2] (new_NegativeUNLVote 1) demo_scores
      = (Some [(1, 256), (2, 0)], s1)"
    using demo_table by (metis prod.collapse)
  have p: "v_seq (pl_view demo_prev) = 511" by (simp add: demo_prev_def)
  have k: "map_of (addKeys demo_nodeID demo_unl []) 2 = Some (demo_key 2)"
    by (simp add: addKeys_def demo_unl_def demo_nodeID_def demo_key_def emplace_def)
  show ?thesis
    unfolding doVoting_NegativeUNL_def demo_unl_ids Let_def b
    using k by (simp add: p findAllCandidates_def maxNegativeListed_def purgeNewValidators_def new_NegativeUNLVote_def
        nodeIDs_def choose_node_def addTx_vote addKeys_def)
qed

lemma demo_vote_inputs:
  "nunl_inv (pl_view demo_prev)" "isFlagLedger (v_seq (pl_view demo_prev) + 1)"
  "v_rules (pl_view demo_prev) featureNegativeUNL" "\<forall>k \<in> set demo_unl. publicKeyType k \<noteq> None"
  "inj_on demo_nodeID (set demo_unl \<union> set (nextNegUnlKeys (pl_view demo_prev)))"
  "inj_on demo_txID (vote_bodies (pl_view demo_prev) demo_unl)" "0 \<notin> demo_txID ` vote_bodies (pl_view demo_prev) demo_unl"
proof -
  show "nunl_inv (pl_view demo_prev)" "isFlagLedger (v_seq (pl_view demo_prev) + 1)"
    "v_rules (pl_view demo_prev) featureNegativeUNL" "\<forall>k \<in> set demo_unl. publicKeyType k \<noteq> None"
    by (simp_all add: demo_prev_def genesis_def nunl_inv_def isFlagLedger_def FLAG_LEDGER_INTERVAL_def demo_unl_def
        demo_key_def publicKeyType_def)
  show "inj_on demo_nodeID (set demo_unl \<union> set (nextNegUnlKeys (pl_view demo_prev)))"
    by (simp add: demo_unl_ids(2) demo_unl_def demo_nodeID_def demo_key_def)
  have b: "vote_bodies (pl_view demo_prev) demo_unl =
      (\<lambda>(d, k). BodyUNLModify (Some d) (Some 512) (Some k)) ` ({0, 1} \<times> {demo_key 1, demo_key 2})"
    unfolding vote_bodies_def demo_unl_ids(2) by (simp add: demo_unl_def demo_prev_def)
  show "inj_on demo_txID (vote_bodies (pl_view demo_prev) demo_unl)" "0 \<notin> demo_txID ` vote_bodies (pl_view demo_prev) demo_unl"
    unfolding b by (auto simp: inj_on_def demo_txID_def demo_key_def)
qed

theorem negative_unl_votes_take_effect_witness:
  "validatorToDisable (fst (buildLedger demo_cenv 2025 7 [unl_vote demo_txID 1 512 (demo_key 2)] (pl_view demo_prev, genesis_app)))
     = Some (demo_key 2)"
proof -
  obtain nv' s' where v: "doVoting_NegativeUNL demo_nodeID demo_txID (\<lambda>_. 0) demo_prev demo_unl [] (new_NegativeUNLVote 1)
      demo_scores = ([unl_vote demo_txID 1 512 (demo_key 2)], nv', s')"
    using demo_votes by blast
  have q: "v_seq (pl_view demo_prev) + 1 = 512" by (simp add: demo_prev_def)
  have e: "unl_vote demo_txID d 512 k = unl_vote demo_txID d' 512 k' \<longleftrightarrow> d = d' \<and> k = k'" for d d' k k'
    by (auto simp: unl_vote_def pseudo_tx_def Let_def)
  show ?thesis
    using negative_unl_votes_take_effect [OF demo_vote_inputs v refl, of demo_cenv 2025 7 genesis_app] unfolding q
    by (auto simp: unl_votes_def e split: option.splits)
qed

theorem negative_unl_stays_small_witness:
  "card (set demo_unl \<inter> set (nextNegUnlKeys (fst (buildLedger demo_cenv 2025 7 [unl_vote demo_txID 1 512 (demo_key 2)]
     (pl_view demo_prev, genesis_app))))) \<le> 1"
proof -
  obtain nv' s' where v: "doVoting_NegativeUNL demo_nodeID demo_txID (\<lambda>_. 0) demo_prev demo_unl [] (new_NegativeUNLVote 1)
      demo_scores = ([unl_vote demo_txID 1 512 (demo_key 2)], nv', s')"
    using demo_votes by blast
  have "card (set demo_unl) = 2" by (simp add: demo_unl_def demo_key_def)
  then show ?thesis
    using negative_unl_stays_small [OF demo_vote_inputs v refl, of demo_cenv 2025 7 genesis_app]
    by (simp add: demo_unl_ids(2) maxNegativeListed_def)
qed

theorem negative_unl_votes_justified_witness:
  "card (validated_ledgers demo_scores (map of_nat [0..<256]) 512 (demo_nodeID (demo_key 2))) < 128"
proof -
  obtain nv' s' where v: "doVoting_NegativeUNL demo_nodeID demo_txID (\<lambda>_. 0) demo_prev demo_unl [] (new_NegativeUNLVote 1)
      demo_scores = ([unl_vote demo_txID 1 512 (demo_key 2)], nv', s')"
    using demo_votes by blast
  have q: "512 = v_seq (pl_view demo_prev) + 1" by (simp add: demo_prev_def)
  have e: "unl_vote demo_txID d 512 k = unl_vote demo_txID d' 512 k' \<longleftrightarrow> d = d' \<and> k = k'" for d d' k k'
    by (auto simp: unl_vote_def pseudo_tx_def Let_def)
  show ?thesis
    using negative_unl_votes_justified [OF demo_scores_ok demo_vote_inputs(5,6) v, of "unl_vote demo_txID 1 512 (demo_key 2)" 512, OF _ q]
    by (auto simp: e demo_unl_ids(2) demo_prev_def)
qed

end
