(* ===== verification/Fee_Vote.thy ===== *)
theory Fee_Vote
  imports Change_Tx
begin

text \<open>
  The vote on the fee schedule (\<^verbatim>\<open>src/xrpld/app/misc/FeeVoteImpl.cpp\<close>): a validator puts the values it wants into
  its validations, and after a flag ledger every server proposes, for each of the three values, the most voted one
  between the current setting and its own target.

  \<^item> Amounts of drops are integers; every amount that is counted is legal, hence far within 64 bits.
  \<^item> The \<^verbatim>\<open>std::map\<close> of votes is an association list in ascending order of its keys.
  \<^item> An amount field of a validation carries whether it is native. Only the fee fields of a validation occur here.
  \<^item> \<open>txID\<close>, the hash of a transaction, is an argument.
\<close>

section \<open>Model\<close>

definition isLegalAmountSigned :: "int \<Rightarrow> bool" where
  "isLegalAmountSigned amount \<longleftrightarrow> - INITIAL_XRP \<le> amount \<and> amount \<le> INITIAL_XRP"

definition dropsAs :: "int \<Rightarrow> 'a :: len word option" where
  "dropsAs drops =
     (if 2 ^ LENGTH('a) - 1 < drops then None else if drops < 0 then None else Some (word_of_int drops))"

definition dropsAs_default :: "int \<Rightarrow> int \<Rightarrow> 'a :: len word" where
  "dropsAs_default dflt drops = (case dropsAs drops of Some v \<Rightarrow> v | None \<Rightarrow> word_of_int dflt)"

record Fees =
  fee_base :: int
  fee_reserve :: int
  fee_increment :: int

definition accountReserve :: "Fees \<Rightarrow> nat \<Rightarrow> int" where
  "accountReserve f ownerCount = fee_reserve f + int ownerCount * fee_increment f"

record FeeSetup =
  reference_fee :: int
  account_reserve :: int
  owner_reserve :: int

definition FEE_UNITS_DEPRECATED :: u32 where
  "FEE_UNITS_DEPRECATED = 10"

record FeeValidation =
  fv_trusted :: bool
  fv_BaseFee :: "u64 option"
  fv_ReserveBase :: "u32 option"
  fv_ReserveIncrement :: "u32 option"
  fv_BaseFeeDrops :: "(bool \<times> int) option"
  fv_ReserveBaseDrops :: "(bool \<times> int) option"
  fv_ReserveIncrementDrops :: "(bool \<times> int) option"

record VotableValue =
  vv_current :: int
  vv_target :: int
  voteMap :: "(int \<times> nat) list"

definition new_VotableValue :: "int \<Rightarrow> int \<Rightarrow> VotableValue" where
  "new_VotableValue cur target = \<lparr>vv_current = cur, vv_target = target, voteMap = increment_at target []\<rparr>"

definition addVote :: "int \<Rightarrow> VotableValue \<Rightarrow> VotableValue" where
  "addVote vote v = v\<lparr>voteMap := increment_at vote (voteMap v)\<rparr>"

definition noVote :: "VotableValue \<Rightarrow> VotableValue" where
  "noVote v = addVote (vv_current v) v"

definition getVotes :: "VotableValue \<Rightarrow> int \<times> bool" where
  "getVotes v =
     (let ourVote = fst (fold (\<lambda>(key, val) (ourVote, weight).
              if key \<le> max (vv_target v) (vv_current v) \<and> min (vv_target v) (vv_current v) \<le> key \<and> weight < val
              then (key, val) else (ourVote, weight)) (voteMap v) (vv_current v, 0))
      in (ourVote, ourVote \<noteq> vv_current v))"

definition vote_drops :: "int \<Rightarrow> int \<Rightarrow> (bool \<times> int) option \<Rightarrow> (bool \<times> int) option" where
  "vote_drops cur target field = (if cur \<noteq> target then Some (True, target) else field)"

definition vote_word :: "int \<Rightarrow> int \<Rightarrow> 'a :: len word option \<Rightarrow> 'a word option" where
  "vote_word cur target field =
     (if cur \<noteq> target then case dropsAs target of Some f \<Rightarrow> Some f | None \<Rightarrow> field else field)"

definition doValidation :: "FeeSetup \<Rightarrow> Fees \<Rightarrow> Rules \<Rightarrow> FeeValidation \<Rightarrow> FeeValidation" where
  "doValidation target lastFees rules v =
     (if rules featureXRPFees
      then v\<lparr>fv_BaseFeeDrops := vote_drops (fee_base lastFees) (reference_fee target) (fv_BaseFeeDrops v),
             fv_ReserveBaseDrops := vote_drops (accountReserve lastFees 0) (account_reserve target) (fv_ReserveBaseDrops v),
             fv_ReserveIncrementDrops := vote_drops (fee_increment lastFees) (owner_reserve target) (fv_ReserveIncrementDrops v)\<rparr>
      else v\<lparr>fv_BaseFee := vote_word (fee_base lastFees) (reference_fee target) (fv_BaseFee v),
             fv_ReserveBase := vote_word (accountReserve lastFees 0) (account_reserve target) (fv_ReserveBase v),
             fv_ReserveIncrement := vote_word (fee_increment lastFees) (owner_reserve target) (fv_ReserveIncrement v)\<rparr>)"

definition doVote_drops :: "(bool \<times> int) option \<Rightarrow> VotableValue \<Rightarrow> VotableValue" where
  "doVote_drops field value =
     (case field of
        Some (native, vote) \<Rightarrow>
          if native then (if isLegalAmountSigned vote then addVote vote value else noVote value) else noVote value
      | None \<Rightarrow> noVote value)"

definition doVote_word :: "'a :: len word option \<Rightarrow> VotableValue \<Rightarrow> VotableValue" where
  "doVote_word field value =
     (case field of
        Some vote \<Rightarrow>
          if uint vote \<le> 2 ^ 63 - 1 \<and> isLegalAmountSigned (uint vote) then addVote (uint vote) value else noVote value
      | None \<Rightarrow> noVote value)"

text \<open>The loop over the validations, for the three values.\<close>

definition count_validation ::
  "Rules \<Rightarrow> FeeValidation \<Rightarrow> VotableValue \<times> VotableValue \<times> VotableValue
     \<Rightarrow> VotableValue \<times> VotableValue \<times> VotableValue" where
  "count_validation rules val = (\<lambda>(b, r, i).
     if \<not> fv_trusted val then (b, r, i)
     else if rules featureXRPFees
     then (doVote_drops (fv_BaseFeeDrops val) b, doVote_drops (fv_ReserveBaseDrops val) r,
           doVote_drops (fv_ReserveIncrementDrops val) i)
     else (doVote_word (fv_BaseFee val) b, doVote_word (fv_ReserveBase val) r,
           doVote_word (fv_ReserveIncrement val) i))"

definition fee_votes ::
  "FeeSetup \<Rightarrow> Fees \<Rightarrow> Rules \<Rightarrow> FeeValidation list \<Rightarrow> VotableValue \<times> VotableValue \<times> VotableValue" where
  "fee_votes target fees rules validations =
     fold (count_validation rules) validations
       (new_VotableValue (fee_base fees) (reference_fee target),
        new_VotableValue (accountReserve fees 0) (account_reserve target),
        new_VotableValue (fee_increment fees) (owner_reserve target))"

definition feeTx_body :: "Rules \<Rightarrow> Fees \<Rightarrow> int \<Rightarrow> int \<Rightarrow> int \<Rightarrow> FeeSettings" where
  "feeTx_body rules fees b r i =
     (if rules featureXRPFees
      then \<lparr>fs_BaseFee = None, fs_ReferenceFeeUnits = None, fs_ReserveBase = None, fs_ReserveIncrement = None,
            fs_BaseFeeDrops = Some (True, b), fs_ReserveBaseDrops = Some (True, r), fs_ReserveIncrementDrops = Some (True, i)\<rparr>
      else \<lparr>fs_BaseFee = Some (dropsAs_default (fee_base fees) b), fs_ReferenceFeeUnits = Some FEE_UNITS_DEPRECATED,
            fs_ReserveBase = Some (dropsAs_default (accountReserve fees 0) r),
            fs_ReserveIncrement = Some (dropsAs_default (fee_increment fees) i),
            fs_BaseFeeDrops = None, fs_ReserveBaseDrops = None, fs_ReserveIncrementDrops = None\<rparr>)"

text \<open>
  The vote after the flag ledger \<open>seq\<close>; on any other ledger the assertion fails. The transaction is for the next ledger, whose sequence
  number is part of what \<open>txID\<close> hashes.
\<close>

definition doVoting_fees ::
  "(u32 \<Rightarrow> ChangeBody \<Rightarrow> uint256) \<Rightarrow> FeeSetup \<Rightarrow> u32 \<Rightarrow> Fees \<Rightarrow> Rules \<Rightarrow> FeeValidation list \<Rightarrow> ChangeTx list
     \<Rightarrow> ChangeTx list option" where
  "doVoting_fees txID target seq fees rules validations initialPosition =
     (if \<not> isFlagLedger seq then None
      else Some (let (bv, rv, iv) = fee_votes target fees rules validations;
                     baseFee = getVotes bv; baseReserve = getVotes rv; incReserve = getVotes iv
                 in if snd baseFee \<or> snd baseReserve \<or> snd incReserve
                    then let body = BodyFee (feeTx_body rules fees (fst baseFee) (fst baseReserve) (fst incReserve));
                             tx = pseudo_tx ttFEE None (txID (seq + 1) body) 0 body
                         in if tx_ID tx \<in> tx_ID ` set initialPosition then initialPosition else initialPosition @ [tx]
                    else initialPosition))"

text \<open>
  The fees of a ledger, read from its fee object in \<^verbatim>\<open>Ledger::setup\<close>; fields that are absent or not native keep the previous
  values, an old base fee is converted to a signed amount, and the flag tells whether the object is consistent.
\<close>

definition assign_fee :: "(bool \<times> int) option \<Rightarrow> int \<Rightarrow> int" where
  "assign_fee src dest = (case src of Some (native, d) \<Rightarrow> if native then d else dest | None \<Rightarrow> dest)"

definition setup_fees :: "Rules \<Rightarrow> FeeSettings option \<Rightarrow> Fees \<Rightarrow> bool \<times> Fees" where
  "setup_fees rules sle fees =
     (case sle of
        None \<Rightarrow> (True, fees)
      | Some f \<Rightarrow>
          let base = (case fs_BaseFee f of Some b \<Rightarrow> sint b | None \<Rightarrow> fee_base fees);
              reserve = (case fs_ReserveBase f of Some r \<Rightarrow> uint r | None \<Rightarrow> fee_reserve fees);
              increment = (case fs_ReserveIncrement f of Some i \<Rightarrow> uint i | None \<Rightarrow> fee_increment fees);
              oldFees = (fs_BaseFee f \<noteq> None \<or> fs_ReserveBase f \<noteq> None \<or> fs_ReserveIncrement f \<noteq> None);
              newFees = (fs_BaseFeeDrops f \<noteq> None \<or> fs_ReserveBaseDrops f \<noteq> None \<or> fs_ReserveIncrementDrops f \<noteq> None);
              native = (\<lambda>src. case src of Some (n, _) \<Rightarrow> n | None \<Rightarrow> True)
          in (native (fs_BaseFeeDrops f) \<and> native (fs_ReserveBaseDrops f) \<and> native (fs_ReserveIncrementDrops f)
                \<and> \<not> (oldFees \<and> newFees) \<and> \<not> (\<not> rules featureXRPFees \<and> newFees),
              \<lparr>fee_base = assign_fee (fs_BaseFeeDrops f) base,
               fee_reserve = assign_fee (fs_ReserveBaseDrops f) reserve,
               fee_increment = assign_fee (fs_ReserveIncrementDrops f) increment\<rparr>))"

section \<open>Counting votes\<close>

definition between :: "int \<Rightarrow> int \<Rightarrow> int \<Rightarrow> bool" where
  "between a b x \<longleftrightarrow> min a b \<le> x \<and> x \<le> max a b"

text \<open>The most frequent element of a bag between two bounds, the smallest of several.\<close>

definition most_voted :: "int \<Rightarrow> int \<Rightarrow> int multiset \<Rightarrow> int \<Rightarrow> bool" where
  "most_voted a b M r \<longleftrightarrow> between a b r \<and> r \<in># M
     \<and> (\<forall>x. between a b x \<longrightarrow> count M x < count M r \<or> count M x = count M r \<and> r \<le> x)"

definition vote_fold :: "(int \<Rightarrow> bool) \<Rightarrow> (int \<times> nat) list \<Rightarrow> int \<times> nat \<Rightarrow> int \<times> nat" where
  "vote_fold ok m s = fold (\<lambda>(key, val) (v, w). if ok key \<and> w < val then (key, val) else (v, w)) m s"

lemma vote_fold_spec:
  assumes "sorted_wrt (<) (map fst m)" and "vote_fold ok m (v0, w0) = (v, w)"
  shows "w0 \<le> w \<and> (\<forall>(k, c) \<in> set m. ok k \<longrightarrow> c \<le> w)
    \<and> ((v, w) = (v0, w0) \<or> (v, w) \<in> set m \<and> ok v \<and> w0 < w \<and> (\<forall>(k, c) \<in> set m. ok k \<and> c = w \<longrightarrow> v \<le> k))"
  using assms
proof (induction m arbitrary: v0 w0)
  case Nil
  then show ?case by (simp add: vote_fold_def)
next
  case (Cons e m)
  obtain k c where e: "e = (k, c)" by fastforce
  have lt: "\<forall>(k', _) \<in> set m. k < k'" using Cons.prems(1) e by auto
  let ?s = "if ok k \<and> w0 < c then (k, c) else (v0, w0)"
  have f: "vote_fold ok m (fst ?s, snd ?s) = (v, w)" using Cons.prems(2) e by (simp add: vote_fold_def)
  have "sorted_wrt (<) (map fst m)" using Cons.prems(1) by simp
  from Cons.IH [OF this f] show ?case
    using lt e by (auto split: if_splits)
qed

lemma getVotes_most_voted:
  assumes "tallies (voteMap v) M" and "vv_target v \<in># M"
  shows "most_voted (vv_target v) (vv_current v) M (fst (getVotes v))"
    and "snd (getVotes v) \<longleftrightarrow> fst (getVotes v) \<noteq> vv_current v"
proof -
  let ?ok = "between (vv_target v) (vv_current v)"
  obtain r w where f: "vote_fold ?ok (voteMap v) (vv_current v, 0) = (r, w)" by fastforce
  have g: "getVotes v = (r, r \<noteq> vv_current v)"
    using f by (simp add: getVotes_def vote_fold_def between_def Let_def conj_ac split_beta)
  have s: "sorted_wrt (<) (map fst (voteMap v))" and pos: "\<And>k c. (k, c) \<in> set (voteMap v) \<Longrightarrow> 0 < c"
    and cnt: "\<And>k. count M k = (case map_of (voteMap v) k of None \<Rightarrow> 0 | Some c \<Rightarrow> c)"
    using assms(1) by (auto simp: tallies_def)
  have d: "distinct_keys (voteMap v)" using s strict_sorted_iff by blast
  have e: "(k, c) \<in> set (voteMap v) \<longleftrightarrow> 0 < c \<and> count M k = c" for k c
    using in_set_map_of [OF d] pos cnt by (auto split: option.splits)
  note sp = vote_fold_spec [OF s f]
  have le: "count M x \<le> w" if "?ok x" for x
    using sp e [of x "count M x"] that by (cases "count M x = 0") auto
  have t: "?ok (vv_target v)" "0 < count M (vv_target v)" using assms(2) by (auto simp: between_def)
  then have w: "0 < w" using le [of "vv_target v"] by linarith
  then have in_m: "(r, w) \<in> set (voteMap v)" "?ok r" and least: "\<forall>(k, c) \<in> set (voteMap v). ?ok k \<and> c = w \<longrightarrow> r \<le> k"
    using sp by auto
  then have r: "?ok r" "count M r = w" using e by simp_all
  moreover have "count M x < w \<or> count M x = w \<and> r \<le> x" if "?ok x" for x
  proof (cases "count M x = w")
    case True
    then have "(x, w) \<in> set (voteMap v)" using e w by simp
    then show ?thesis using least that True by auto
  qed (use le [OF that] in simp)
  ultimately show "most_voted (vv_target v) (vv_current v) M (fst (getVotes v))"
    using w unfolding most_voted_def g by (auto simp: count_greater_zero_iff [symmetric])
  show "snd (getVotes v) \<longleftrightarrow> fst (getVotes v) \<noteq> vv_current v" by (simp add: g)
qed

text \<open>The vote that a validation counts for, when the current setting is \<open>cur\<close>.\<close>

definition drops_vote :: "int \<Rightarrow> (bool \<times> int) option \<Rightarrow> int" where
  "drops_vote cur field =
     (case field of Some (native, v) \<Rightarrow> if native \<and> isLegalAmountSigned v then v else cur | None \<Rightarrow> cur)"

definition word_vote :: "int \<Rightarrow> 'a :: len word option \<Rightarrow> int" where
  "word_vote cur field =
     (case field of Some v \<Rightarrow> if isLegalAmountSigned (uint v) then uint v else cur | None \<Rightarrow> cur)"

lemma doVote_adds:
  "doVote_drops f v = addVote (drops_vote (vv_current v) f) v"
  "doVote_word g v = addVote (word_vote (vv_current v) g) v"
  by (auto simp: doVote_drops_def drops_vote_def doVote_word_def word_vote_def noVote_def isLegalAmountSigned_def
      INITIAL_XRP_def split: option.splits)

lemma addVote_frame [simp]: "vv_current (addVote k v) = vv_current v" "vv_target (addVote k v) = vv_target v"
  by (simp_all add: addVote_def)

lemma fold_addVote:
  "tallies (voteMap v) M \<Longrightarrow> tallies (voteMap (fold addVote ks v)) (mset ks + M)"
  "vv_current (fold addVote ks v) = vv_current v" "vv_target (fold addVote ks v) = vv_target v"
proof -
  show "tallies (voteMap v) M \<Longrightarrow> tallies (voteMap (fold addVote ks v)) (mset ks + M)"
  proof (induction ks arbitrary: v M)
    case (Cons k ks)
    have "tallies (voteMap (addVote k v)) (add_mset k M)"
      using Cons.prems tallies_increment by (simp add: addVote_def)
    from Cons.IH [OF this] show ?case by simp
  qed simp
  show "vv_current (fold addVote ks v) = vv_current v" "vv_target (fold addVote ks v) = vv_target v"
    by (induction ks arbitrary: v) simp_all
qed

definition base_vote :: "Rules \<Rightarrow> Fees \<Rightarrow> FeeValidation \<Rightarrow> int" where
  "base_vote rules fees val =
     (if rules featureXRPFees then drops_vote (fee_base fees) (fv_BaseFeeDrops val)
      else word_vote (fee_base fees) (fv_BaseFee val))"

definition reserve_vote :: "Rules \<Rightarrow> Fees \<Rightarrow> FeeValidation \<Rightarrow> int" where
  "reserve_vote rules fees val =
     (if rules featureXRPFees then drops_vote (accountReserve fees 0) (fv_ReserveBaseDrops val)
      else word_vote (accountReserve fees 0) (fv_ReserveBase val))"

definition increment_vote_of :: "Rules \<Rightarrow> Fees \<Rightarrow> FeeValidation \<Rightarrow> int" where
  "increment_vote_of rules fees val =
     (if rules featureXRPFees then drops_vote (fee_increment fees) (fv_ReserveIncrementDrops val)
      else word_vote (fee_increment fees) (fv_ReserveIncrement val))"

lemma fee_votes_eq:
  "fee_votes target fees rules vals =
     (fold addVote (map (base_vote rules fees) (filter fv_trusted vals)) (new_VotableValue (fee_base fees) (reference_fee target)),
      fold addVote (map (reserve_vote rules fees) (filter fv_trusted vals)) (new_VotableValue (accountReserve fees 0) (account_reserve target)),
      fold addVote (map (increment_vote_of rules fees) (filter fv_trusted vals)) (new_VotableValue (fee_increment fees) (owner_reserve target)))"
proof -
  have "fold (count_validation rules) vals (b, r, i) =
      (fold addVote (map (base_vote rules fees) (filter fv_trusted vals)) b,
       fold addVote (map (reserve_vote rules fees) (filter fv_trusted vals)) r,
       fold addVote (map (increment_vote_of rules fees) (filter fv_trusted vals)) i)"
    if "vv_current b = fee_base fees" "vv_current r = accountReserve fees 0" "vv_current i = fee_increment fees" for b r i
    using that
    by (induction vals arbitrary: b r i)
      (simp_all add: count_validation_def base_vote_def reserve_vote_def increment_vote_of_def doVote_adds)
  then show ?thesis by (simp add: fee_votes_def new_VotableValue_def)
qed

lemma new_value_tallies: "tallies (voteMap (new_VotableValue cur target)) {#target#}"
  by (auto simp: tallies_def new_VotableValue_def)

lemma position_of:
  fixes ks :: "int list" and cur target :: int
  defines "v \<equiv> fold addVote ks (new_VotableValue cur target)"
  shows "most_voted target cur (add_mset target (mset ks)) (fst (getVotes v))"
    and "snd (getVotes v) \<longleftrightarrow> fst (getVotes v) \<noteq> cur"
  using getVotes_most_voted [of v "add_mset target (mset ks)"] fold_addVote(1) [OF new_value_tallies, of ks cur target]
  unfolding v_def by (simp_all add: fold_addVote(2,3) new_VotableValue_def)

section \<open>Properties\<close>

text \<open>
  C20. For each of the three settings the position a server takes is the most voted value between the current setting
  and its own target, the smallest of several. Its own target counts once, every trusted validation counts once, and
  one without a usable value counts for the current setting.
\<close>

theorem fee_position_is_most_voted:
  assumes "fee_votes target fees rules vals = (bv, rv, iv)" and "T = filter fv_trusted vals"
  shows "most_voted (reference_fee target) (fee_base fees)
           (add_mset (reference_fee target) (mset (map (base_vote rules fees) T))) (fst (getVotes bv))
    \<and> most_voted (account_reserve target) (accountReserve fees 0)
           (add_mset (account_reserve target) (mset (map (reserve_vote rules fees) T))) (fst (getVotes rv))
    \<and> most_voted (owner_reserve target) (fee_increment fees)
           (add_mset (owner_reserve target) (mset (map (increment_vote_of rules fees) T))) (fst (getVotes iv))"
  using assms(1) unfolding fee_votes_eq assms(2) prod.inject by (elim conjE) (hypsubst, intro conjI position_of(1))

definition demo_fees :: Fees where
  "demo_fees = \<lparr>fee_base = 10, fee_reserve = 10000000, fee_increment = 2000000\<rparr>"

definition demo_target :: FeeSetup where
  "demo_target = \<lparr>reference_fee = 12, account_reserve = 1000000, owner_reserve = 2000000\<rparr>"

definition blank :: FeeValidation where
  "blank = \<lparr>fv_trusted = True, fv_BaseFee = None, fv_ReserveBase = None, fv_ReserveIncrement = None,
     fv_BaseFeeDrops = None, fv_ReserveBaseDrops = None, fv_ReserveIncrementDrops = None\<rparr>"

definition demo_vals :: "FeeValidation list" where
  "demo_vals = [doValidation demo_target demo_fees (\<lambda>_. True) blank, blank\<lparr>fv_BaseFeeDrops := Some (True, 11)\<rparr>,
     blank\<lparr>fv_BaseFeeDrops := Some (True, 11)\<rparr>, blank\<lparr>fv_BaseFeeDrops := Some (True, 50), fv_trusted := False\<rparr>]"

lemmas fee_eval = demo_fees_def demo_target_def blank_def demo_vals_def doValidation_def vote_drops_def accountReserve_def
  fee_votes_def new_VotableValue_def count_validation_def doVote_drops_def addVote_def noVote_def getVotes_def
  isLegalAmountSigned_def INITIAL_XRP_def Let_def

theorem fee_position_is_most_voted_witness:
  "\<exists>bv rv iv. fee_votes demo_target demo_fees (\<lambda>_. True) demo_vals = (bv, rv, iv) \<and> fst (getVotes bv) = 11
     \<and> most_voted 12 10 {#12, 12, 11, 11#} 11"
proof -
  obtain bv rv iv where v: "fee_votes demo_target demo_fees (\<lambda>_. True) demo_vals = (bv, rv, iv)" by (metis prod_cases3)
  then have "fst (getVotes bv) = 11" by (auto simp: fee_eval)
  then show ?thesis
    using fee_position_is_most_voted [OF v refl] v
    by (simp add: fee_eval base_vote_def drops_vote_def add_mset_commute)
qed

text \<open>
  What a validator puts into its validation is what the other servers count: for legal targets (and, before the
  amendment on XRP fees, targets that fit the fields) the validation counts for exactly the validator's targets.
\<close>

theorem fee_vote_roundtrip:
  assumes "\<forall>x \<in> {reference_fee target, account_reserve target, owner_reserve target}. isLegalAmountSigned x"
    and "\<not> rules featureXRPFees \<longrightarrow> 0 \<le> reference_fee target
          \<and> 0 \<le> account_reserve target \<and> account_reserve target < 2 ^ 32
          \<and> 0 \<le> owner_reserve target \<and> owner_reserve target < 2 ^ 32"
    and "val = doValidation target fees rules (blank\<lparr>fv_trusted := trusted\<rparr>)"
  shows "base_vote rules fees val = reference_fee target \<and> reserve_vote rules fees val = account_reserve target
    \<and> increment_vote_of rules fees val = owner_reserve target"
proof (cases "rules featureXRPFees")
  case True
  then show ?thesis
    using assms(1,3) by (simp add: base_vote_def reserve_vote_def increment_vote_of_def doValidation_def vote_drops_def
        blank_def drops_vote_def)
next
  case False
  have w: "word_vote cur (vote_word cur t (None :: 'a :: len word option)) = t"
    if "0 \<le> t" "t < 2 ^ LENGTH('a)" "isLegalAmountSigned t" for cur t
    using that by (auto simp: word_vote_def vote_word_def dropsAs_def uint_word_of_int_eq take_bit_int_eq_self)
  have "reference_fee target < 2 ^ 64"
    using assms(1) by (simp add: isLegalAmountSigned_def INITIAL_XRP_def)
  then show ?thesis
    using False assms by (simp add: base_vote_def reserve_vote_def increment_vote_of_def doValidation_def blank_def w)
qed

section \<open>The vote on the next ledger\<close>

lemma sint_uint_nonneg: "uint w < 2 ^ 63 \<Longrightarrow> sint w = uint w" for w :: u64
proof -
  assume "uint w < 2 ^ 63"
  moreover have "- (2 ^ 63) \<le> uint w" by (rule order_trans [of _ 0]) simp_all
  ultimately show ?thesis unfolding sint_uint by (intro signed_take_bit_int_eq_self) simp_all
qed

lemma uint_dropsAs_default:
  assumes "0 \<le> c" "c < 2 ^ LENGTH('a)"
  shows "uint (dropsAs_default c x :: 'a :: len word) = (if 0 \<le> x \<and> x < 2 ^ LENGTH('a) then x else c)"
  using assms by (auto simp: dropsAs_default_def dropsAs_def uint_word_of_int_eq take_bit_int_eq_self)

lemma process_fee:
  assumes "\<not> v_open view" "txid \<noteq> 0"
  shows "process_change env nid (pseudo_tx ttFEE None txid 0
      (BodyFee (feeTx_body (v_rules view) fees b r i))) (view, app) =
    (tesSUCCESS, snd (applyFee (feeTx_body (v_rules view) fees b r i) view), app)"
proof -
  let ?f = "feeTx_body (v_rules view) fees b r i"
  let ?tx = "pseudo_tx ttFEE None txid 0 (BodyFee ?f)"
  have tx: "tx_Type ?tx = ttFEE" "tx_body ?tx = BodyFee ?f" by (simp_all add: pseudo_tx_def)
  have "invokePreflight_Change (v_rules view) nid ?tx = tesSUCCESS"
    using assms(2) by (simp add: invokePreflight_Change_def preflight0_def isPseudoTx_def isFlag_def pseudo_tx_def
        tfInnerBatchTxn_def Let_def)
  moreover have "preclaim_fee (v_rules view) ?f = tesSUCCESS"
    by (simp add: preclaim_fee_def feeTx_body_def)
  then have "preclaim view ?tx = tesSUCCESS" using assms(1) by (simp add: preclaim_def tx)
  moreover have "doApply env ?tx view app = (tesSUCCESS, snd (applyFee ?f view), app)"
    by (simp add: doApply_def tx applyFee_def Let_def)
  ultimately show ?thesis by (simp add: process_change_def Let_def)
qed

lemma startLedger_fees [simp]: "v_fees (startLedger t view) = v_fees view" "\<not> v_open (startLedger t view)"
  by (simp_all add: startLedger_def Let_def updateNegativeUNL_eq split: option.split)

text \<open>
  C19. A fee vote takes effect. After a flag ledger a server proposes a fee transaction exactly if one of its positions differs from the
  current settings. If what it proposes is in the next ledger, the fees of that ledger are the positions of the vote; without the
  amendment on XRP fees, the positions that fit their fields, and the old settings otherwise. The fee object
  stays consistent, and it is not touched where nothing is proposed.
\<close>

theorem fee_vote_takes_effect:
  assumes "setup_fees rules (v_fees view) fees = (True, fees)" and "rules = v_rules view" and "isFlagLedger (v_seq view)"
    and "\<forall>q b. txID q b \<noteq> 0" and "fee_votes target fees rules vals = (bv, rv, iv)"
    and "doVoting_fees txID target (v_seq view) fees rules vals [] = Some txs"
    and "view' = fst (buildLedger env nid t txs (view, app))"
    and "\<not> rules featureXRPFees \<longrightarrow>
      0 \<le> fee_base fees \<and> fee_base fees < 2 ^ 63 \<and> reference_fee target < 2 ^ 63 \<and> 0 \<le> fee_reserve fees \<and> fee_reserve fees < 2 ^ 32
      \<and> 0 \<le> fee_increment fees \<and> fee_increment fees < 2 ^ 32"
    and "clip = (\<lambda>n cur x. if rules featureXRPFees \<or> 0 \<le> x \<and> x < 2 ^ n then x else cur)"
  shows "(txs = [] \<longleftrightarrow> fst (getVotes bv) = fee_base fees \<and> fst (getVotes rv) = fee_reserve fees
            \<and> fst (getVotes iv) = fee_increment fees)
    \<and> (txs = [] \<longrightarrow> v_fees view' = v_fees view)
    \<and> setup_fees rules (v_fees view') fees =
        (True, \<lparr>fee_base = clip 64 (fee_base fees) (fst (getVotes bv)),
                fee_reserve = clip 32 (fee_reserve fees) (fst (getVotes rv)),
                fee_increment = clip 32 (fee_increment fees) (fst (getVotes iv))\<rparr>)"
proof -
  have ar: "accountReserve fees 0 = fee_reserve fees" by (simp add: accountReserve_def)
  have ch: "snd (getVotes bv) \<longleftrightarrow> fst (getVotes bv) \<noteq> fee_base fees" "snd (getVotes rv) \<longleftrightarrow> fst (getVotes rv) \<noteq> fee_reserve fees"
    "snd (getVotes iv) \<longleftrightarrow> fst (getVotes iv) \<noteq> fee_increment fees"
    using assms(5) position_of(2) ar by (auto simp: fee_votes_eq)
  have "most_voted (reference_fee target) (fee_base fees)
      (add_mset (reference_fee target) (mset (map (base_vote rules fees) (filter fv_trusted vals)))) (fst (getVotes bv))"
    using assms(5) position_of(1) unfolding fee_votes_eq prod.inject by (elim conjE) hypsubst
  then have bb: "fst (getVotes bv) \<le> max (fee_base fees) (reference_fee target)" by (auto simp: most_voted_def between_def)
  let ?f = "feeTx_body rules fees (fst (getVotes bv)) (fst (getVotes rv)) (fst (getVotes iv))"
  show ?thesis
  proof (cases "snd (getVotes bv) \<or> snd (getVotes rv) \<or> snd (getVotes iv)")
    case False
    then have txs: "txs = []" using assms(3,5,6) by (simp add: doVoting_fees_def)
    then have "view' = startLedger t view" using assms(7) by (simp add: buildLedger_def)
    moreover have "clip n c c = c" for n c using assms(9) by simp
    ultimately show ?thesis using False ch assms(1) txs by simp
  next
    case True
    let ?v = "startLedger t view" and ?id = "txID (v_seq view + 1) (BodyFee ?f)"
    have r: "v_rules ?v = rules" using assms(2) by simp
    have txs: "txs = [pseudo_tx ttFEE None ?id 0 (BodyFee ?f)]"
      using True assms(3,5,6) by (simp add: doVoting_fees_def Let_def)
    then have v': "view' = snd (applyFee ?f ?v)"
      using assms(4,7) process_fee [of ?v ?id env nid fees "fst (getVotes bv)" "fst (getVotes rv)" "fst (getVotes iv)" app]
      by (simp add: buildLedger_def assms(2) [symmetric])
    have "setup_fees rules (v_fees view') fees =
        (True, \<lparr>fee_base = clip 64 (fee_base fees) (fst (getVotes bv)),
                fee_reserve = clip 32 (fee_reserve fees) (fst (getVotes rv)),
                fee_increment = clip 32 (fee_increment fees) (fst (getVotes iv))\<rparr>)"
    proof (cases "rules featureXRPFees")
      case True
      then show ?thesis
        using r assms(9) by (simp add: v' applyFee_def feeTx_body_def setup_fees_def assign_fee_def Let_def)
    next
      case False
      then have lt: "0 \<le> fee_base fees" "fee_base fees < 2 ^ 63" "fst (getVotes bv) < 2 ^ 63" using assms(8) bb by auto
      have "sint (dropsAs_default (fee_base fees) (fst (getVotes bv)) :: u64) = clip 64 (fee_base fees) (fst (getVotes bv))"
      proof -
        have "uint (dropsAs_default (fee_base fees) (fst (getVotes bv)) :: u64) = clip 64 (fee_base fees) (fst (getVotes bv))"
          using uint_dropsAs_default [where 'a = 64, of "fee_base fees" "fst (getVotes bv)"] lt False assms(9) by simp
        moreover have "clip 64 (fee_base fees) (fst (getVotes bv)) < 2 ^ 63" using lt False assms(9) by simp
        ultimately show ?thesis by (simp add: sint_uint_nonneg)
      qed
      moreover have "uint (dropsAs_default (fee_reserve fees) (fst (getVotes rv)) :: u32) = clip 32 (fee_reserve fees) (fst (getVotes rv))"
        "uint (dropsAs_default (fee_increment fees) (fst (getVotes iv)) :: u32) = clip 32 (fee_increment fees) (fst (getVotes iv))"
        using assms(8,9) False by (simp_all add: uint_dropsAs_default)
      moreover have "fs_BaseFeeDrops f = None \<and> fs_ReserveBaseDrops f = None \<and> fs_ReserveIncrementDrops f = None"
        if "v_fees view = Some f" for f
        using assms(1) False that by (simp add: setup_fees_def Let_def del: not_None_eq)
      ultimately show ?thesis
        using r ar False by (cases "v_fees view") (simp_all add: v' applyFee_def feeTx_body_def setup_fees_def assign_fee_def Let_def)
    qed
    then show ?thesis using txs True ch by auto
  qed
qed

theorem fee_vote_takes_effect_witness:
  "let view = genesis\<lparr>v_seq := 256, v_fees := Some (feeTx_body (\<lambda>_. True) demo_fees 10 10000000 2000000)\<rparr> in
   \<exists>txs. doVoting_fees (\<lambda>_ _. 1) demo_target 256 demo_fees (\<lambda>_. True) demo_vals [] = Some txs \<and> txs \<noteq> []
     \<and> snd (setup_fees (\<lambda>_. True) (v_fees (fst (buildLedger demo_cenv 2025 7 txs (view, genesis_app)))) demo_fees)
       = \<lparr>fee_base = 11, fee_reserve = 1000000, fee_increment = 2000000\<rparr>"
proof -
  let ?view = "genesis\<lparr>v_seq := 256, v_fees := Some (feeTx_body (\<lambda>_. True) demo_fees 10 10000000 2000000)\<rparr>"
  obtain bv rv iv where v: "fee_votes demo_target demo_fees (\<lambda>_. True) demo_vals = (bv, rv, iv)" by (metis prod_cases3)
  then have g: "fst (getVotes bv) = 11" "fst (getVotes rv) = 1000000" "fst (getVotes iv) = 2000000"
    by (auto simp: fee_eval)
  have s: "setup_fees (\<lambda>_. True) (v_fees ?view) demo_fees = (True, demo_fees)"
    by (simp add: setup_fees_def assign_fee_def feeTx_body_def demo_fees_def)
  have r: "(\<lambda>_. True) = v_rules ?view" by (simp add: genesis_def)
  have fl: "isFlagLedger (v_seq ?view)" by (simp add: isFlagLedger_def FLAG_LEDGER_INTERVAL_def)
  obtain txs where t: "doVoting_fees (\<lambda>_ _. 1) demo_target (v_seq ?view) demo_fees (\<lambda>_. True) demo_vals [] = Some txs"
    using fl by (simp add: doVoting_fees_def)
  have "fee_base demo_fees = 10" by (simp add: demo_fees_def)
  then show ?thesis
    using fee_vote_takes_effect [OF s r fl _ v t refl _ refl, of demo_cenv 2025 7 genesis_app] g t by simp
qed

end
