(* ===== verification/Amendment_Table.thy ===== *)
theory Amendment_Table
  imports Change_Tx
begin

unbundle bit_operations_syntax

text \<open>
  Amendments: \<^verbatim>\<open>src/xrpld/app/misc/detail/AmendmentTable.cpp\<close> with the adapters of \<^verbatim>\<open>AmendmentTable.h\<close>, the table of
  operator votes of \<^verbatim>\<open>rdb/detail/Wallet.cpp\<close> and the readers of the ledger object in \<^verbatim>\<open>libxrpl/ledger/View.cpp\<close>.

  \<open>TrustedVotes\<close> keeps the last votes of each trusted validator for a day, \<open>AmendmentSet\<close> counts them, and
  \<open>AmendmentTable\<close> decides with them what a server proposes for the next ledger. The wallet database is the list of its
  rows in the order of insertion. An exception of the constructor and a failed assertion are \<open>None\<close>.
\<close>

section \<open>Votes of validators\<close>

record UpvotesAndTimeout =
  upVotes :: "uint256 list"
  ut_timeout :: "u32 option"

type_synonym TrustedVotes = "(PublicKey \<times> UpvotesAndTimeout) list"

record AmendmentValidation =
  avl_SignerPublic :: PublicKey
  avl_Amendments :: "uint256 list option"

definition no_votes :: UpvotesAndTimeout where
  "no_votes = \<lparr>upVotes = [], ut_timeout = None\<rparr>"

definition trustChanged_votes :: "PublicKey list \<Rightarrow> TrustedVotes \<Rightarrow> TrustedVotes" where
  "trustChanged_votes allTrusted recordedVotes =
     map (\<lambda>k. (k, case map_of recordedVotes k of Some u \<Rightarrow> u | None \<Rightarrow> no_votes)) allTrusted"

definition expiresAfter :: u32 where
  "expiresAfter = 24 * 60 * 60"

definition record_validation :: "u32 \<Rightarrow> AmendmentValidation \<Rightarrow> TrustedVotes \<Rightarrow> TrustedVotes" where
  "record_validation newTimeout val recordedVotes =
     (case map_of recordedVotes (avl_SignerPublic val) of
        None \<Rightarrow> recordedVotes
      | Some _ \<Rightarrow>
          AList.update (avl_SignerPublic val)
            \<lparr>upVotes = (case avl_Amendments val of Some choices \<Rightarrow> choices | None \<Rightarrow> []), ut_timeout = Some newTimeout\<rparr>
            recordedVotes)"

text \<open>The loop that clears expired votes, with its two assertions.\<close>

definition expire_votes :: "u32 \<Rightarrow> u32 \<Rightarrow> UpvotesAndTimeout \<Rightarrow> UpvotesAndTimeout option" where
  "expire_votes closeTime newTimeout u =
     (case ut_timeout u of
        None \<Rightarrow> if upVotes u = [] then Some u else None
      | Some t \<Rightarrow>
          if t < closeTime then Some no_votes
          else if t \<noteq> newTimeout \<and> \<not> t < newTimeout then None
          else Some u)"

fun expire_all :: "u32 \<Rightarrow> u32 \<Rightarrow> TrustedVotes \<Rightarrow> TrustedVotes option" where
  "expire_all closeTime newTimeout [] = Some []"
| "expire_all closeTime newTimeout ((k, u) # rest) =
     (case expire_votes closeTime newTimeout u of
        None \<Rightarrow> None
      | Some u' \<Rightarrow> (case expire_all closeTime newTimeout rest of None \<Rightarrow> None | Some rest' \<Rightarrow> Some ((k, u') # rest')))"

definition recordVotes :: "AmendmentValidation list \<Rightarrow> u32 \<Rightarrow> TrustedVotes \<Rightarrow> TrustedVotes option" where
  "recordVotes valSet closeTime recordedVotes =
     (let newTimeout = closeTime + expiresAfter
      in expire_all closeTime newTimeout (fold (record_validation newTimeout) valSet recordedVotes))"

definition getVotes_trusted :: "TrustedVotes \<Rightarrow> nat \<times> (uint256 \<times> nat) list" where
  "getVotes_trusted recordedVotes =
     (length (filter (\<lambda>(_, u). ut_timeout u \<noteq> None) recordedVotes),
      fold (\<lambda>(_, u) ret. fold increment_at (upVotes u) ret) recordedVotes [])"

record AmendmentSet =
  as_votes :: "(uint256 \<times> nat) list"
  as_trustedValidations :: nat
  as_threshold :: nat

definition computeThreshold :: "Rules \<Rightarrow> nat \<Rightarrow> nat" where
  "computeThreshold rules trustedValidations =
     (if \<not> rules fixAmendmentMajorityCalc then max 1 (trustedValidations * 51 div 64)
      else max 1 (trustedValidations * 67 div 100))"

definition new_AmendmentSet :: "Rules \<Rightarrow> TrustedVotes \<Rightarrow> AmendmentSet" where
  "new_AmendmentSet rules trustedVotes =
     (let (trustedCount, newVotes) = getVotes_trusted trustedVotes
      in \<lparr>as_votes = newVotes, as_trustedValidations = trustedCount, as_threshold = computeThreshold rules trustedCount\<rparr>)"

definition passes :: "Rules \<Rightarrow> AmendmentSet \<Rightarrow> uint256 \<Rightarrow> bool" where
  "passes rules s amendment =
     (case map_of (as_votes s) amendment of
        None \<Rightarrow> False
      | Some n \<Rightarrow>
          if \<not> rules fixAmendmentMajorityCalc \<or> as_trustedValidations s = 1 then as_threshold s \<le> n
          else as_threshold s < n)"

section \<open>The table\<close>

datatype AmendmentVote = vote_obsolete | vote_up | vote_down

datatype VoteBehavior = Obsolete | DefaultNo | DefaultYes

record FeatureInfo =
  fi_name :: string
  fi_feature :: uint256
  fi_vote :: VoteBehavior

record AmendmentState =
  am_vote :: AmendmentVote
  am_enabled :: bool
  am_supported :: bool
  am_name :: string

definition new_AmendmentState :: AmendmentState where
  "new_AmendmentState = \<lparr>am_vote = vote_down, am_enabled = False, am_supported = False, am_name = []\<rparr>"

text \<open>A row of the table \<^verbatim>\<open>FeatureVotes\<close>: \<open>None\<close> for a hash that is missing or not hexadecimal and for a missing name.\<close>

record FeatureRow =
  fr_hash :: "uint256 option"
  fr_name :: "string option"
  fr_vote :: AmendmentVote

record AmendmentTable =
  amendmentMap :: "(uint256 \<times> AmendmentState) list"
  lastUpdateSeq :: u32
  previousTrustedVotes :: TrustedVotes
  majorityTime :: int
  lastVote :: "AmendmentSet option"
  unsupportedEnabled :: bool
  firstUnsupportedExpected :: "u32 option"
  at_db :: "FeatureRow list"

definition voteAmendment :: "uint256 \<Rightarrow> string \<Rightarrow> AmendmentVote \<Rightarrow> FeatureRow list \<Rightarrow> FeatureRow list" where
  "voteAmendment amendment name vote rows = rows @ [\<lparr>fr_hash = Some amendment, fr_name = Some name, fr_vote = vote\<rparr>]"

text \<open>
  The last row of each amendment. The query groups by the text of the hash; \<^verbatim>\<open>voteAmendment\<close>, the only writer, prints a hash in one
  way, so this is the grouping by hash.
\<close>

definition readAmendments :: "FeatureRow list \<Rightarrow> FeatureRow list" where
  "readAmendments rows = map snd (fold (\<lambda>r. AList.update (fr_hash r) r) rows [])"

definition state_of :: "uint256 \<Rightarrow> (uint256 \<times> AmendmentState) list \<Rightarrow> AmendmentState" where
  "state_of amendment m = (case map_of m amendment of Some s \<Rightarrow> s | None \<Rightarrow> new_AmendmentState)"

text \<open>\<^verbatim>\<open>add\<close>: finds or creates the state of an amendment.\<close>

definition add_amendment :: "uint256 \<Rightarrow> (uint256 \<times> AmendmentState) list \<Rightarrow> (uint256 \<times> AmendmentState) list" where
  "add_amendment amendment m = AList.update amendment (state_of amendment m) m"

subsection \<open>Construction\<close>

definition is_space :: "char \<Rightarrow> bool" where
  "is_space c = (let n = of_char c :: nat in n = 32 \<or> 9 \<le> n \<and> n \<le> 13)"

definition hex_digit :: "char \<Rightarrow> nat option" where
  "hex_digit c =
     (let n = of_char c :: nat
      in if 48 \<le> n \<and> n \<le> 57 then Some (n - 48)
         else if 97 \<le> n \<and> n \<le> 102 then Some (n - 87)
         else if 65 \<le> n \<and> n \<le> 70 then Some (n - 55) else None)"

definition parse_line :: "string \<Rightarrow> (uint256 \<times> string) option" where
  "parse_line line =
     (let line = dropWhile is_space line;
          hash = take 64 line;
          rest = drop 64 line;
          name = dropWhile is_space rest
      in if length hash = 64 \<and> list_all (\<lambda>c. hex_digit c \<noteq> None) hash
            \<and> rest \<noteq> [] \<and> is_space (hd rest) \<and> name \<noteq> [] \<and> list_all (\<lambda>c. \<not> is_space c) name
         then Some (fold (\<lambda>c i. i * 16 + of_nat (the (hex_digit c))) hash 0, name) else None)"

fun parseSection :: "string list \<Rightarrow> (uint256 \<times> string) list option" where
  "parseSection [] = Some []"
| "parseSection (line # lines) =
     (case parse_line line of
        None \<Rightarrow> None
      | Some e \<Rightarrow> (case parseSection lines of None \<Rightarrow> None | Some names \<Rightarrow> Some (e # names)))"

definition add_supported :: "FeatureInfo \<Rightarrow> (uint256 \<times> AmendmentState) list \<Rightarrow> (uint256 \<times> AmendmentState) list" where
  "add_supported f m =
     AList.update (fi_feature f)
       ((state_of (fi_feature f) m)
          \<lparr>am_name := fi_name f, am_supported := True,
           am_vote := (case fi_vote f of DefaultYes \<Rightarrow> vote_up | DefaultNo \<Rightarrow> vote_down | Obsolete \<Rightarrow> vote_obsolete)\<rparr>) m"

text \<open>The rows that the configuration gives when the table is new.\<close>

definition config_rows :: "(uint256 \<times> string) list \<Rightarrow> (uint256 \<times> string) list \<Rightarrow> FeatureRow list" where
  "config_rows enabled vetoed =
     (let rows = fold (\<lambda>(a, n). voteAmendment a n vote_up) enabled []
      in fold (\<lambda>(a, n) rows. if a \<notin> fst ` set enabled then voteAmendment a n vote_down rows else rows) vetoed rows)"

definition read_vote :: "string \<Rightarrow> AmendmentVote \<Rightarrow> AmendmentState \<Rightarrow> AmendmentState" where
  "read_vote name vote s =
     (let s = (if name \<noteq> [] then s\<lparr>am_name := name\<rparr> else s)
      in if am_vote s \<noteq> vote_obsolete then s\<lparr>am_vote := vote\<rparr> else s)"

definition read_row :: "FeatureRow \<Rightarrow> (uint256 \<times> AmendmentState) list \<Rightarrow> (uint256 \<times> AmendmentState) list option" where
  "read_row r m =
     (case (fr_hash r, fr_name r) of
        (Some amend_hash, Some amendment_name) \<Rightarrow>
          Some (if fr_vote r = vote_down
                then (case map_of m amend_hash of
                        None \<Rightarrow> m
                      | Some s \<Rightarrow> AList.update amend_hash (read_vote amendment_name (fr_vote r) s) m)
                else AList.update amend_hash (read_vote amendment_name (fr_vote r) (state_of amend_hash m)) m)
      | _ \<Rightarrow> None)"

fun read_rows :: "FeatureRow list \<Rightarrow> (uint256 \<times> AmendmentState) list \<Rightarrow> (uint256 \<times> AmendmentState) list option" where
  "read_rows [] m = Some m"
| "read_rows (r # rs) m = (case read_row r m of None \<Rightarrow> None | Some m' \<Rightarrow> read_rows rs m')"

text \<open>The database is \<open>None\<close> before the table \<^verbatim>\<open>FeatureVotes\<close> exists.\<close>

definition new_AmendmentTable ::
  "int \<Rightarrow> FeatureInfo list \<Rightarrow> string list \<Rightarrow> string list \<Rightarrow> FeatureRow list option \<Rightarrow> AmendmentTable option" where
  "new_AmendmentTable majTime supported enabled vetoed db =
     (case (parseSection enabled, parseSection vetoed) of
        (Some en, Some ve) \<Rightarrow>
          let rows = (case db of Some rows \<Rightarrow> rows | None \<Rightarrow> config_rows en ve)
          in (case read_rows (readAmendments rows) (fold add_supported supported []) of
                None \<Rightarrow> None
              | Some m \<Rightarrow> Some \<lparr>amendmentMap = m, lastUpdateSeq = 0, previousTrustedVotes = [], majorityTime = majTime,
                  lastVote = None, unsupportedEnabled = False, firstUnsupportedExpected = None, at_db = rows\<rparr>)
      | _ \<Rightarrow> None)"

subsection \<open>Operations\<close>

definition find_amendment :: "string \<Rightarrow> AmendmentTable \<Rightarrow> uint256" where
  "find_amendment name t =
     (case List.find (\<lambda>(_, s). am_name s = name) (amendmentMap t) of Some (a, _) \<Rightarrow> a | None \<Rightarrow> 0)"

definition veto :: "uint256 \<Rightarrow> AmendmentTable \<Rightarrow> bool \<times> AmendmentTable" where
  "veto amendment t =
     (let t = t\<lparr>amendmentMap := add_amendment amendment (amendmentMap t)\<rparr>;
          s = state_of amendment (amendmentMap t)
      in if am_vote s \<noteq> vote_up then (False, t)
         else (True, t\<lparr>amendmentMap := AList.update amendment (s\<lparr>am_vote := vote_down\<rparr>) (amendmentMap t),
                       at_db := voteAmendment amendment (am_name s) vote_down (at_db t)\<rparr>))"

definition unVeto :: "uint256 \<Rightarrow> AmendmentTable \<Rightarrow> bool \<times> AmendmentTable" where
  "unVeto amendment t =
     (case map_of (amendmentMap t) amendment of
        None \<Rightarrow> (False, t)
      | Some s \<Rightarrow>
          if am_vote s \<noteq> vote_down then (False, t)
          else (True, t\<lparr>amendmentMap := AList.update amendment (s\<lparr>am_vote := vote_up\<rparr>) (amendmentMap t),
                        at_db := voteAmendment amendment (am_name s) vote_up (at_db t)\<rparr>))"

definition enable :: "uint256 \<Rightarrow> AmendmentTable \<Rightarrow> bool \<times> AmendmentTable" where
  "enable amendment t =
     (let s = state_of amendment (amendmentMap t)
      in if am_enabled s then (False, t\<lparr>amendmentMap := add_amendment amendment (amendmentMap t)\<rparr>)
         else (True, t\<lparr>amendmentMap := AList.update amendment (s\<lparr>am_enabled := True\<rparr>) (amendmentMap t),
                       unsupportedEnabled := unsupportedEnabled t \<or> \<not> am_supported s\<rparr>))"

definition isEnabled :: "uint256 \<Rightarrow> AmendmentTable \<Rightarrow> bool" where
  "isEnabled amendment t = (case map_of (amendmentMap t) amendment of None \<Rightarrow> False | Some s \<Rightarrow> am_enabled s)"

definition isSupported_amendment :: "uint256 \<Rightarrow> AmendmentTable \<Rightarrow> bool" where
  "isSupported_amendment amendment t = (case map_of (amendmentMap t) amendment of None \<Rightarrow> False | Some s \<Rightarrow> am_supported s)"

definition doValidation_amendments :: "uint256 list \<Rightarrow> AmendmentTable \<Rightarrow> uint256 list" where
  "doValidation_amendments enabled t =
     sort (map fst (filter (\<lambda>(a, s). am_supported s \<and> am_vote s = vote_up \<and> a \<notin> set enabled) (amendmentMap t)))"

definition getDesired :: "AmendmentTable \<Rightarrow> uint256 list" where
  "getDesired t = doValidation_amendments [] t"

definition vote_action ::
  "Rules \<Rightarrow> AmendmentSet \<Rightarrow> int \<Rightarrow> u32 \<Rightarrow> uint256 list \<Rightarrow> (uint256 \<times> u32) list \<Rightarrow> uint256 \<Rightarrow> AmendmentState \<Rightarrow> u32 option" where
  "vote_action rules vote majTime closeTime enabledAmendments majorityAmendments a s =
     (if a \<in> set enabledAmendments then None
      else let hasValMajority = passes rules vote a;
               majorityTime = map_of majorityAmendments a
           in if hasValMajority \<and> majorityTime = None \<and> am_vote s = vote_up then Some tfGotMajority
              else if \<not> hasValMajority \<and> majorityTime \<noteq> None then Some tfLostMajority
              else if (case majorityTime of Some t \<Rightarrow> uint t + majTime \<le> uint closeTime | None \<Rightarrow> False)
                   \<and> am_vote s = vote_up then Some 0
              else None)"

text \<open>The actions are a \<^verbatim>\<open>std::map\<close>, in ascending order of the amendments.\<close>

definition doVoting_amendments ::
  "Rules \<Rightarrow> u32 \<Rightarrow> uint256 list \<Rightarrow> (uint256 \<times> u32) list \<Rightarrow> AmendmentValidation list \<Rightarrow> AmendmentTable
     \<Rightarrow> ((uint256 \<times> u32) list \<times> AmendmentTable) option" where
  "doVoting_amendments rules closeTime enabledAmendments majorityAmendments valSet t =
     (case recordVotes valSet closeTime (previousTrustedVotes t) of
        None \<Rightarrow> None
      | Some recorded \<Rightarrow>
          let vote = new_AmendmentSet rules recorded;
              actions = List.map_filter (\<lambda>(a, s). map_option (\<lambda>flags. (a, flags))
                (vote_action rules vote (majorityTime t) closeTime enabledAmendments majorityAmendments a s)) (amendmentMap t)
          in Some (sort_key fst actions, t\<lparr>previousTrustedVotes := recorded, lastVote := Some vote\<rparr>))"

definition needValidatedLedger :: "u32 \<Rightarrow> AmendmentTable \<Rightarrow> bool" where
  "needValidatedLedger ledgerSeq t \<longleftrightarrow> (ledgerSeq - 1) div 256 \<noteq> (lastUpdateSeq t - 1) div 256"

definition note_majority ::
  "uint256 \<times> u32 \<Rightarrow> (uint256 \<times> AmendmentState) list \<times> u32 option \<Rightarrow> (uint256 \<times> AmendmentState) list \<times> u32 option" where
  "note_majority = (\<lambda>(hash, time) (m, first).
     let m = add_amendment hash m; s = state_of hash m
     in if am_enabled s then (m, first)
        else if \<not> am_supported s
        then (m, case first of None \<Rightarrow> Some time | Some f \<Rightarrow> if time < f then Some time else first)
        else (m, first))"

definition doValidatedLedger :: "u32 \<Rightarrow> uint256 list \<Rightarrow> (uint256 \<times> u32) list \<Rightarrow> AmendmentTable \<Rightarrow> AmendmentTable" where
  "doValidatedLedger ledgerSeq enabled majority t =
     (let t = fold (\<lambda>e t. snd (enable e t)) enabled t;
          (m, first) = fold note_majority majority (amendmentMap t, None)
      in t\<lparr>lastUpdateSeq := ledgerSeq, amendmentMap := m,
           firstUnsupportedExpected := map_option (\<lambda>f. word_of_int (uint f + majorityTime t)) first\<rparr>)"

definition trustChanged_amendments :: "PublicKey list \<Rightarrow> AmendmentTable \<Rightarrow> AmendmentTable" where
  "trustChanged_amendments allTrusted t =
     t\<lparr>previousTrustedVotes := trustChanged_votes allTrusted (previousTrustedVotes t)\<rparr>"

subsection \<open>The ledger side\<close>

definition getEnabledAmendments :: "View \<Rightarrow> uint256 list" where
  "getEnabledAmendments view =
     (case v_amendments view of None \<Rightarrow> [] | Some obj \<Rightarrow> remdups (am_Amendments obj))"

definition getMajorityAmendments :: "View \<Rightarrow> (uint256 \<times> u32) list" where
  "getMajorityAmendments view =
     (case v_amendments view of
        None \<Rightarrow> []
      | Some obj \<Rightarrow> fold (\<lambda>m. AList.update (mj_Amendment m) (mj_CloseTime m))
                      (case am_Majorities obj of None \<Rightarrow> [] | Some ms \<Rightarrow> ms) [])"

definition doValidatedLedger_view :: "View \<Rightarrow> AmendmentTable \<Rightarrow> AmendmentTable" where
  "doValidatedLedger_view view t =
     (if needValidatedLedger (v_seq view) t
      then doValidatedLedger (v_seq view) (getEnabledAmendments view) (getMajorityAmendments view) t else t)"

definition amendment_tx :: "(uint256 \<Rightarrow> u32 \<Rightarrow> u32 \<Rightarrow> uint256) \<Rightarrow> u32 \<Rightarrow> uint256 \<times> u32 \<Rightarrow> ChangeTx" where
  "amendment_tx txID seq = (\<lambda>(a, flags). pseudo_tx ttAMENDMENT None (txID a flags seq) flags (BodyAmendment a))"

definition doVoting_view ::
  "(uint256 \<Rightarrow> u32 \<Rightarrow> u32 \<Rightarrow> uint256) \<Rightarrow> View \<Rightarrow> AmendmentValidation list \<Rightarrow> ChangeTx list \<Rightarrow> AmendmentTable
     \<Rightarrow> (ChangeTx list \<times> AmendmentTable) option" where
  "doVoting_view txID lastClosedLedger parentValidations initialPosition t =
     (case doVoting_amendments (v_rules lastClosedLedger) (v_parentCloseTime lastClosedLedger)
             (getEnabledAmendments lastClosedLedger) (getMajorityAmendments lastClosedLedger) parentValidations t of
        None \<Rightarrow> None
      | Some (actions, t') \<Rightarrow>
          Some (fold (\<lambda>act pos. let tx = amendment_tx txID (v_seq lastClosedLedger + 1) act
                                in if tx_ID tx \<in> tx_ID ` set pos then pos else pos @ [tx]) actions initialPosition, t'))"

section \<open>Counting\<close>

definition votes_ok :: "TrustedVotes \<Rightarrow> bool" where
  "votes_ok votes \<longleftrightarrow> distinct_keys votes \<and> (\<forall>(k, u) \<in> set votes. ut_timeout u = None \<longrightarrow> upVotes u = [])"

definition heard :: "TrustedVotes \<Rightarrow> PublicKey set" where
  "heard votes = {k. \<exists>u. map_of votes k = Some u \<and> ut_timeout u \<noteq> None}"

definition supporters :: "TrustedVotes \<Rightarrow> uint256 \<Rightarrow> PublicKey set" where
  "supporters votes a = {k. \<exists>u. map_of votes k = Some u \<and> a \<in> set (upVotes u)}"

lemma getVotes_tallies:
  "tallies m M \<Longrightarrow> tallies (fold (\<lambda>(_, u) ret. fold increment_at (upVotes u) ret) votes m)
     (mset (concat (map (\<lambda>(_, u). upVotes u) votes)) + M)"
proof (induction votes arbitrary: m M)
  case (Cons e votes)
  obtain k u where e: "e = (k, u)" by (cases e)
  show ?case using Cons.IH [OF tallies_fold [OF Cons.prems, of "upVotes u"]] by (simp add: e ac_simps)
qed simp

definition vote_count :: "TrustedVotes \<Rightarrow> uint256 \<Rightarrow> nat" where
  "vote_count votes a = count (mset (concat (map (\<lambda>(_, u). upVotes u) votes))) a"

definition heard_count :: "TrustedVotes \<Rightarrow> nat" where
  "heard_count votes = length (filter (\<lambda>(_, u). ut_timeout u \<noteq> None) votes)"

lemma map_of_votes: "map_of (as_votes (new_AmendmentSet rules votes)) a
    = (if vote_count votes a = 0 then None else Some (vote_count votes a))"
proof -
  have t: "tallies (as_votes (new_AmendmentSet rules votes)) (mset (concat (map (\<lambda>(_, u). upVotes u) votes)))"
    using getVotes_tallies [OF tallies_empty, of votes] by (simp add: new_AmendmentSet_def getVotes_trusted_def)
  then have "(case map_of (as_votes (new_AmendmentSet rules votes)) a of None \<Rightarrow> 0 | Some c \<Rightarrow> c) = vote_count votes a"
    by (simp add: tallies_def vote_count_def)
  moreover have "c \<noteq> 0" if "map_of (as_votes (new_AmendmentSet rules votes)) a = Some c" for c
    using t map_of_SomeD [OF that] by (auto simp: tallies_def)
  ultimately show ?thesis by (auto split: option.splits)
qed

lemma passes_count:
  "passes rules (new_AmendmentSet rules votes) a \<longleftrightarrow> 0 < vote_count votes a
     \<and> (if \<not> rules fixAmendmentMajorityCalc \<or> heard_count votes = 1
        then computeThreshold rules (heard_count votes) \<le> vote_count votes a
        else computeThreshold rules (heard_count votes) < vote_count votes a)"
  by (simp add: passes_def map_of_votes) (simp add: new_AmendmentSet_def getVotes_trusted_def heard_count_def)

lemma heard_count_none:
  assumes "votes_ok votes" and "heard_count votes = 0"
  shows "vote_count votes a = 0"
proof -
  have "upVotes u = []" if "(k, u) \<in> set votes" for k u
    using assms that by (fastforce simp: votes_ok_def heard_count_def filter_empty_conv)
  then have "concat (map (\<lambda>(_, u). upVotes u) votes) = []" by auto
  then show ?thesis by (simp add: vote_count_def)
qed

lemma passes_two_thirds:
  assumes "votes_ok votes" and "rules fixAmendmentMajorityCalc"
  shows "passes rules (new_AmendmentSet rules votes) a \<longleftrightarrow> 67 * heard_count votes < 100 * vote_count votes a"
proof -
  consider "heard_count votes = 0" | "heard_count votes = 1" | "2 \<le> heard_count votes" by linarith
  then show ?thesis
  proof cases
    case 1
    then show ?thesis using heard_count_none [OF assms(1)] by (simp add: passes_count)
  next
    case 2
    then show ?thesis using assms(2) by (auto simp: passes_count computeThreshold_def)
  next
    case 3
    then show ?thesis using assms(2) by (auto simp: passes_count computeThreshold_def div_less_iff_less_mult)
  qed
qed

lemma vote_count_supporters:
  assumes "distinct_keys votes" and "\<forall>(k, u) \<in> set votes. distinct (upVotes u)"
  shows "vote_count votes a = card (supporters votes a)"
proof -
  have "vote_count votes a = length (filter (\<lambda>(_, u). a \<in> set (upVotes u)) votes)"
    using assms(2)
  proof (induction votes)
    case (Cons e votes)
    obtain k u where e: "e = (k, u)" by (cases e)
    have "count (mset (upVotes u)) a = (if a \<in> set (upVotes u) then 1 else 0)"
      using Cons.prems by (simp add: e distinct_count_atmost_1)
    then show ?case using Cons.IH Cons.prems by (auto simp: e vote_count_def)
  qed (simp add: vote_count_def)
  also have "\<dots> = card (keys (filter (\<lambda>(_, u). a \<in> set (upVotes u)) votes))"
    using assms(1) by (intro length_keys) (simp add: distinct_map_filter)
  also have "keys (filter (\<lambda>(_, u). a \<in> set (upVotes u)) votes) = supporters votes a"
    using assms(1) by (force simp: supporters_def)
  finally show ?thesis .
qed

lemma heard_count_card:
  assumes "distinct_keys votes"
  shows "heard_count votes = card (heard votes)"
proof -
  have "heard_count votes = card (keys (filter (\<lambda>(_, u). ut_timeout u \<noteq> None) votes))"
    unfolding heard_count_def using assms by (intro length_keys) (simp add: distinct_map_filter)
  also have "keys (filter (\<lambda>(_, u). ut_timeout u \<noteq> None) votes) = heard votes"
    using assms by (force simp: heard_def)
  finally show ?thesis .
qed

section \<open>Recording\<close>

definition last_validation :: "AmendmentValidation list \<Rightarrow> PublicKey \<Rightarrow> AmendmentValidation option" where
  "last_validation vals k = List.find (\<lambda>v. avl_SignerPublic v = k) (rev vals)"

definition choices :: "AmendmentValidation \<Rightarrow> uint256 list" where
  "choices v = (case avl_Amendments v of Some cs \<Rightarrow> cs | None \<Rightarrow> [])"

text \<open>What counts for a trusted validator: its last validation, or else what was recorded before and has not expired.\<close>

definition current_votes :: "TrustedVotes \<Rightarrow> AmendmentValidation list \<Rightarrow> u32 \<Rightarrow> PublicKey \<Rightarrow> uint256 list option" where
  "current_votes old vals closeTime k =
     (if k \<notin> keys old then None
      else case last_validation vals k of
             Some v \<Rightarrow> Some (choices v)
           | None \<Rightarrow> (case ut_timeout (the (map_of old k)) of
                       Some t \<Rightarrow> if closeTime \<le> t then Some (upVotes (the (map_of old k))) else None
                     | None \<Rightarrow> None))"

lemma keys_record_validation [simp]: "keys (record_validation t v votes) = keys votes"
  by (auto simp: record_validation_def insert_absorb map_of_eq_None split: option.split)
     (metis domI dom_map_of_conv_image_fst)

lemma distinct_record_validation: "distinct_keys votes \<Longrightarrow> distinct_keys (record_validation t v votes)"
  by (simp add: record_validation_def split: option.split)

lemma fold_record_validation:
  shows "keys (fold (record_validation t) vals votes) = keys votes"
    and "distinct_keys votes \<Longrightarrow> distinct_keys (fold (record_validation t) vals votes)"
    and "map_of (fold (record_validation t) vals votes) k =
      (case map_of votes k of None \<Rightarrow> None
       | Some u \<Rightarrow> Some (case last_validation vals k of None \<Rightarrow> u | Some v \<Rightarrow> \<lparr>upVotes = choices v, ut_timeout = Some t\<rparr>))"
proof (induction vals rule: rev_induct)
  case (snoc v vals)
  { case 1 show ?case using snoc(1) by simp }
  { case 2 then show ?case using snoc(2) distinct_record_validation by simp }
  case 3
  show ?case
    using snoc(3) by (auto simp: record_validation_def last_validation_def choices_def split: option.splits)
qed (auto simp: last_validation_def split: option.split)

lemma expire_all_spec:
  "expire_all closeTime newT votes = Some votes' \<Longrightarrow>
     map fst votes' = map fst votes
     \<and> (\<forall>k. map_of votes' k = (case map_of votes k of None \<Rightarrow> None | Some u \<Rightarrow> expire_votes closeTime newT u))
     \<and> (\<forall>(k, u) \<in> set votes'. \<exists>u0. (k, u0) \<in> set votes \<and> expire_votes closeTime newT u0 = Some u)"
proof (induction votes arbitrary: votes')
  case (Cons e rest)
  obtain k u where e: "e = (k, u)" by (cases e)
  obtain u1 rest' where o: "expire_votes closeTime newT u = Some u1" "expire_all closeTime newT rest = Some rest'"
    "votes' = (k, u1) # rest'"
    using Cons.prems e by (auto split: option.splits)
  show ?case using Cons.IH [OF o(2)] o(1,3) by (auto simp: e)
qed simp

lemma expire_all_Some:
  "(\<And>k u. (k, u) \<in> set votes \<Longrightarrow> expire_votes closeTime newT u \<noteq> None) \<Longrightarrow> \<exists>votes'. expire_all closeTime newT votes = Some votes'"
proof (induction votes)
  case (Cons e rest)
  obtain k u where e: "e = (k, u)" by (cases e)
  obtain u1 where "expire_votes closeTime newT u = Some u1" using Cons.prems [of k u] e by auto
  moreover obtain rest' where "expire_all closeTime newT rest = Some rest'" using Cons.IH Cons.prems by fastforce
  ultimately show ?case by (simp add: e)
qed simp

lemma recordVotes_spec:
  assumes "recordVotes vals closeTime old = Some votes" and "distinct_keys old" and "closeTime \<le> closeTime + expiresAfter"
  shows "distinct_keys votes" and "keys votes = keys old" and "votes_ok votes"
    and "map_of votes k = (if k \<notin> keys old then None
      else Some (case current_votes old vals closeTime k of
                   None \<Rightarrow> no_votes
                 | Some vs \<Rightarrow> \<lparr>upVotes = vs, ut_timeout =
                     (if last_validation vals k = None then ut_timeout (the (map_of old k)) else Some (closeTime + expiresAfter))\<rparr>))"
proof -
  let ?T = "closeTime + expiresAfter" and ?mid = "fold (record_validation (closeTime + expiresAfter)) vals old"
  have ex: "expire_all closeTime ?T ?mid = Some votes" using assms(1) by (simp add: recordVotes_def Let_def)
  note sp = expire_all_spec [OF ex]
  from sp have fs: "map fst votes = map fst ?mid" by (rule conjunct1)
  from sp have mp: "map_of votes k = (case map_of ?mid k of None \<Rightarrow> None | Some u \<Rightarrow> expire_votes closeTime ?T u)" for k
    by simp
  from sp have from_old: "\<forall>(k, u) \<in> set votes. \<exists>u0. (k, u0) \<in> set ?mid \<and> expire_votes closeTime ?T u0 = Some u" by simp
  show d: "distinct_keys votes" using fold_record_validation(2) [OF assms(2)] unfolding fs .
  have "keys votes = keys ?mid" using fs by (metis set_map)
  then show "keys votes = keys old" by (simp add: fold_record_validation(1))
  have "upVotes u = []" if mem: "(k, u) \<in> set votes" and no: "ut_timeout u = None" for k u
  proof -
    obtain u0 where "expire_votes closeTime ?T u0 = Some u" using bspec [OF from_old mem] by auto
    then show ?thesis using no by (auto simp: expire_votes_def no_votes_def split: option.splits if_splits)
  qed
  then show "votes_ok votes" using d by (auto simp: votes_ok_def)
  show "map_of votes k = (if k \<notin> keys old then None
      else Some (case current_votes old vals closeTime k of
                   None \<Rightarrow> no_votes
                 | Some vs \<Rightarrow> \<lparr>upVotes = vs, ut_timeout =
                     (if last_validation vals k = None then ut_timeout (the (map_of old k)) else Some ?T)\<rparr>))"
  proof (cases "map_of old k")
    case None
    then have "k \<notin> keys old" by (simp add: map_of_eq_None)
    then show ?thesis using None by (simp add: mp fold_record_validation(3))
  next
    case (Some u)
    then have k: "k \<in> keys old" by (metis map_of_eq_None option.distinct(1))
    let ?u = "case last_validation vals k of None \<Rightarrow> u | Some v \<Rightarrow> \<lparr>upVotes = choices v, ut_timeout = Some ?T\<rparr>"
    have v: "map_of votes k = expire_votes closeTime ?T ?u"
      using Some by (simp add: mp fold_record_validation(3))
    obtain u' where u': "map_of votes k = Some u'"
      using k \<open>keys votes = keys old\<close> by (metis map_of_eq_None not_Some_eq)
    show ?thesis
    proof (cases "last_validation vals k")
      case None
      then have "expire_votes closeTime ?T u = Some u'" using v u' by simp
      then show ?thesis using u' None Some k
        by (cases u) (auto simp: expire_votes_def current_votes_def no_votes_def not_less [symmetric] split: option.splits if_splits)
    next
      case (Some w)
      then have "expire_votes closeTime ?T \<lparr>upVotes = choices w, ut_timeout = Some ?T\<rparr> = Some u'" using v u' by simp
      then show ?thesis using u' Some k assms(3) by (auto simp: expire_votes_def current_votes_def not_less [symmetric] split: if_splits)
    qed
  qed
qed

lemma current_votes_timeout:
  "current_votes old vals closeTime k = Some vs \<Longrightarrow> last_validation vals k = None \<Longrightarrow> ut_timeout (the (map_of old k)) \<noteq> None"
  by (auto simp: current_votes_def split: if_splits option.splits)

lemma current_votes_trusted: "current_votes old vals closeTime k = Some vs \<Longrightarrow> k \<in> keys old"
  by (auto simp: current_votes_def split: if_splits)

lemma recorded_sets:
  assumes "recordVotes vals closeTime old = Some votes" and "distinct_keys old" and "closeTime \<le> closeTime + expiresAfter"
  shows "heard votes = {k. current_votes old vals closeTime k \<noteq> None}"
    and "supporters votes a = {k. \<exists>vs. current_votes old vals closeTime k = Some vs \<and> a \<in> set vs}"
  using recordVotes_spec(4) [OF assms] current_votes_timeout [of old vals closeTime] current_votes_trusted [of old vals closeTime]
  by (fastforce simp: heard_def supporters_def no_votes_def split: option.splits if_splits)+

lemma current_votes_distinct:
  assumes "\<forall>v \<in> set vals. distinct (choices v)" and "\<forall>(k, u) \<in> set old. distinct (upVotes u)"
    and "current_votes old vals closeTime k = Some vs"
  shows "distinct vs"
proof (cases "last_validation vals k")
  case None
  then have "vs = upVotes (the (map_of old k))" using assms(3) by (auto simp: current_votes_def split: if_splits option.splits)
  moreover obtain u where "map_of old k = Some u"
    using current_votes_trusted [OF assms(3)] by (metis map_of_eq_None not_Some_eq)
  ultimately show ?thesis using assms(2) map_of_SomeD by fastforce
next
  case (Some v)
  then have "v \<in> set vals" by (auto simp: last_validation_def find_Some_iff) (metis nth_mem set_rev length_rev)
  moreover have "vs = choices v" using assms(3) Some by (auto simp: current_votes_def split: if_splits)
  ultimately show ?thesis using assms(1) by simp
qed

lemma recorded_distinct:
  assumes "recordVotes vals closeTime old = Some votes" and "distinct_keys old" and "closeTime \<le> closeTime + expiresAfter"
    and "\<forall>v \<in> set vals. distinct (choices v)" and "\<forall>(k, u) \<in> set old. distinct (upVotes u)"
  shows "\<forall>(k, u) \<in> set votes. distinct (upVotes u)"
proof -
  have "distinct (upVotes u)" if "(k, u) \<in> set votes" for k u
  proof -
    have "map_of votes k = Some u" using in_set_map_of [OF recordVotes_spec(1) [OF assms(1-3)]] that by simp
    then show ?thesis
      using recordVotes_spec(4) [OF assms(1-3), of k] current_votes_distinct [OF assms(4,5), of closeTime k]
      by (auto simp: no_votes_def split: if_splits option.splits)
  qed
  then show ?thesis by blast
qed

section \<open>Invariants of the table\<close>

definition operator_vote :: "AmendmentTable \<Rightarrow> uint256 \<Rightarrow> AmendmentVote" where
  "operator_vote t a = am_vote (state_of a (amendmentMap t))"

definition last_row :: "FeatureRow list \<Rightarrow> uint256 \<Rightarrow> FeatureRow option" where
  "last_row rows a = List.find (\<lambda>r. fr_hash r = Some a) (rev rows)"

text \<open>The vote that the supported amendments and the database give.\<close>

definition stored_vote :: "FeatureInfo list \<Rightarrow> FeatureRow list \<Rightarrow> uint256 \<Rightarrow> AmendmentVote" where
  "stored_vote supported rows a =
     (let d = am_vote (state_of a (fold add_supported supported []))
      in if d = vote_obsolete then vote_obsolete else case last_row rows a of None \<Rightarrow> d | Some r \<Rightarrow> fr_vote r)"

definition saved_ok :: "FeatureInfo list \<Rightarrow> AmendmentTable \<Rightarrow> bool" where
  "saved_ok supported t \<longleftrightarrow> (\<forall>a. operator_vote t a = stored_vote supported (at_db t) a)
     \<and> (\<forall>r \<in> set (readAmendments (at_db t)). fr_hash r \<noteq> None \<and> fr_name r \<noteq> None)"

inductive amendment_reach :: "FeatureInfo list \<Rightarrow> u32 \<Rightarrow> AmendmentTable \<Rightarrow> bool" for supported where
  start: "new_AmendmentTable majTime supported enabled vetoed db = Some t \<Longrightarrow> amendment_reach supported T t"
| vetoed: "amendment_reach supported T t \<Longrightarrow> amendment_reach supported T (snd (veto a t))"
| unvetoed: "amendment_reach supported T t \<Longrightarrow> amendment_reach supported T (snd (unVeto a t))"
| enabled: "amendment_reach supported T t \<Longrightarrow> amendment_reach supported T (snd (enable a t))"
| ledger: "amendment_reach supported T t \<Longrightarrow> amendment_reach supported T (doValidatedLedger seq en maj t)"
| trusted: "amendment_reach supported T t \<Longrightarrow> distinct ks \<Longrightarrow> amendment_reach supported T (trustChanged_amendments ks t)"
| voted: "amendment_reach supported T t \<Longrightarrow> T \<le> closeTime \<Longrightarrow> closeTime \<le> closeTime + expiresAfter
    \<Longrightarrow> doVoting_amendments rules closeTime en maj vals t = Some (acts, t') \<Longrightarrow> amendment_reach supported closeTime t'"

subsection \<open>Reading the database\<close>

lemma readAmendments_map:
  "map_of (fold (\<lambda>r. AList.update (fr_hash r) r) rows m) k =
     (case List.find (\<lambda>r. fr_hash r = k) (rev rows) of None \<Rightarrow> map_of m k | Some r \<Rightarrow> Some r)"
  by (induction rows rule: rev_induct) auto

lemma readAmendments_alist:
  defines "al \<equiv> \<lambda>rows. fold (\<lambda>r. AList.update (fr_hash r) r) rows []"
  shows "distinct_keys (al rows)" and "\<forall>(k, r) \<in> set (al rows). fr_hash r = k"
proof -
  have "distinct_keys (al rows) \<and> (\<forall>(k, r) \<in> set (al rows). fr_hash r = k)"
    unfolding al_def
  proof (induction rows rule: rev_induct)
    case (snoc r rows)
    then show ?case using set_update_subset [of "fr_hash r" r] by fastforce
  qed simp
  then show "distinct_keys (al rows)" and "\<forall>(k, r) \<in> set (al rows). fr_hash r = k" by simp_all
qed

lemma distinct_readAmendments: "distinct (map fr_hash (readAmendments rows))"
proof -
  let ?al = "fold (\<lambda>r. AList.update (fr_hash r) r) rows []"
  have "map fr_hash (readAmendments rows) = map fst ?al"
    using readAmendments_alist(2) [of rows] by (auto simp: readAmendments_def)
  then show ?thesis using readAmendments_alist(1) [of rows] by simp
qed

lemma find_readAmendments: "List.find (\<lambda>r. fr_hash r = Some a) (readAmendments rows) = last_row rows a"
proof -
  let ?al = "fold (\<lambda>r. AList.update (fr_hash r) r) rows []"
  have gen: "List.find (\<lambda>r. fr_hash r = k) (map snd al) = map_of al k" if "\<forall>(k, r) \<in> set al. fr_hash r = k" for al k
    using that by (induction al) auto
  show ?thesis
    using gen [OF readAmendments_alist(2), of "Some a" rows]
    by (simp add: readAmendments_def readAmendments_map last_row_def split: option.splits)
qed

lemma state_of_update: "state_of a (AList.update b s m) = (if a = b then s else state_of a m)"
  by (simp add: state_of_def)

lemma add_amendment_state [simp]: "state_of a (add_amendment b m) = state_of a m"
  by (simp add: add_amendment_def state_of_update)

lemma read_row_vote:
  assumes "read_row r m = Some m'"
  shows "am_vote (state_of a m') = (if fr_hash r = Some a \<and> am_vote (state_of a m) \<noteq> vote_obsolete then fr_vote r
    else am_vote (state_of a m))"
proof -
  obtain b n where b: "fr_hash r = Some b" "fr_name r = Some n"
    using assms by (auto simp: read_row_def split: option.splits)
  show ?thesis
  proof (cases "fr_vote r = vote_down \<and> map_of m b = None")
    case True
    then have "m' = m" using assms b by (simp add: read_row_def)
    then show ?thesis using True b by (auto simp: state_of_def new_AmendmentState_def)
  next
    case False
    then have "m' = AList.update b (read_vote n (fr_vote r) (state_of b m)) m"
      using assms b by (auto simp: read_row_def state_of_def split: if_splits option.splits)
    then show ?thesis using b by (auto simp: state_of_update read_vote_def Let_def)
  qed
qed

lemma read_rows_vote:
  "read_rows rs m = Some m' \<Longrightarrow> distinct (map fr_hash rs) \<Longrightarrow>
     am_vote (state_of a m') = (case List.find (\<lambda>r. fr_hash r = Some a) rs of
        None \<Rightarrow> am_vote (state_of a m)
      | Some r \<Rightarrow> if am_vote (state_of a m) = vote_obsolete then vote_obsolete else fr_vote r)"
proof (induction rs arbitrary: m)
  case (Cons r rs)
  obtain m1 where m1: "read_row r m = Some m1" "read_rows rs m1 = Some m'"
    using Cons.prems(1) by (auto split: option.splits)
  have nf: "List.find (\<lambda>r'. fr_hash r' = fr_hash r) rs = None"
    using Cons.prems(2) by (simp add: find_None_iff) (metis imageI)
  show ?case
    using Cons.IH [OF m1(2)] Cons.prems(2) read_row_vote [OF m1(1), of a] nf by (auto split: option.splits)
qed simp

lemma read_rows_Some:
  "(\<exists>m'. read_rows rs m = Some m') \<longleftrightarrow> (\<forall>r \<in> set rs. fr_hash r \<noteq> None \<and> fr_name r \<noteq> None)"
proof (induction rs arbitrary: m)
  case (Cons r rs)
  have "(\<exists>m1. read_row r m = Some m1) \<longleftrightarrow> fr_hash r \<noteq> None \<and> fr_name r \<noteq> None"
    by (auto simp: read_row_def split: option.splits)
  then show ?case using Cons.IH by (auto split: option.splits)
qed simp

lemma new_table_saved:
  assumes "new_AmendmentTable mt supported enabled vetoed db = Some t"
  shows "saved_ok supported t"
proof -
  obtain rows m where rr: "read_rows (readAmendments rows) (fold add_supported supported []) = Some m"
    and t: "amendmentMap t = m" "at_db t = rows"
    using assms by (auto simp: new_AmendmentTable_def Let_def split: option.splits)
  have "\<forall>r \<in> set (readAmendments rows). fr_hash r \<noteq> None \<and> fr_name r \<noteq> None"
    using read_rows_Some [of "readAmendments rows"] rr by blast
  moreover have "operator_vote t a = stored_vote supported (at_db t) a" for a
    using read_rows_vote [OF rr distinct_readAmendments, of a]
    by (auto simp: operator_vote_def t stored_vote_def find_readAmendments Let_def split: option.splits)
  ultimately show ?thesis by (simp add: saved_ok_def t)
qed

subsection \<open>Operations\<close>

lemma last_row_append: "last_row (voteAmendment b n v rows) a =
    (if a = b then Some \<lparr>fr_hash = Some b, fr_name = Some n, fr_vote = v\<rparr> else last_row rows a)"
  by (auto simp: last_row_def voteAmendment_def)

lemma set_readAmendments_append:
  "set (readAmendments (voteAmendment b n v rows)) \<subseteq>
     insert \<lparr>fr_hash = Some b, fr_name = Some n, fr_vote = v\<rparr> (set (readAmendments rows))"
  using set_update_subset [of "Some b" "\<lparr>fr_hash = Some b, fr_name = Some n, fr_vote = v\<rparr>"
      "fold (\<lambda>r. AList.update (fr_hash r) r) rows []"]
  by (force simp: readAmendments_def voteAmendment_def)

text \<open>The operator changes a vote that is not obsolete.\<close>

lemma saved_ok_vote:
  assumes "saved_ok supported t" and "operator_vote t a \<noteq> vote_obsolete" and "v \<noteq> vote_obsolete"
    and "\<forall>b. operator_vote t' b = (if b = a then v else operator_vote t b)" and "at_db t' = voteAmendment a n v (at_db t)"
  shows "saved_ok supported t'"
proof -
  have "operator_vote t' b = stored_vote supported (at_db t') b" for b
    using assms unfolding saved_ok_def by (auto simp: stored_vote_def Let_def last_row_append split: if_splits)
  moreover have "\<forall>r \<in> set (readAmendments (at_db t')). fr_hash r \<noteq> None \<and> fr_name r \<noteq> None"
    using assms(1,5) set_readAmendments_append [of a n v "at_db t"] by (auto simp: saved_ok_def)
  ultimately show ?thesis by (simp add: saved_ok_def)
qed

lemma saved_ok_same:
  "saved_ok supported t \<Longrightarrow> \<forall>b. operator_vote t' b = operator_vote t b \<Longrightarrow> at_db t' = at_db t \<Longrightarrow> saved_ok supported t'"
  by (simp add: saved_ok_def)

lemma saved_ok_veto:
  assumes "saved_ok supported t"
  shows "saved_ok supported (snd (veto a t))"
proof (cases "am_vote (state_of a (amendmentMap t)) = vote_up")
  case True
  then show ?thesis
    by (intro saved_ok_vote [OF assms, where a = a and v = vote_down])
       (simp_all add: operator_vote_def veto_def Let_def state_of_update)
next
  case False
  then show ?thesis by (intro saved_ok_same [OF assms]) (simp_all add: operator_vote_def veto_def Let_def)
qed

lemma saved_ok_unVeto:
  assumes "saved_ok supported t"
  shows "saved_ok supported (snd (unVeto a t))"
proof (cases "\<exists>s. map_of (amendmentMap t) a = Some s \<and> am_vote s = vote_down")
  case True
  then obtain s where s: "map_of (amendmentMap t) a = Some s" "am_vote s = vote_down" by blast
  have "state_of a (amendmentMap t) = s" by (simp add: state_of_def s)
  then show ?thesis
    by (intro saved_ok_vote [OF assms, where a = a and v = vote_up])
       (simp_all add: operator_vote_def unVeto_def s state_of_update)
next
  case False
  then have "snd (unVeto a t) = t" by (auto simp: unVeto_def split: option.split)
  then show ?thesis using assms by simp
qed

lemma enable_fields:
  "operator_vote (snd (enable a t)) b = operator_vote t b" "at_db (snd (enable a t)) = at_db t"
  "previousTrustedVotes (snd (enable a t)) = previousTrustedVotes t" "majorityTime (snd (enable a t)) = majorityTime t"
  by (simp_all add: operator_vote_def enable_def Let_def state_of_update)

lemma fold_enable_fields:
  "operator_vote (fold (\<lambda>e t. snd (enable e t)) en t) b = operator_vote t b"
  "at_db (fold (\<lambda>e t. snd (enable e t)) en t) = at_db t"
  "previousTrustedVotes (fold (\<lambda>e t. snd (enable e t)) en t) = previousTrustedVotes t"
  "majorityTime (fold (\<lambda>e t. snd (enable e t)) en t) = majorityTime t"
  by (induction en arbitrary: t) (simp_all add: enable_fields)

lemma note_majority_state: "state_of a (fst (note_majority e mf)) = state_of a (fst mf)"
  by (cases e; cases mf) (simp add: note_majority_def Let_def)

lemma fold_note_majority_state: "state_of a (fst (fold note_majority maj mf)) = state_of a (fst mf)"
  by (induction maj arbitrary: mf) (simp_all add: note_majority_state)

lemma doValidatedLedger_eq:
  "doValidatedLedger seq en maj t =
     (let t1 = fold (\<lambda>e t. snd (enable e t)) en t; mf = fold note_majority maj (amendmentMap t1, None)
      in t1\<lparr>lastUpdateSeq := seq, amendmentMap := fst mf,
            firstUnsupportedExpected := map_option (\<lambda>f. word_of_int (uint f + majorityTime t1)) (snd mf)\<rparr>)"
  by (simp add: doValidatedLedger_def Let_def case_prod_unfold)

lemma doValidatedLedger_fields:
  "operator_vote (doValidatedLedger seq en maj t) a = operator_vote t a" "at_db (doValidatedLedger seq en maj t) = at_db t"
  "previousTrustedVotes (doValidatedLedger seq en maj t) = previousTrustedVotes t"
  using fold_enable_fields(1) [of en t a]
  by (simp_all add: doValidatedLedger_eq Let_def operator_vote_def fold_note_majority_state fold_enable_fields)

lemma doVoting_fields:
  assumes "doVoting_amendments rules ct en maj vals t = Some (acts, t')"
  shows "amendmentMap t' = amendmentMap t" "at_db t' = at_db t" "unsupportedEnabled t' = unsupportedEnabled t"
    and "recordVotes vals ct (previousTrustedVotes t) = Some (previousTrustedVotes t')"
  using assms by (auto simp: doVoting_amendments_def Let_def split: option.splits)

lemma reach_saved: "amendment_reach supported T t \<Longrightarrow> saved_ok supported t"
proof (induction rule: amendment_reach.induct)
  case (start majTime enabled vetoed db t T)
  then show ?case by (rule new_table_saved)
next
  case (enabled T t a)
  show ?case by (rule saved_ok_same [OF enabled.IH]) (simp_all add: enable_fields)
next
  case (ledger T t seq en maj)
  show ?case by (rule saved_ok_same [OF ledger.IH]) (simp_all add: doValidatedLedger_fields)
next
  case (trusted T t ks)
  show ?case by (rule saved_ok_same [OF trusted.IH]) (simp_all add: trustChanged_amendments_def operator_vote_def)
next
  case (voted T t closeTime rules en maj vals acts t')
  show ?case by (rule saved_ok_same [OF voted.IH]) (simp_all add: operator_vote_def doVoting_fields [OF voted.hyps(4)])
qed (simp_all add: saved_ok_veto saved_ok_unVeto)

text \<open>The warning for unsupported amendments, and the votes on file.\<close>

definition flag_ok :: "AmendmentTable \<Rightarrow> bool" where
  "flag_ok t \<longleftrightarrow> distinct_keys (amendmentMap t)
     \<and> unsupportedEnabled t = (\<exists>a. am_enabled (state_of a (amendmentMap t)) \<and> \<not> am_supported (state_of a (amendmentMap t)))"

definition timeouts_ok :: "u32 \<Rightarrow> TrustedVotes \<Rightarrow> bool" where
  "timeouts_ok T votes \<longleftrightarrow> votes_ok votes \<and> (\<forall>(k, u) \<in> set votes. \<forall>x. ut_timeout u = Some x \<longrightarrow> x \<le> T + expiresAfter)"

lemma distinct_add_amendment: "distinct_keys m \<Longrightarrow> distinct_keys (add_amendment a m)"
  by (simp add: add_amendment_def)

lemma distinct_read_row: "read_row r m = Some m' \<Longrightarrow> distinct_keys m \<Longrightarrow> distinct_keys m'"
  by (auto simp: read_row_def split: option.splits if_splits)

lemma distinct_read_rows: "read_rows rs m = Some m' \<Longrightarrow> distinct_keys m \<Longrightarrow> distinct_keys m'"
  by (induction rs arbitrary: m) (auto split: option.splits dest: distinct_read_row)

lemma distinct_add_supported: "distinct_keys m \<Longrightarrow> distinct_keys (fold add_supported fs m)"
  by (induction fs arbitrary: m) (simp_all add: add_supported_def)

lemma not_enabled_supported: "(\<forall>a. \<not> am_enabled (state_of a m)) \<Longrightarrow> \<not> am_enabled (state_of a (fold add_supported fs m))"
  by (induction fs arbitrary: m) (simp_all add: add_supported_def state_of_update)

lemma read_vote_enabled [simp]: "am_enabled (read_vote n v s) = am_enabled s"
  by (simp add: read_vote_def Let_def)

lemma not_enabled_read: "read_rows rs m = Some m' \<Longrightarrow> \<forall>a. \<not> am_enabled (state_of a m) \<Longrightarrow> \<not> am_enabled (state_of a m')"
proof (induction rs arbitrary: m)
  case (Cons r rs)
  obtain m1 where m1: "read_row r m = Some m1" "read_rows rs m1 = Some m'"
    using Cons.prems(1) by (auto split: option.splits)
  obtain b n where b: "fr_hash r = Some b" "fr_name r = Some n" using m1(1) by (auto simp: read_row_def split: option.splits)
  have "m1 = m \<or> (\<exists>v. m1 = AList.update b (read_vote n v (state_of b m)) m)"
    using m1(1) b by (auto simp: read_row_def state_of_def split: option.splits if_splits)
  then have "\<forall>a. \<not> am_enabled (state_of a m1)"
    using Cons.prems(2) by (auto simp: state_of_update split: if_splits)
  then show ?case using Cons.IH [OF m1(2)] by simp
qed simp

lemma flag_ok_new:
  assumes "new_AmendmentTable mt supported enabled vetoed db = Some t"
  shows "flag_ok t" and "previousTrustedVotes t = []"
proof -
  obtain rows m where rr: "read_rows (readAmendments rows) (fold add_supported supported []) = Some m"
    and t: "amendmentMap t = m" "unsupportedEnabled t = False" "previousTrustedVotes t = []"
    using assms by (auto simp: new_AmendmentTable_def Let_def split: option.splits)
  have "\<forall>a. \<not> am_enabled (state_of a [])" by (simp add: state_of_def new_AmendmentState_def)
  then have "\<not> am_enabled (state_of a m)" for a
    using not_enabled_read [OF rr] not_enabled_supported by blast
  then show "flag_ok t" using distinct_read_rows [OF rr distinct_add_supported] by (simp add: flag_ok_def t)
  show "previousTrustedVotes t = []" by (rule t(3))
qed

lemma flag_ok_enable: "flag_ok t \<Longrightarrow> flag_ok (snd (enable a t))"
  by (auto simp: flag_ok_def enable_def Let_def state_of_update distinct_add_amendment)

lemma flag_ok_ledger:
  assumes "flag_ok t"
  shows "flag_ok (doValidatedLedger seq en maj t)"
proof -
  let ?t = "fold (\<lambda>e t. snd (enable e t)) en t"
  have t: "flag_ok ?t" using assms by (induction en arbitrary: t) (simp_all add: flag_ok_enable)
  have "distinct_keys (fst (fold note_majority maj mf))" if "distinct_keys (fst mf)" for mf
    using that
  proof (induction maj arbitrary: mf)
    case (Cons e maj)
    have "distinct_keys (fst (note_majority e mf))"
      using Cons.prems by (cases e; cases mf) (simp add: note_majority_def Let_def distinct_add_amendment)
    then show ?case using Cons.IH by simp
  qed simp
  then show ?thesis using t by (simp add: doValidatedLedger_eq Let_def flag_ok_def fold_note_majority_state)
qed

lemma flag_ok_operator: "flag_ok t \<Longrightarrow> flag_ok (snd (veto a t))" "flag_ok t \<Longrightarrow> flag_ok (snd (unVeto a t))"
proof -
  show "flag_ok t \<Longrightarrow> flag_ok (snd (veto a t))"
    by (auto simp: flag_ok_def veto_def Let_def state_of_update distinct_add_amendment split: if_splits)
  show "flag_ok t \<Longrightarrow> flag_ok (snd (unVeto a t))"
  proof (cases "map_of (amendmentMap t) a")
    case (Some s)
    then have "state_of a (amendmentMap t) = s" by (simp add: state_of_def)
    moreover assume "flag_ok t"
    ultimately show ?thesis using Some by (auto simp: flag_ok_def unVeto_def state_of_update split: if_splits)
  qed (simp add: unVeto_def)
qed

lemma timeouts_ok_trust: "timeouts_ok T votes \<Longrightarrow> distinct ks \<Longrightarrow> timeouts_ok T (trustChanged_votes ks votes)"
  by (auto simp: timeouts_ok_def votes_ok_def trustChanged_votes_def no_votes_def comp_def split: option.splits
      dest!: map_of_SomeD)

lemma later_timeout:
  assumes "T \<le> closeTime" and "closeTime \<le> closeTime + expiresAfter" and "x \<le> T + expiresAfter"
  shows "x \<le> closeTime + expiresAfter"
proof -
  have "unat closeTime + 86400 < 2 ^ 32"
    using assms(2) no_olen_add_nat [of closeTime expiresAfter] by (simp add: expiresAfter_def)
  then have "T + expiresAfter \<le> closeTime + expiresAfter"
    using assms(1) by (simp add: expiresAfter_def word_le_nat_alt unat_word_ariths)
  then show ?thesis using assms(3) by simp
qed

lemma recordVotes_returns:
  assumes "timeouts_ok T old" and "T \<le> closeTime" and "closeTime \<le> closeTime + expiresAfter"
  shows "\<exists>votes. recordVotes vals closeTime old = Some votes"
proof -
  let ?T = "closeTime + expiresAfter"
  let ?mid = "fold (record_validation ?T) vals old"
  have d: "distinct_keys ?mid" "distinct_keys old"
    using assms(1) fold_record_validation(2) by (auto simp: timeouts_ok_def votes_ok_def)
  have "expire_votes closeTime ?T u \<noteq> None" if "(k, u) \<in> set ?mid" for k u
  proof -
    have "map_of ?mid k = Some u" using that d(1) by simp
    then obtain u0 where u0: "map_of old k = Some u0"
      and u: "u = (case last_validation vals k of None \<Rightarrow> u0 | Some v \<Rightarrow> \<lparr>upVotes = choices v, ut_timeout = Some ?T\<rparr>)"
      unfolding fold_record_validation(3) by (auto split: option.splits)
    have "ut_timeout u0 = None \<Longrightarrow> upVotes u0 = []" "\<And>x. ut_timeout u0 = Some x \<Longrightarrow> x \<le> ?T"
      using assms(1) map_of_SomeD [OF u0] later_timeout [OF assms(2,3)] by (auto simp: timeouts_ok_def votes_ok_def)
    then show ?thesis using u assms(3) by (auto simp: expire_votes_def split: option.splits)
  qed
  then show ?thesis using expire_all_Some [of ?mid closeTime ?T] by (simp add: recordVotes_def Let_def)
qed

lemma timeouts_ok_recorded:
  assumes "timeouts_ok T old" and "T \<le> closeTime" and "closeTime \<le> closeTime + expiresAfter"
    and "recordVotes vals closeTime old = Some votes"
  shows "timeouts_ok closeTime votes"
proof -
  have d: "distinct_keys old" using assms(1) by (simp add: timeouts_ok_def votes_ok_def)
  note sp = recordVotes_spec [OF assms(4) d assms(3)]
  have "x \<le> closeTime + expiresAfter" if m: "(k, u) \<in> set votes" and x: "ut_timeout u = Some x" for k u x
  proof -
    have u: "map_of votes k = Some u" using in_set_map_of [OF sp(1)] m by simp
    then obtain u0 where "map_of old k = Some u0"
      using sp(2) by (metis map_of_eq_None not_Some_eq)
    then have "ut_timeout u0 = Some y \<Longrightarrow> y \<le> closeTime + expiresAfter" for y
      using assms(1) later_timeout [OF assms(2,3)] map_of_SomeD by (fastforce simp: timeouts_ok_def)
    then show ?thesis
      using u x sp(4) [of k] \<open>map_of old k = Some u0\<close> by (auto simp: no_votes_def split: if_splits option.splits)
  qed
  then show ?thesis using sp(3) by (auto simp: timeouts_ok_def)
qed

lemma reach_table_ok: "amendment_reach supported T t \<Longrightarrow> flag_ok t \<and> timeouts_ok T (previousTrustedVotes t)"
proof (induction rule: amendment_reach.induct)
  case (start majTime enabled vetoed db t T)
  then show ?case using flag_ok_new by (simp add: timeouts_ok_def votes_ok_def)
next
  case (vetoed T t a)
  then show ?case using flag_ok_operator(1) by (simp add: veto_def Let_def)
next
  case (unvetoed T t a)
  have "previousTrustedVotes (snd (unVeto a t)) = previousTrustedVotes t" by (simp add: unVeto_def split: option.split)
  then show ?case using flag_ok_operator(2) unvetoed.IH by simp
next
  case (enabled T t a)
  then show ?case using flag_ok_enable by (simp add: enable_fields)
next
  case (ledger T t seq en maj)
  then show ?case using flag_ok_ledger by (simp add: doValidatedLedger_fields)
next
  case (trusted T t ks)
  then show ?case using timeouts_ok_trust by (simp add: trustChanged_amendments_def flag_ok_def)
next
  case (voted T t closeTime rules en maj vals acts t')
  then show ?case
    using timeouts_ok_recorded [OF _ voted.hyps(2,3) doVoting_fields(4) [OF voted.hyps(4)]] doVoting_fields(1,3) [OF voted.hyps(4)]
    by (simp add: flag_ok_def)
qed

subsection \<open>A validated ledger\<close>

lemma isEnabled_state: "isEnabled a t = am_enabled (state_of a (amendmentMap t))"
  by (simp add: isEnabled_def state_of_def new_AmendmentState_def split: option.split)

lemma isSupported_state: "isSupported_amendment a t = am_supported (state_of a (amendmentMap t))"
  by (simp add: isSupported_amendment_def state_of_def new_AmendmentState_def split: option.split)

lemma enable_state:
  "am_enabled (state_of b (amendmentMap (snd (enable a t)))) = (am_enabled (state_of b (amendmentMap t)) \<or> b = a)"
  "am_supported (state_of b (amendmentMap (snd (enable a t)))) = am_supported (state_of b (amendmentMap t))"
  by (auto simp: enable_def Let_def state_of_update)

lemma fold_enable_state:
  "am_enabled (state_of b (amendmentMap (fold (\<lambda>e t. snd (enable e t)) en t)))
     = (am_enabled (state_of b (amendmentMap t)) \<or> b \<in> set en)"
  "am_supported (state_of b (amendmentMap (fold (\<lambda>e t. snd (enable e t)) en t))) = am_supported (state_of b (amendmentMap t))"
  by (induction en arbitrary: t) (auto simp: enable_state)

lemma doValidatedLedger_state:
  "isEnabled a (doValidatedLedger seq en maj t) = (isEnabled a t \<or> a \<in> set en)"
  "isSupported_amendment a (doValidatedLedger seq en maj t) = isSupported_amendment a t"
  by (simp_all add: isEnabled_state isSupported_state doValidatedLedger_eq Let_def fold_note_majority_state fold_enable_state)

definition pending :: "(uint256 \<Rightarrow> bool) \<Rightarrow> (uint256 \<times> u32) list \<Rightarrow> u32 set" where
  "pending P maj = snd ` {e \<in> set maj. P (fst e)}"

lemma finite_pending [simp]: "finite (pending P maj)"
  by (simp add: pending_def)

lemma pending_simps [simp]:
  "pending P [] = {}" "pending P (e # maj) = (if P (fst e) then insert (snd e) (pending P maj) else pending P maj)"
  by (auto simp: pending_def)

lemma fold_note_majority_first:
  "snd (fold note_majority maj (m, first)) =
     (let S = pending (\<lambda>h. \<not> am_enabled (state_of h m) \<and> \<not> am_supported (state_of h m)) maj \<union> set_option first
      in if S = {} then None else Some (Min S))"
proof (induction maj arbitrary: m first)
  case Nil
  then show ?case by (cases first) (simp_all add: pending_def)
next
  case (Cons e maj)
  obtain h time where e: "e = (h, time)" by (cases e)
  let ?P = "\<lambda>h. \<not> am_enabled (state_of h m) \<and> \<not> am_supported (state_of h m)"
  obtain m1 f1 where n: "note_majority e (m, first) = (m1, f1)" by fastforce
  have m1: "state_of a m1 = state_of a m" for a using note_majority_state [of a e "(m, first)"] n by simp
  have f1: "f1 = (if ?P h then Some (case first of None \<Rightarrow> time | Some f \<Rightarrow> min time f) else first)"
    using n by (auto simp: note_majority_def e Let_def min_def not_less split: if_splits option.splits)
  have st: "snd (fold note_majority (e # maj) (m, first)) = (let S = pending ?P maj \<union> set_option f1 in if S = {} then None else Some (Min S))"
    using Cons.IH [of m1 f1] by (simp add: n m1)
  show ?case
  proof (cases "?P h")
    case True
    let ?A = "pending ?P maj"
    have "Min (insert (min time f) ?A) = Min (insert f (insert time ?A))" for f
      by (cases "?A = {}") (simp_all add: min.assoc min.left_commute min.commute)
    then show ?thesis unfolding st using True f1 by (cases first) (simp_all add: e Let_def insert_commute)
  next
    case False
    then have "f1 = first" unfolding f1 by (rule if_not_P)
    moreover have "pending ?P (e # maj) = pending ?P maj" using False by (auto simp: e)
    ultimately show ?thesis unfolding st by simp
  qed
qed

section \<open>A server and its validators\<close>

text \<open>One amendment, number 5, that the server supports; three trusted validators, of which two vote for it and one is silent.\<close>

definition demo_supported :: "FeatureInfo list" where
  "demo_supported = [\<lparr>fi_name = ''five'', fi_feature = 5, fi_vote = DefaultYes\<rparr>]"

definition demo_table0 :: AmendmentTable where
  "demo_table0 = the (new_AmendmentTable 50 demo_supported [] [] None)"

definition demo_trusted :: TrustedVotes where
  "demo_trusted = trustChanged_votes [demo_key 1, demo_key 2, demo_key 3] []"

definition demo_table :: AmendmentTable where
  "demo_table = trustChanged_amendments [demo_key 1, demo_key 2, demo_key 3] demo_table0"

definition demo_ballots :: "AmendmentValidation list" where
  "demo_ballots = [\<lparr>avl_SignerPublic = demo_key 1, avl_Amendments = Some [5]\<rparr>,
                   \<lparr>avl_SignerPublic = demo_key 2, avl_Amendments = Some [5, 6]\<rparr>]"

lemma demo_table0_Some: "new_AmendmentTable 50 demo_supported [] [] None = Some demo_table0"
proof -
  have "new_AmendmentTable 50 demo_supported [] [] None \<noteq> None" by code_simp
  then show ?thesis by (auto simp: demo_table0_def)
qed

lemma demo_table_reach: "amendment_reach demo_supported T demo_table"
  unfolding demo_table_def
  by (rule amendment_reach.trusted [OF amendment_reach.start [OF demo_table0_Some]]) (simp add: demo_key_def)

lemma demo_table_map: "map fst (amendmentMap demo_table) = [5]"
  by code_simp

section \<open>Properties\<close>

text \<open>
  C23. When an amendment has a majority. Every trusted validator counts once, with its last validation, or, if it sent none for this
  ledger, with what it said less than a day ago. With \<^verbatim>\<open>fixAmendmentMajorityCalc\<close> an amendment passes exactly if more than 67% of the
  validators that count are for it; without it, if at least one is, and at least 204 in 256 of them, rounded down, are. This
  holds if no validator lists an amendment twice in a validation.
\<close>

theorem amendment_majority:
  assumes "distinct_keys old" and "recordVotes vals closeTime old = Some votes" and "closeTime \<le> closeTime + expiresAfter"
    and "\<forall>v \<in> set vals. distinct (choices v)" and "\<forall>(k, u) \<in> set old. distinct (upVotes u)"
    and "counted = card {k. current_votes old vals closeTime k \<noteq> None}"
    and "for_it = card {k. \<exists>vs. current_votes old vals closeTime k = Some vs \<and> a \<in> set vs}"
  shows "passes rules (new_AmendmentSet rules votes) a \<longleftrightarrow>
    (if rules fixAmendmentMajorityCalc then 67 * counted < 100 * for_it
     else 0 < for_it \<and> 204 * counted div 256 \<le> for_it)"
proof -
  note sp = recordVotes_spec [OF assms(2,1,3)]
  have "\<forall>(k, u) \<in> set votes. distinct (upVotes u)" by (rule recorded_distinct [OF assms(2,1,3,4,5)])
  then have vc: "vote_count votes a = for_it"
    using vote_count_supporters [OF sp(1)] recorded_sets [OF assms(2,1,3)] assms(7) by simp
  have hc: "heard_count votes = counted"
    using heard_count_card [OF sp(1)] recorded_sets [OF assms(2,1,3)] assms(6) by simp
  show ?thesis
  proof (cases "rules fixAmendmentMajorityCalc")
    case True
    then show ?thesis using passes_two_thirds [where rules = rules, OF sp(3)] vc hc by simp
  next
    case False
    have "204 * counted div 256 = counted * 51 div 64"
    proof -
      have "204 * counted div 256 = 4 * (counted * 51) div (4 * 64)" by (simp add: mult.commute)
      then show ?thesis by (simp only: div_mult_mult1 [of 4] zero_neq_numeral not_False_eq_True)
    qed
    then show ?thesis using False by (auto simp: passes_count vc hc computeThreshold_def)
  qed
qed

theorem amendment_majority_witness:
  "67 * card {k. current_votes demo_trusted demo_ballots 100 k \<noteq> None}
     < 100 * card {k. \<exists>vs. current_votes demo_trusted demo_ballots 100 k = Some vs \<and> 5 \<in> set vs}"
proof -
  obtain votes where rv: "recordVotes demo_ballots 100 demo_trusted = Some votes"
    and p: "passes (\<lambda>_. True) (new_AmendmentSet (\<lambda>_. True) votes) 5"
  proof -
    have "case recordVotes demo_ballots 100 demo_trusted of None \<Rightarrow> False
      | Some votes \<Rightarrow> passes (\<lambda>_. True) (new_AmendmentSet (\<lambda>_. True) votes) 5" by code_simp
    then show thesis using that by (auto split: option.splits)
  qed
  have d: "distinct_keys demo_trusted" "\<forall>(k, u) \<in> set demo_trusted. distinct (upVotes u)"
    "\<forall>v \<in> set demo_ballots. distinct (choices v)" "(100 :: u32) \<le> 100 + expiresAfter"
    by code_simp+
  show ?thesis using amendment_majority [OF d(1) rv d(4,3,2) refl refl, of "\<lambda>_. True" 5] p by simp
qed

text \<open>
  C29. The votes are counted per entry of a validation, not per validator: a trusted validator that lists an amendment once for
  every trusted validator carries it alone, with all others heard and against.
\<close>

theorem repeated_entries_count:
  assumes "distinct ks" and "k \<in> set ks" and "closeTime \<le> closeTime + expiresAfter" and "rules fixAmendmentMajorityCalc"
    and "vals = map (\<lambda>x. \<lparr>avl_SignerPublic = x, avl_Amendments = Some (if x = k then replicate (length ks) a else [])\<rparr>) ks"
  shows "\<exists>votes. recordVotes vals closeTime (trustChanged_votes ks []) = Some votes
    \<and> heard votes = set ks \<and> supporters votes a = {k} \<and> passes rules (new_AmendmentSet rules votes) a"
proof -
  let ?old = "trustChanged_votes ks []"
  have old: "distinct_keys ?old" "keys ?old = set ks"
    using assms(1) by (simp_all add: trustChanged_votes_def comp_def image_image)
  have "timeouts_ok 0 ?old" using assms(1) by (auto simp: timeouts_ok_def votes_ok_def trustChanged_votes_def no_votes_def comp_def)
  then obtain votes where rv: "recordVotes vals closeTime ?old = Some votes"
    using recordVotes_returns [where vals = vals, OF _ _ assms(3)] word_zero_le by blast
  have lv: "last_validation vals x = Some \<lparr>avl_SignerPublic = x, avl_Amendments = Some (if x = k then replicate (length ks) a else [])\<rparr>"
    if "x \<in> set ks" for x
  proof -
    let ?f = "\<lambda>x. \<lparr>avl_SignerPublic = x, avl_Amendments = Some (if x = k then replicate (length ks) a else [])\<rparr>"
    have "List.find (\<lambda>v. avl_SignerPublic v = x) (map ?f ys) = Some (?f x)" if "x \<in> set ys" for ys
      using that by (induction ys) auto
    then show ?thesis using that by (simp add: last_validation_def assms(5) rev_map)
  qed
  have cv: "current_votes ?old vals closeTime x = (if x \<notin> set ks then None else Some (if x = k then replicate (length ks) a else []))" for x
    using old(2) lv [of x] by (simp add: current_votes_def choices_def)
  note sp = recordVotes_spec [OF rv old(1) assms(3)] and sets = recorded_sets [OF rv old(1) assms(3)]
  have heard: "heard votes = set ks" and sup: "supporters votes a = {k}"
    using assms(2) by (auto simp: sets cv split: if_splits)
  have n: "0 < length ks" using assms(2) by (cases ks) auto
  have "map_of votes k = Some \<lparr>upVotes = replicate (length ks) a, ut_timeout = Some (closeTime + expiresAfter)\<rparr>"
    using sp(4) [of k] lv [OF assms(2)] assms(2) old(2) by (simp add: cv)
  then have "(k, \<lparr>upVotes = replicate (length ks) a, ut_timeout = Some (closeTime + expiresAfter)\<rparr>) \<in> set votes"
    by (rule map_of_SomeD)
  then obtain v1 v2 where "votes = v1 @ (k, \<lparr>upVotes = replicate (length ks) a, ut_timeout = Some (closeTime + expiresAfter)\<rparr>) # v2"
    by (meson split_list)
  then have "length ks \<le> vote_count votes a" by (simp add: vote_count_def)
  moreover have "heard_count votes = length ks"
    using heard_count_card [OF sp(1)] heard distinct_card [OF assms(1)] by simp
  ultimately have "passes rules (new_AmendmentSet rules votes) a"
    unfolding passes_two_thirds [where rules = rules, OF sp(3) assms(4)] using n by linarith
  then show ?thesis using rv heard sup by blast
qed

theorem repeated_entries_count_witness:
  "\<exists>votes. recordVotes (map (\<lambda>x. \<lparr>avl_SignerPublic = x, avl_Amendments = Some (if x = demo_key 1 then [5, 5, 5] else [])\<rparr>)
        [demo_key 1, demo_key 2, demo_key 3]) 100 (trustChanged_votes [demo_key 1, demo_key 2, demo_key 3] []) = Some votes
    \<and> supporters votes 5 = {demo_key 1} \<and> passes (\<lambda>_. True) (new_AmendmentSet (\<lambda>_. True) votes) 5"
proof -
  let ?ks = "[demo_key 1, demo_key 2, demo_key 3]"
  have d: "distinct ?ks" "demo_key 1 \<in> set ?ks" by (simp_all add: demo_key_def)
  have r: "replicate (length ?ks) (5 :: uint256) = [5, 5, 5]" by (simp add: numeral_3_eq_3)
  have "(100 :: u32) \<le> 100 + expiresAfter" by code_simp
  from repeated_entries_count [OF d this, of "\<lambda>_. True", OF _ refl, of 5, unfolded r] show ?thesis by blast
qed

text \<open>
  C27. The operator's votes survive a restart: a new table read from the database gives every amendment the vote that the old table had,
  whatever the configuration file says by then.
\<close>

theorem operator_votes_survive_restart:
  assumes "amendment_reach supported T t" and "parseSection enabled \<noteq> None" and "parseSection vetoed \<noteq> None"
  shows "\<exists>t0. new_AmendmentTable mt supported enabled vetoed (Some (at_db t)) = Some t0
    \<and> (\<forall>a. operator_vote t0 a = operator_vote t a)"
proof -
  have sv: "saved_ok supported t" by (rule reach_saved [OF assms(1)])
  have "\<exists>m. read_rows (readAmendments (at_db t)) (fold add_supported supported []) = Some m"
    unfolding read_rows_Some using sv by (simp add: saved_ok_def)
  then obtain t0 where t0: "new_AmendmentTable mt supported enabled vetoed (Some (at_db t)) = Some t0" "at_db t0 = at_db t"
    using assms(2,3) by (auto simp: new_AmendmentTable_def Let_def)
  then have "operator_vote t0 a = operator_vote t a" for a
    using new_table_saved [OF t0(1)] sv by (simp add: saved_ok_def)
  then show ?thesis using t0(1) by blast
qed

theorem operator_votes_survive_restart_witness:
  "\<exists>t0. new_AmendmentTable 50 demo_supported [] [] (Some (at_db (snd (veto 5 demo_table)))) = Some t0
    \<and> operator_vote t0 5 = vote_down"
proof -
  have "operator_vote (snd (veto 5 demo_table)) 5 = vote_down" by code_simp
  then show ?thesis
    using operator_votes_survive_restart [OF amendment_reach.vetoed [OF demo_table_reach], of "[]" "[]" 50 5] by auto
qed

text \<open>
  C28. Voting never fails, and the table knows what it cannot support: in every reachable table the votes are filed under distinct
  validators, a validator without a date has no votes (the assertions of \<^verbatim>\<open>recordVotes\<close> and \<^verbatim>\<open>getVotes\<close>), and the warning for unsupported
  amendments is on exactly if one of them is enabled; if close times do not go back, the next vote returns.
\<close>

theorem amendment_table_sound:
  assumes "amendment_reach supported T t"
  shows "votes_ok (previousTrustedVotes t) \<and> distinct_keys (amendmentMap t)
    \<and> (unsupportedEnabled t \<longleftrightarrow> (\<exists>a. isEnabled a t \<and> \<not> isSupported_amendment a t))
    \<and> (T \<le> closeTime \<and> closeTime \<le> closeTime + expiresAfter \<longrightarrow>
        doVoting_amendments rules closeTime en maj vals t \<noteq> None)"
proof -
  note ok = reach_table_ok [OF assms]
  have "doVoting_amendments rules closeTime en maj vals t \<noteq> None" if "T \<le> closeTime" "closeTime \<le> closeTime + expiresAfter"
    using recordVotes_returns [OF conjunct2 [OF ok] that, of vals] by (auto simp: doVoting_amendments_def Let_def)
  then show ?thesis using ok by (auto simp: flag_ok_def timeouts_ok_def isEnabled_state isSupported_state)
qed

theorem amendment_table_sound_witness:
  "doVoting_amendments (\<lambda>_. True) 100 [] [] demo_ballots demo_table \<noteq> None"
proof -
  have "(100 :: u32) \<le> 100 + expiresAfter" by code_simp
  then show ?thesis
    using amendment_table_sound [OF demo_table_reach [of 0], of 100 "\<lambda>_. True" "[]" "[]" demo_ballots] by simp
qed

text \<open>
  A validated ledger is noted completely: its amendments become enabled, the warning for unsupported amendments is set if
  one of them is not supported, and the date of the first unsupported amendment is the earliest majority of such an
  amendment plus the waiting time.
\<close>

theorem validated_ledger_noted:
  assumes "amendment_reach supported T t" and "t' = doValidatedLedger seq enabled maj t"
    and "S = pending (\<lambda>a. \<not> isEnabled a t' \<and> \<not> isSupported_amendment a t) maj"
  shows "(\<forall>a. isEnabled a t' \<longleftrightarrow> isEnabled a t \<or> a \<in> set enabled)
    \<and> (unsupportedEnabled t' \<longleftrightarrow> unsupportedEnabled t \<or> (\<exists>a \<in> set enabled. \<not> isSupported_amendment a t))
    \<and> firstUnsupportedExpected t' = (if S = {} then None else Some (word_of_int (uint (Min S) + majorityTime t)))"
proof -
  have en: "isEnabled a t' \<longleftrightarrow> isEnabled a t \<or> a \<in> set enabled" for a by (simp add: assms(2) doValidatedLedger_state)
  have su: "isSupported_amendment a t' = isSupported_amendment a t" for a by (simp add: assms(2) doValidatedLedger_state)
  have "flag_ok t'" "flag_ok t" using reach_table_ok [OF assms(1)] flag_ok_ledger assms(2) by simp_all
  then have "unsupportedEnabled t' \<longleftrightarrow> unsupportedEnabled t \<or> (\<exists>a \<in> set enabled. \<not> isSupported_amendment a t)"
    using en su by (auto simp: flag_ok_def isEnabled_state isSupported_state)
  moreover have "firstUnsupportedExpected t' = (if S = {} then None else Some (word_of_int (uint (Min S) + majorityTime t)))"
    unfolding assms(3) en
    by (simp add: assms(2) doValidatedLedger_eq Let_def fold_note_majority_first fold_enable_state fold_enable_fields
        isEnabled_state isSupported_state conj_commute)
  ultimately show ?thesis using en by blast
qed

end
