(* ===== verification/Amendment_Voting.thy ===== *)
theory Amendment_Voting
  imports Amendment_Table
begin

unbundle bit_operations_syntax

text \<open>
  Amendment votes on the ledger. \<open>amendment_status\<close> is what a ledger says about one amendment, and \<open>status_step\<close> how a round of
  voting should move it. The theory shows that the pseudo-transactions of \<^verbatim>\<open>AmendmentTable::doVoting\<close>, applied by
  \<^verbatim>\<open>Change::applyAmendment\<close> to the next ledger, do exactly that, and what follows for a chain of ledgers.
\<close>

section \<open>From votes to the ledger\<close>

text \<open>What the ledger says about one amendment, and how a round of voting moves it.\<close>

datatype AmendmentStatus = Idle | Held u32 | Active

definition majority_list :: "View \<Rightarrow> Majority list" where
  "majority_list view = (case am_Majorities (amendments_of view) of None \<Rightarrow> [] | Some ms \<Rightarrow> ms)"

definition amendment_status :: "View \<Rightarrow> uint256 \<Rightarrow> AmendmentStatus" where
  "amendment_status view a =
     (if a \<in> set (am_Amendments (amendments_of view)) then Active
      else case map_of (map (\<lambda>m. (mj_Amendment m, mj_CloseTime m)) (majority_list view)) a of None \<Rightarrow> Idle | Some t \<Rightarrow> Held t)"

fun apply_flag :: "u32 \<Rightarrow> u32 \<Rightarrow> AmendmentStatus \<Rightarrow> AmendmentStatus" where
  "apply_flag now flags Active = Active"
| "apply_flag now flags Idle = (if flags = tfGotMajority then Held now else if flags = 0 then Active else Idle)"
| "apply_flag now flags (Held t) = (if flags = tfLostMajority then Idle else if flags = 0 then Active else Held t)"

definition action_flags :: "u32 set" where
  "action_flags = {tfGotMajority, tfLostMajority, 0}"

lemma flag_bits:
  "tfGotMajority AND tfGotMajority \<noteq> 0" "tfGotMajority AND tfLostMajority = 0" "tfLostMajority AND tfLostMajority \<noteq> 0"
  "tfLostMajority AND tfGotMajority = 0" "tfGotMajority \<noteq> 0" "tfLostMajority \<noteq> 0" "tfGotMajority \<noteq> tfLostMajority"
  "tfLostMajority \<noteq> tfGotMajority"
  by (simp_all add: tfGotMajority_def tfLostMajority_def)

lemma scan_majorities_result:
  "scan_majorities a got ms =
     (if got \<and> a \<in> mj_Amendment ` set ms then Inl tefALREADY
      else Inr (filter (\<lambda>m. mj_Amendment m \<noteq> a) ms, a \<in> mj_Amendment ` set ms))"
  by (induction ms) auto

lemma majority_list_amend_ok:
  "amend_ok (amendments_of view) \<Longrightarrow> distinct (map mj_Amendment (majority_list view))
     \<and> mj_Amendment ` set (majority_list view) \<inter> set (am_Amendments (amendments_of view)) = {}"
  by (auto simp: amend_ok_def majority_list_def split: option.splits)

lemma status_cases:
  "amendment_status view a = Active \<longleftrightarrow> a \<in> set (am_Amendments (amendments_of view))"
  "amend_ok (amendments_of view) \<Longrightarrow> amendment_status view a = Idle \<longleftrightarrow>
     a \<notin> set (am_Amendments (amendments_of view)) \<and> a \<notin> mj_Amendment ` set (majority_list view)"
  by (auto simp: amendment_status_def map_of_eq_None_iff image_image split: option.splits)
     (force dest!: map_of_SomeD)

lemma applyAmendment_result:
  "fst (applyAmendment supp fid b fl view app) =
     (if b \<in> set (am_Amendments (amendments_of view)) then tefALREADY
      else if fl AND tfGotMajority \<noteq> 0 \<and> fl AND tfLostMajority \<noteq> 0 then temINVALID_FLAG
      else if fl AND tfGotMajority \<noteq> 0 \<and> b \<in> mj_Amendment ` set (majority_list view) then tefALREADY
      else if fl AND tfLostMajority \<noteq> 0 \<and> b \<notin> mj_Amendment ` set (majority_list view) then tefALREADY
      else tesSUCCESS)"
  unfolding applyAmendment_def Let_def amendments_of_def [symmetric] majority_list_def [symmetric] scan_majorities_result
  by simp

lemma applyAmendment_ledger:
  assumes "applyAmendment supp fid b fl view app = (r, view', app')"
  shows "v_open view' = v_open view" "v_rules view' = v_rules view" "v_parentCloseTime view' = v_parentCloseTime view"
  using assms unfolding applyAmendment_def Let_def scan_majorities_result by (auto split: if_splits)

lemma status_after_success:
  assumes ok: "amend_ok (amendments_of view)" and ap: "applyAmendment supp fid b fl view app = (tesSUCCESS, view', app')"
    and fl: "fl \<in> action_flags"
  shows "amendment_status view' a =
    (if a = b then apply_flag (v_parentCloseTime view) fl (amendment_status view b) else amendment_status view a)"
proof -
  let ?p = "filter (\<lambda>m. mj_Amendment m \<noteq> b) (majority_list view)"
  note s = applyAmendment_success [OF ap, folded majority_list_def]
  have ml: "majority_list view' = (if fl AND tfGotMajority \<noteq> 0
      then ?p @ [\<lparr>mj_Amendment = b, mj_CloseTime = v_parentCloseTime view\<rparr>] else ?p)"
    using s(3) by (auto simp: majority_list_def [of view'] Let_def)
  have am: "set (am_Amendments (amendments_of view')) =
      (if fl = 0 then insert b (set (am_Amendments (amendments_of view))) else set (am_Amendments (amendments_of view)))"
    using s(2) fl by (auto simp: action_flags_def flag_bits)
  have old: "map_of (map (\<lambda>m. (mj_Amendment m, mj_CloseTime m)) (filter (\<lambda>m. mj_Amendment m \<noteq> b) ms)) a =
      (if a = b then None else map_of (map (\<lambda>m. (mj_Amendment m, mj_CloseTime m)) ms) a)" for a ms
    by (induction ms) auto
  have new: "map_of (map (\<lambda>m. (mj_Amendment m, mj_CloseTime m)) (majority_list view')) a =
      (if a = b then if fl = tfGotMajority then Some (v_parentCloseTime view) else None
       else map_of (map (\<lambda>m. (mj_Amendment m, mj_CloseTime m)) (majority_list view)) a)" for a
  proof (cases "fl = tfGotMajority")
    case True
    then have "majority_list view' = ?p @ [\<lparr>mj_Amendment = b, mj_CloseTime = v_parentCloseTime view\<rparr>]" by (simp add: ml flag_bits)
    then show ?thesis using True by (simp add: map_add_def old split: option.split)
  next
    case False
    then have "fl AND tfGotMajority = 0" using fl by (auto simp: action_flags_def flag_bits)
    then show ?thesis using False by (simp add: ml old)
  qed
  have nb: "b \<notin> set (am_Amendments (amendments_of view))" by (rule s(1))
  have "fst (applyAmendment supp fid b fl view app) = tesSUCCESS" by (simp add: ap)
  then have "fl = tfGotMajority \<Longrightarrow> b \<notin> mj_Amendment ` set (majority_list view)"
    and "fl = tfLostMajority \<Longrightarrow> b \<in> mj_Amendment ` set (majority_list view)"
    by (auto simp: applyAmendment_result nb flag_bits split: if_splits)
  then have "fl = tfGotMajority \<Longrightarrow> amendment_status view b = Idle" "fl = tfLostMajority \<Longrightarrow> amendment_status view b \<noteq> Idle"
    using status_cases(2) [OF ok] nb by blast+
  moreover have "amendment_status view b \<noteq> Active" using nb by (simp add: status_cases(1))
  ultimately show ?thesis
    using fl nb by (cases "amendment_status view b") (auto simp: amendment_status_def [of view'] amendment_status_def [of view a] am new
        action_flags_def flag_bits)
qed

lemma status_after_failure:
  assumes ok: "amend_ok (amendments_of view)" and ap: "fst (applyAmendment supp fid b fl view app) \<noteq> tesSUCCESS"
    and fl: "fl \<in> action_flags"
  shows "apply_flag now fl (amendment_status view b) = amendment_status view b"
  using ap fl status_cases [of view b] ok
  by (cases "amendment_status view b") (auto simp: applyAmendment_result action_flags_def flag_bits split: if_splits)

lemma process_amendment:
  assumes ok: "amend_ok (amendments_of view)" "\<not> v_open view" and fl: "fl \<in> action_flags" and id: "txID b fl seq \<noteq> 0"
    and res: "snd (process_change env nid (amendment_tx txID seq (b, fl)) (view, app)) = (view', app')"
  shows "amendment_status view' a =
      (if a = b then apply_flag (v_parentCloseTime view) fl (amendment_status view b) else amendment_status view a)"
    and "amend_ok (amendments_of view')" and "\<not> v_open view'" and "v_parentCloseTime view' = v_parentCloseTime view"
proof -
  let ?tx = "amendment_tx txID seq (b, fl)"
  obtain r v1 app1 where ap: "applyAmendment (isSupported env) (fixTrustLinesToSelf env) b fl view app = (r, v1, app1)"
    by (metis prod_cases3)
  have tx: "tx_Type ?tx = ttAMENDMENT" "tx_body ?tx = BodyAmendment b" "tx_Flags ?tx = fl"
    by (simp_all add: amendment_tx_def pseudo_tx_def)
  have "fl AND tfChangeMask = 0" "fl AND tfInnerBatchTxn \<noteq> tfInnerBatchTxn"
    using fl by (auto simp: action_flags_def tfChangeMask_def tfGotMajority_def tfLostMajority_def tfUniversal_def tfInnerBatchTxn_def)
  then have "invokePreflight_Change (v_rules view) nid ?tx = tesSUCCESS"
    using id by (simp add: invokePreflight_Change_def preflight0_def isPseudoTx_def isFlag_def amendment_tx_def pseudo_tx_def Let_def)
  moreover have "preclaim view ?tx = tesSUCCESS" using ok(2) by (simp add: preclaim_def tx)
  moreover have "doApply env ?tx view app = (r, v1, app1)" by (simp add: doApply_def tx ap)
  ultimately have v': "view' = (if r = tesSUCCESS then v1 else view)"
    using res by (simp add: process_change_def Let_def)
  show "amendment_status view' a =
      (if a = b then apply_flag (v_parentCloseTime view) fl (amendment_status view b) else amendment_status view a)"
  proof (cases "r = tesSUCCESS")
    case True
    then show ?thesis using status_after_success [OF ok(1) _ fl] ap v' by simp
  next
    case False
    then have "fst (applyAmendment (isSupported env) (fixTrustLinesToSelf env) b fl view app) \<noteq> tesSUCCESS" by (simp add: ap)
    from status_after_failure [OF ok(1) this fl] show ?thesis using False v' by simp
  qed
  show "amend_ok (amendments_of view')" using amend_ok_step [OF ok(1)] ap ok(1) v' by (cases "r = tesSUCCESS") auto
  show "\<not> v_open view'" "v_parentCloseTime view' = v_parentCloseTime view"
    using applyAmendment_ledger [OF ap] ok(2) v' by simp_all
qed

lemma process_actions:
  assumes "amend_ok (amendments_of view)" and "\<not> v_open view" and "distinct_keys acts"
    and "\<forall>(b, fl) \<in> set acts. fl \<in> action_flags \<and> txID b fl seq \<noteq> 0"
    and "fold (\<lambda>tx s. snd (process_change env nid tx s)) (map (amendment_tx txID seq) acts) (view, app) = (view', app')"
  shows "(\<forall>a. amendment_status view' a = (case map_of acts a of
      None \<Rightarrow> amendment_status view a | Some fl \<Rightarrow> apply_flag (v_parentCloseTime view) fl (amendment_status view a)))
    \<and> amend_ok (amendments_of view')"
  using assms
proof (induction acts arbitrary: view app)
  case (Cons e acts)
  obtain b fl where e: "e = (b, fl)" by (cases e)
  obtain v1 app1 where st: "snd (process_change env nid (amendment_tx txID seq (b, fl)) (view, app)) = (v1, app1)" by fastforce
  from Cons.prems have hyp: "amend_ok (amendments_of view)" "\<not> v_open view" "fl \<in> action_flags" "txID b fl seq \<noteq> 0"
    by (auto simp: e)
  note p = process_amendment [OF hyp st]
  have ih: "distinct_keys acts" "\<forall>(b, fl) \<in> set acts. fl \<in> action_flags \<and> txID b fl seq \<noteq> 0"
    "fold (\<lambda>tx s. snd (process_change env nid tx s)) (map (amendment_tx txID seq) acts) (v1, app1) = (view', app')"
    using Cons.prems st by (auto simp: e)
  have nb: "map_of acts b = None" using Cons.prems by (simp add: e map_of_eq_None)
  note rest = Cons.IH [OF p(2,3) ih]
  have "amendment_status view' a = (case map_of (e # acts) a of
      None \<Rightarrow> amendment_status view a | Some fl \<Rightarrow> apply_flag (v_parentCloseTime view) fl (amendment_status view a))" for a
    using conjunct1 [OF rest, rule_format, of a] p(1) [of a] p(4) nb
    by (cases "a = b") (simp_all add: e split: option.split)
  then show ?case using conjunct2 [OF rest] by (intro conjI allI)
qed simp

lemma set_getEnabledAmendments: "set (getEnabledAmendments view) = set (am_Amendments (amendments_of view))"
  by (simp add: getEnabledAmendments_def amendments_of_def split: option.split)

lemma map_of_fold_update:
  "distinct (map f xs) \<Longrightarrow> map_of (fold (\<lambda>x. AList.update (f x) (g x)) xs m) = map_of m ++ map_of (map (\<lambda>x. (f x, g x)) xs)"
proof (induction xs arbitrary: m)
  case (Cons x xs)
  then have "map_of (map (\<lambda>x. (f x, g x)) xs) (f x) = None" by (force simp: map_of_eq_None_iff)
  then show ?case using Cons by (auto simp: fun_eq_iff map_add_def split: option.split)
qed simp

lemma map_of_getMajorityAmendments:
  assumes "amend_ok (amendments_of view)"
  shows "map_of (getMajorityAmendments view) = map_of (map (\<lambda>m. (mj_Amendment m, mj_CloseTime m)) (majority_list view))"
proof (cases "v_amendments view")
  case None
  then show ?thesis by (simp add: getMajorityAmendments_def majority_list_def amendments_of_def)
next
  case (Some obj)
  then have "amendments_of view = obj" by (simp add: amendments_of_def)
  then have "getMajorityAmendments view = fold (\<lambda>m. AList.update (mj_Amendment m) (mj_CloseTime m)) (majority_list view) []"
    using Some by (simp add: getMajorityAmendments_def majority_list_def)
  then show ?thesis
    using map_of_fold_update [of mj_Amendment "majority_list view" mj_CloseTime "[]"] majority_list_amend_ok [OF assms] by simp
qed

lemma map_of_sort_key: "distinct_keys xs \<Longrightarrow> map_of (sort_key fst xs) = map_of xs"
  by (subst map_of_inject_set) (simp_all add: distinct_map)

definition selected :: "('k \<Rightarrow> 'v \<Rightarrow> 'w option) \<Rightarrow> ('k \<times> 'v) list \<Rightarrow> ('k \<times> 'w) list" where
  "selected g m = List.map_filter (\<lambda>(k, v). map_option (\<lambda>w. (k, w)) (g k v)) m"

lemma selected_simps [simp]:
  "selected g [] = []"
  "selected g ((k, v) # m) = (case g k v of None \<Rightarrow> selected g m | Some w \<Rightarrow> (k, w) # selected g m)"
  by (simp_all add: selected_def map_filter_simps split: option.split)

lemma set_selected: "(k, w) \<in> set (selected g m) \<longleftrightarrow> (\<exists>v. (k, v) \<in> set m \<and> g k v = Some w)"
  by (force simp: selected_def map_filter_def)

lemma keys_selected: "keys (selected g m) \<subseteq> keys m"
  by (force simp: set_selected)

lemma distinct_selected: "distinct_keys m \<Longrightarrow> distinct_keys (selected g m)"
proof (induction m)
  case (Cons e m)
  then show ?case using keys_selected [of g m] by (cases e) (auto split: option.split)
qed simp

lemma map_of_selected: "distinct_keys m \<Longrightarrow> map_of (selected g m) k = (case map_of m k of None \<Rightarrow> None | Some v \<Rightarrow> g k v)"
proof (induction m)
  case (Cons e m)
  obtain k' v where e: "e = (k', v)" by (cases e)
  have "k' \<notin> keys m" using Cons.prems by (simp add: e)
  then have "map_of (selected g m) k' = None" using keys_selected [of g m] by (auto simp: map_of_eq_None)
  then show ?case using Cons by (auto simp: e split: option.splits)
qed simp

lemma add_items:
  assumes "distinct (map tx_ID txs)" and "tx_ID ` set txs \<inter> tx_ID ` set pos = {}"
  shows "fold (\<lambda>tx pos. if tx_ID tx \<in> tx_ID ` set pos then pos else pos @ [tx]) txs pos = pos @ txs"
  using assms by (induction txs arbitrary: pos) auto

lemma vote_action_flags: "vote_action rules vote mt ct en mj a s = Some fl \<Longrightarrow> fl \<in> action_flags"
  by (auto simp: vote_action_def action_flags_def Let_def split: if_splits)

text \<open>One round of voting, for one amendment.\<close>

definition status_step ::
  "Rules \<Rightarrow> AmendmentSet \<Rightarrow> AmendmentTable \<Rightarrow> u32 \<Rightarrow> u32 \<Rightarrow> uint256 \<Rightarrow> AmendmentStatus \<Rightarrow> AmendmentStatus" where
  "status_step rules vote t closeTime now a status =
     (case map_of (amendmentMap t) a of
        None \<Rightarrow> status
      | Some s \<Rightarrow>
          (case status of
             Active \<Rightarrow> Active
           | Idle \<Rightarrow> if passes rules vote a \<and> am_vote s = vote_up then Held now else Idle
           | Held since \<Rightarrow>
               if \<not> passes rules vote a then Idle
               else if am_vote s = vote_up \<and> uint since + majorityTime t \<le> uint closeTime then Active
               else Held since))"

lemma vote_action_status:
  assumes ok: "amend_ok (amendments_of view)"
    and g: "g = vote_action rules vote mt ct (getEnabledAmendments view) (getMajorityAmendments view) a s"
  shows "(case g of None \<Rightarrow> amendment_status view a | Some fl \<Rightarrow> apply_flag now fl (amendment_status view a)) =
    (case amendment_status view a of
       Active \<Rightarrow> Active
     | Idle \<Rightarrow> if passes rules vote a \<and> am_vote s = vote_up then Held now else Idle
     | Held since \<Rightarrow>
         if \<not> passes rules vote a then Idle
         else if am_vote s = vote_up \<and> uint since + mt \<le> uint ct then Active
         else Held since)"
proof (cases "a \<in> set (am_Amendments (amendments_of view))")
  case True
  then show ?thesis by (simp add: g vote_action_def set_getEnabledAmendments amendment_status_def)
next
  case False
  then show ?thesis
  proof (cases "map_of (map (\<lambda>m. (mj_Amendment m, mj_CloseTime m)) (majority_list view)) a")
    case None
    then show ?thesis using False
      by (simp add: g vote_action_def set_getEnabledAmendments amendment_status_def map_of_getMajorityAmendments [OF ok] Let_def)
  next
    case (Some since)
    then show ?thesis using False
      by (simp add: g vote_action_def set_getEnabledAmendments amendment_status_def map_of_getMajorityAmendments [OF ok] Let_def
          flag_bits)
  qed
qed

lemma doVoting_view_txs:
  assumes dv: "doVoting_view txID view vals [] t = Some (txs, t')" and dk: "distinct_keys (amendmentMap t)"
    and inj: "inj_on (\<lambda>(a, fl). txID a fl (v_seq view + 1)) (keys (amendmentMap t) \<times> action_flags)"
  shows "\<exists>vote acts. lastVote t' = Some vote \<and> txs = map (amendment_tx txID (v_seq view + 1)) acts \<and> distinct_keys acts
    \<and> keys acts \<subseteq> keys (amendmentMap t) \<and> (\<forall>(a, fl) \<in> set acts. fl \<in> action_flags)
    \<and> (\<forall>a. map_of acts a = (case map_of (amendmentMap t) a of None \<Rightarrow> None
         | Some s \<Rightarrow> vote_action (v_rules view) vote (majorityTime t) (v_parentCloseTime view)
                       (getEnabledAmendments view) (getMajorityAmendments view) a s))
    \<and> (\<exists>votes. recordVotes vals (v_parentCloseTime view) (previousTrustedVotes t) = Some votes
         \<and> vote = new_AmendmentSet (v_rules view) votes)"
proof -
  obtain votes where rv: "recordVotes vals (v_parentCloseTime view) (previousTrustedVotes t) = Some votes"
    using dv by (auto simp: doVoting_view_def doVoting_amendments_def split: option.splits)
  define vote where "vote = new_AmendmentSet (v_rules view) votes"
  let ?g = "vote_action (v_rules view) vote (majorityTime t) (v_parentCloseTime view)
                       (getEnabledAmendments view) (getMajorityAmendments view)"
  let ?tx = "amendment_tx txID (v_seq view + 1)"
  define acts where "acts = sort_key fst (selected ?g (amendmentMap t))"
  have fl: "\<forall>(a, fl) \<in> set acts. fl \<in> action_flags"
    using vote_action_flags by (fastforce simp: acts_def set_selected)
  have ds: "distinct_keys (selected ?g (amendmentMap t))" using distinct_selected [OF dk] .
  then have da: "distinct_keys acts" by (simp add: acts_def distinct_map)
  have ks: "keys acts \<subseteq> keys (amendmentMap t)" using keys_selected by (simp add: acts_def)
  have dv': "doVoting_view txID view vals [] t =
      Some (fold (\<lambda>act pos. let tx = ?tx act in if tx_ID tx \<in> tx_ID ` set pos then pos else pos @ [tx]) acts [],
        t\<lparr>previousTrustedVotes := votes, lastVote := Some vote\<rparr>)"
    by (simp add: doVoting_view_def doVoting_amendments_def rv vote_def acts_def selected_def Let_def)
  have fm: "fold (\<lambda>act pos. let tx = ?tx act in if tx_ID tx \<in> tx_ID ` set pos then pos else pos @ [tx]) acts []
      = fold (\<lambda>tx pos. if tx_ID tx \<in> tx_ID ` set pos then pos else pos @ [tx]) (map ?tx acts) []"
    by (simp add: fold_map comp_def Let_def)
  have "inj_on (\<lambda>(a, fl). txID a fl (v_seq view + 1)) (set acts)"
    using ks fl by (intro inj_on_subset [OF inj]) (auto simp: subset_iff image_iff Bex_def)
  moreover have "distinct acts" using da by (simp add: distinct_map)
  moreover have "map tx_ID (map ?tx acts) = map (\<lambda>(a, fl). txID a fl (v_seq view + 1)) acts"
    by (simp add: amendment_tx_def pseudo_tx_def case_prod_unfold)
  ultimately have "distinct (map tx_ID (map ?tx acts))" by (simp only: distinct_map)
  then have "txs = map ?tx acts" using dv dv' add_items [of "map ?tx acts" "[]"] by (simp add: fm)
  moreover have "lastVote t' = Some vote" using dv dv' by auto
  moreover have "\<forall>a. map_of acts a = (case map_of (amendmentMap t) a of None \<Rightarrow> None | Some s \<Rightarrow> ?g a s)"
    by (simp add: acts_def map_of_sort_key [OF ds] map_of_selected [OF dk])
  ultimately show ?thesis using da ks fl rv vote_def by blast
qed

lemma voted_ledger_status:
  assumes ok: "amend_ok (amendments_of view)" and dk: "distinct_keys (amendmentMap t)"
    and inj: "inj_on (\<lambda>(a, fl). txID a fl (v_seq view + 1)) (keys (amendmentMap t) \<times> action_flags)"
    and nz: "\<forall>a fl. txID a fl (v_seq view + 1) \<noteq> 0"
    and dv: "doVoting_view txID view vals [] t = Some (txs, t')"
    and bl: "buildLedger env nid now txs (view, app) = (view', app')"
  shows "amendment_status view' a =
      status_step (v_rules view) (the (lastVote t')) t (v_parentCloseTime view) now a (amendment_status view a)"
    and "amend_ok (amendments_of view')"
proof -
  obtain vote acts where vote: "lastVote t' = Some vote" and txs: "txs = map (amendment_tx txID (v_seq view + 1)) acts"
    and da: "distinct_keys acts" and fl: "\<forall>(a, fl) \<in> set acts. fl \<in> action_flags"
    and act: "\<forall>a. map_of acts a = (case map_of (amendmentMap t) a of None \<Rightarrow> None
         | Some s \<Rightarrow> vote_action (v_rules view) vote (majorityTime t) (v_parentCloseTime view)
                       (getEnabledAmendments view) (getMajorityAmendments view) a s)"
    using doVoting_view_txs [OF dv dk inj] by (elim exE conjE) (rule that)
  let ?v = "startLedger now view"
  have st: "amendments_of ?v = amendments_of view" "\<not> v_open ?v" "v_parentCloseTime ?v = now"
    by (simp_all add: amendments_of_def) (simp_all add: startLedger_def Let_def updateNegativeUNL_eq split: option.split)
  have sv: "amendment_status ?v = amendment_status view"
    by (simp add: fun_eq_iff amendment_status_def majority_list_def st(1))
  have fld: "fold (\<lambda>tx s. snd (process_change env nid tx s)) (map (amendment_tx txID (v_seq view + 1)) acts) (?v, app) = (view', app')"
    using bl by (simp add: buildLedger_def txs)
  have acts_ok: "\<forall>(b, fl) \<in> set acts. fl \<in> action_flags \<and> txID b fl (v_seq view + 1) \<noteq> 0" using fl nz by auto
  have "amend_ok (amendments_of ?v)" using ok st(1) by simp
  note pa = process_actions [OF this st(2) da acts_ok fld]
  from pa show "amend_ok (amendments_of view')" by (rule conjunct2)
  have "amendment_status view' a = (case map_of acts a of
      None \<Rightarrow> amendment_status view a | Some fl \<Rightarrow> apply_flag now fl (amendment_status view a))"
    using conjunct1 [OF pa, rule_format, of a] unfolding sv st(3) .
  also have "\<dots> = status_step (v_rules view) vote t (v_parentCloseTime view) now a (amendment_status view a)"
    using vote_action_status [OF ok refl, where rules = "v_rules view" and vote = vote and mt = "majorityTime t"
        and ct = "v_parentCloseTime view" and a = a and now = now] act
    by (cases "map_of (amendmentMap t) a") (simp_all add: status_step_def)
  finally show "amendment_status view' a =
      status_step (v_rules view) (the (lastVote t')) t (v_parentCloseTime view) now a (amendment_status view a)"
    by (simp add: vote)
qed

section \<open>Chains of ledgers\<close>

text \<open>
  A chain of ledgers: each is built from the votes of the server, or, between flag ledgers, without votes. The table and the
  validations of each round are arbitrary, so the operator, the list of trusted validators and the amendments the server
  knows may change at any time.
\<close>

type_synonym VotingRound = "(AmendmentTable \<times> AmendmentValidation list) option \<times> u32"

fun voted_chain ::
  "ChangeEnv \<Rightarrow> u32 \<Rightarrow> (uint256 \<Rightarrow> u32 \<Rightarrow> u32 \<Rightarrow> uint256) \<Rightarrow> VotingRound list \<Rightarrow> View \<times> AppState \<Rightarrow> (View \<times> AppState) option" where
  "voted_chain env nid txID [] s = Some s"
| "voted_chain env nid txID ((None, now) # rounds) s = voted_chain env nid txID rounds (buildLedger env nid now [] s)"
| "voted_chain env nid txID ((Some (t, vals), now) # rounds) s =
     (case doVoting_view txID (fst s) vals [] t of
        None \<Rightarrow> None
      | Some (txs, _) \<Rightarrow> voted_chain env nid txID rounds (buildLedger env nid now txs s))"

lemma voted_chain_append:
  "voted_chain env nid txID (r1 @ r2) s =
     (case voted_chain env nid txID r1 s of None \<Rightarrow> None | Some s' \<Rightarrow> voted_chain env nid txID r2 s')"
  by (induction env nid txID r1 s rule: voted_chain.induct) (auto split: option.split)

definition ballot :: "View \<Rightarrow> AmendmentTable \<Rightarrow> AmendmentValidation list \<Rightarrow> AmendmentSet" where
  "ballot view t vals = new_AmendmentSet (v_rules view) (the (recordVotes vals (v_parentCloseTime view) (previousTrustedVotes t)))"

definition round_view ::
  "ChangeEnv \<Rightarrow> u32 \<Rightarrow> (uint256 \<Rightarrow> u32 \<Rightarrow> u32 \<Rightarrow> uint256) \<Rightarrow> View \<times> AppState \<Rightarrow> VotingRound list \<Rightarrow> nat \<Rightarrow> View" where
  "round_view env nid txID s rounds k = fst (the (voted_chain env nid txID (take k rounds) s))"

text \<open>A round in which the amendment passes and the operator supports it, and one in which the validators refuse it.\<close>

definition majority_vote :: "uint256 \<Rightarrow> View \<Rightarrow> VotingRound \<Rightarrow> bool" where
  "majority_vote a view r = (case fst r of
     None \<Rightarrow> False
   | Some (t, vals) \<Rightarrow> (case map_of (amendmentMap t) a of
                         None \<Rightarrow> False
                       | Some s \<Rightarrow> am_vote s = vote_up \<and> passes (v_rules view) (ballot view t vals) a))"

definition majority_lost :: "uint256 \<Rightarrow> View \<Rightarrow> VotingRound \<Rightarrow> bool" where
  "majority_lost a view r = (case fst r of
     None \<Rightarrow> False
   | Some (t, vals) \<Rightarrow> a \<in> keys (amendmentMap t) \<and> \<not> passes (v_rules view) (ballot view t vals) a)"

definition round_ok :: "(uint256 \<Rightarrow> u32 \<Rightarrow> u32 \<Rightarrow> uint256) \<Rightarrow> int \<Rightarrow> VotingRound \<Rightarrow> bool" where
  "round_ok txID mt r = (case fst r of
     None \<Rightarrow> True
   | Some (t, vals) \<Rightarrow> distinct_keys (amendmentMap t) \<and> majorityTime t = mt
       \<and> (\<forall>seq. inj_on (\<lambda>(a, fl). txID a fl seq) (keys (amendmentMap t) \<times> action_flags)))"

lemma round_status:
  assumes ok: "amend_ok (amendments_of view)" and rd: "round_ok txID mt r" and nz: "\<forall>a fl seq. txID a fl seq \<noteq> 0"
    and vc: "voted_chain env nid txID [r] (view, app) = Some (view', app')"
  shows "amend_ok (amendments_of view')"
    and "amendment_status view' a = Held since \<Longrightarrow>
      amendment_status view a = Held since \<and> \<not> majority_lost a view r
      \<or> amendment_status view a = Idle \<and> majority_vote a view r \<and> snd r = since"
    and "amendment_status view' a = Active \<Longrightarrow>
      amendment_status view a = Active
      \<or> (\<exists>t. amendment_status view a = Held t \<and> majority_vote a view r \<and> uint t + mt \<le> uint (v_parentCloseTime view))"
proof -
  have "amend_ok (amendments_of view')
    \<and> (amendment_status view' a = Held since \<longrightarrow>
        amendment_status view a = Held since \<and> \<not> majority_lost a view r
        \<or> amendment_status view a = Idle \<and> majority_vote a view r \<and> snd r = since)
    \<and> (amendment_status view' a = Active \<longrightarrow> amendment_status view a = Active
        \<or> (\<exists>t. amendment_status view a = Held t \<and> majority_vote a view r \<and> uint t + mt \<le> uint (v_parentCloseTime view)))"
  proof (cases "fst r")
    case None
    then have "view' = startLedger (snd r) view" using vc by (cases r) (simp add: buildLedger_def)
    then have am: "amendments_of view' = amendments_of view" by (simp add: amendments_of_def)
    then have "amendment_status view' = amendment_status view"
      by (simp add: fun_eq_iff amendment_status_def majority_list_def)
    then show ?thesis using am ok None by (simp add: majority_lost_def)
  next
    case (Some tv)
    obtain t vals where tv: "tv = (t, vals)" by (cases tv)
    obtain now where r: "r = (Some (t, vals), now)" using Some tv by (cases r) simp
    obtain txs t' where dv: "doVoting_view txID view vals [] t = Some (txs, t')"
      and bl: "buildLedger env nid now txs (view, app) = (view', app')"
      using vc by (auto simp: r split: option.splits)
    have dk: "distinct_keys (amendmentMap t)" and mt: "majorityTime t = mt"
      and inj: "inj_on (\<lambda>(a, fl). txID a fl (v_seq view + 1)) (keys (amendmentMap t) \<times> action_flags)"
      using rd by (auto simp: round_ok_def r)
    have nz1: "\<forall>a fl. txID a fl (v_seq view + 1) \<noteq> 0" using nz by blast
    have lv: "the (lastVote t') = ballot view t vals"
      using doVoting_view_txs [OF dv dk inj] by (auto simp: ballot_def)
    note st = voted_ledger_status [OF ok dk inj nz1 dv bl, unfolded lv]
    show ?thesis
      using st(2) st(1) [of a] mt
      by (auto simp: status_step_def majority_vote_def majority_lost_def r map_of_eq_None
          split: option.splits AmendmentStatus.splits if_splits)
  qed
  then show "amend_ok (amendments_of view')"
    and "amendment_status view' a = Held since \<Longrightarrow>
      amendment_status view a = Held since \<and> \<not> majority_lost a view r
      \<or> amendment_status view a = Idle \<and> majority_vote a view r \<and> snd r = since"
    and "amendment_status view' a = Active \<Longrightarrow>
      amendment_status view a = Active
      \<or> (\<exists>t. amendment_status view a = Held t \<and> majority_vote a view r \<and> uint t + mt \<le> uint (v_parentCloseTime view))"
    by argo+
qed

lemma voted_chain_history:
  assumes "amend_ok (amendments_of (fst s))" and "amendment_status (fst s) a = Idle"
    and "\<forall>r \<in> set rounds. round_ok txID mt r" and nz: "\<forall>a fl seq. txID a fl seq \<noteq> 0"
    and "voted_chain env nid txID rounds s = Some (view, app)"
  defines "V \<equiv> round_view env nid txID s rounds"
  shows "amend_ok (amendments_of view)
    \<and> (\<forall>since. amendment_status view a = Held since \<longrightarrow>
         (\<exists>i < length rounds. majority_vote a (V i) (rounds ! i) \<and> snd (rounds ! i) = since
            \<and> (\<forall>m. i < m \<and> m < length rounds \<longrightarrow> \<not> majority_lost a (V m) (rounds ! m))))
    \<and> (amendment_status view a = Active \<longrightarrow>
         (\<exists>i j. i < j \<and> j < length rounds \<and> majority_vote a (V i) (rounds ! i) \<and> majority_vote a (V j) (rounds ! j)
            \<and> uint (snd (rounds ! i)) + mt \<le> uint (v_parentCloseTime (V j))
            \<and> (\<forall>m. i < m \<and> m < j \<longrightarrow> \<not> majority_lost a (V m) (rounds ! m))))"
  using assms(3,5) unfolding V_def
proof (induction rounds arbitrary: view app rule: rev_induct)
  case Nil
  then show ?case using assms(1,2) by simp
next
  case (snoc r rounds)
  let ?n = "length rounds" and ?V = "round_view env nid txID s rounds" and ?V' = "round_view env nid txID s (rounds @ [r])"
  obtain view1 app1 where vc: "voted_chain env nid txID rounds s = Some (view1, app1)"
    and vr: "voted_chain env nid txID [r] (view1, app1) = Some (view, app)"
    using snoc.prems(2) by (auto simp: voted_chain_append split: option.splits)
  have Vn: "?V' ?n = view1" by (simp add: round_view_def vc)
  have Vk: "?V' k = ?V k" if "k < ?n" for k using that by (simp add: round_view_def)
  have rk: "(rounds @ [r]) ! k = rounds ! k" if "k < ?n" for k using that by (simp add: nth_append)
  have rn: "(rounds @ [r]) ! ?n = r" by simp
  have ok: "\<forall>r \<in> set rounds. round_ok txID mt r" "round_ok txID mt r" using snoc.prems(1) by simp_all
  note ih = snoc.IH [OF ok(1) vc]
  note st = round_status [OF conjunct1 [OF ih] ok(2) nz vr]
  have held: "\<exists>i < ?n. majority_vote a (?V' i) ((rounds @ [r]) ! i) \<and> snd ((rounds @ [r]) ! i) = since
      \<and> (\<forall>m. i < m \<and> m < ?n \<longrightarrow> \<not> majority_lost a (?V' m) ((rounds @ [r]) ! m))"
    if "amendment_status view1 a = Held since" for since
  proof -
    obtain i where "i < ?n" "majority_vote a (?V i) (rounds ! i)" "snd (rounds ! i) = since"
      "\<forall>m. i < m \<and> m < ?n \<longrightarrow> \<not> majority_lost a (?V m) (rounds ! m)"
      using ih \<open>amendment_status view1 a = Held since\<close> by blast
    then show ?thesis by (intro exI [of _ i]) (simp add: Vk rk)
  qed
  have "\<exists>i < length (rounds @ [r]). majority_vote a (?V' i) ((rounds @ [r]) ! i) \<and> snd ((rounds @ [r]) ! i) = since
            \<and> (\<forall>m. i < m \<and> m < length (rounds @ [r]) \<longrightarrow> \<not> majority_lost a (?V' m) ((rounds @ [r]) ! m))"
    if now: "amendment_status view a = Held since" for since
    using st(2) [OF now]
  proof (elim disjE conjE)
    assume h: "amendment_status view1 a = Held since" and nl: "\<not> majority_lost a view1 r"
    obtain i where i: "i < ?n" "majority_vote a (?V' i) ((rounds @ [r]) ! i)" "snd ((rounds @ [r]) ! i) = since"
      "\<forall>m. i < m \<and> m < ?n \<longrightarrow> \<not> majority_lost a (?V' m) ((rounds @ [r]) ! m)"
      using held [OF h] by blast
    have "\<not> majority_lost a (?V' m) ((rounds @ [r]) ! m)" if "i < m" "m < length (rounds @ [r])" for m
      using i(4) that nl Vn rn by (cases "m = ?n") auto
    then show ?thesis using i by (intro exI [of _ i]) simp
  next
    assume "majority_vote a view1 r" "snd r = since"
    then show ?thesis by (intro exI [of _ ?n]) (auto simp: Vn)
  qed
  moreover have "\<exists>i j. i < j \<and> j < length (rounds @ [r]) \<and> majority_vote a (?V' i) ((rounds @ [r]) ! i)
            \<and> majority_vote a (?V' j) ((rounds @ [r]) ! j)
            \<and> uint (snd ((rounds @ [r]) ! i)) + mt \<le> uint (v_parentCloseTime (?V' j))
            \<and> (\<forall>m. i < m \<and> m < j \<longrightarrow> \<not> majority_lost a (?V' m) ((rounds @ [r]) ! m))"
    if now: "amendment_status view a = Active"
    using st(3) [OF now]
  proof (elim disjE exE conjE)
    assume "amendment_status view1 a = Active"
    then obtain i j where "i < j" "j < ?n" "majority_vote a (?V i) (rounds ! i)" "majority_vote a (?V j) (rounds ! j)"
      "uint (snd (rounds ! i)) + mt \<le> uint (v_parentCloseTime (?V j))"
      "\<forall>m. i < m \<and> m < j \<longrightarrow> \<not> majority_lost a (?V m) (rounds ! m)"
      using ih by blast
    then show ?thesis by (intro exI [of _ i] exI [of _ j]) (simp add: Vk rk)
  next
    fix t assume h: "amendment_status view1 a = Held t" and mv: "majority_vote a view1 r"
      and le: "uint t + mt \<le> uint (v_parentCloseTime view1)"
    obtain i where i: "i < ?n" "majority_vote a (?V' i) ((rounds @ [r]) ! i)" "snd ((rounds @ [r]) ! i) = t"
      "\<forall>m. i < m \<and> m < ?n \<longrightarrow> \<not> majority_lost a (?V' m) ((rounds @ [r]) ! m)"
      using held [OF h] by blast
    then show ?thesis using mv le by (intro exI [of _ i] exI [of _ ?n]) (simp add: Vn)
  qed
  ultimately show ?case using st(1) by blast
qed

section \<open>A chain of three ledgers\<close>

definition demo_amendID :: "uint256 \<Rightarrow> u32 \<Rightarrow> u32 \<Rightarrow> uint256" where
  "demo_amendID a fl seq = ucast fl OR 1"

definition demo_rounds :: "VotingRound list" where
  "demo_rounds = [(Some (demo_table, demo_ballots), 100), (None, 200), (Some (demo_table, demo_ballots), 300)]"

lemma demo_amendID_ok:
  "inj_on (\<lambda>(a, fl). demo_amendID a fl seq) (keys (amendmentMap demo_table) \<times> action_flags)" "demo_amendID a fl seq \<noteq> 0"
proof -
  have "keys (amendmentMap demo_table) = {5}" using arg_cong [OF demo_table_map, of set] by simp
  then show "inj_on (\<lambda>(a, fl). demo_amendID a fl seq) (keys (amendmentMap demo_table) \<times> action_flags)"
    by (auto simp: inj_on_def demo_amendID_def action_flags_def tfGotMajority_def tfLostMajority_def)
  show "demo_amendID a fl seq \<noteq> 0" by (simp add: demo_amendID_def or_eq_0_iff)
qed

lemma demo_rounds_ok: "\<forall>r \<in> set demo_rounds. round_ok demo_amendID 50 r"
proof -
  have "majorityTime demo_table = 50" "distinct_keys (amendmentMap demo_table)" by code_simp+
  then show ?thesis using demo_amendID_ok(1) by (simp add: demo_rounds_def round_ok_def)
qed

lemma genesis_amend_ok: "amend_ok (amendments_of genesis)"
  by (simp add: amend_ok_def amendments_of_def genesis_def)

section \<open>Properties\<close>

text \<open>
  C22. What a server votes for takes effect. If the next ledger is built from the server's pseudo-transactions, the state of every
  amendment on it follows the votes: one that passes and that the operator supports gets a majority, dated with the close time;
  one that no longer passes loses it; one that passes and has held its majority long enough is enabled; nothing else changes.
\<close>

theorem amendment_votes_take_effect:
  assumes "amend_ok (amendments_of view)" and "distinct_keys (amendmentMap t)"
    and "inj_on (\<lambda>(a, fl). txID a fl (v_seq view + 1)) (keys (amendmentMap t) \<times> action_flags)"
    and "\<forall>a fl. txID a fl (v_seq view + 1) \<noteq> 0"
    and "doVoting_view txID view vals [] t = Some (txs, t')"
    and "view' = fst (buildLedger env nid now txs (view, app))"
  shows "amendment_status view' a =
    status_step (v_rules view) (the (lastVote t')) t (v_parentCloseTime view) now a (amendment_status view a)"
proof -
  obtain app' where "buildLedger env nid now txs (view, app) = (view', app')" using assms(6) by (metis prod.collapse)
  from voted_ledger_status(1) [OF assms(1-5) this] show ?thesis .
qed

theorem amendment_votes_take_effect_witness:
  "\<exists>txs t'. doVoting_view demo_amendID genesis demo_ballots [] demo_table = Some (txs, t')
    \<and> amendment_status (fst (buildLedger demo_cenv 2025 100 txs (genesis, genesis_app))) 5 = Held 100"
proof -
  obtain txs t' where dv: "doVoting_view demo_amendID genesis demo_ballots [] demo_table = Some (txs, t')"
    and st: "status_step (v_rules genesis) (the (lastVote t')) demo_table (v_parentCloseTime genesis) 100 5 (amendment_status genesis 5) = Held 100"
  proof -
    have "case doVoting_view demo_amendID genesis demo_ballots [] demo_table of None \<Rightarrow> False
      | Some (txs, t') \<Rightarrow> status_step (v_rules genesis) (the (lastVote t')) demo_table (v_parentCloseTime genesis) 100 5
          (amendment_status genesis 5) = Held 100" by code_simp
    then show thesis using that by (auto split: option.splits)
  qed
  have dk: "distinct_keys (amendmentMap demo_table)" by code_simp
  have nz: "\<forall>a fl. demo_amendID a fl (v_seq genesis + 1) \<noteq> 0" using demo_amendID_ok(2) by blast
  show ?thesis
    using amendment_votes_take_effect [OF genesis_amend_ok dk demo_amendID_ok(1) nz dv refl, of demo_cenv 2025 100 genesis_app 5] st dv
    by simp
qed


text \<open>
  C21. No amendment is enabled by surprise. If an amendment that had no majority is enabled on a chain of ledgers, then it passed in a
  round \<open>i\<close>, and in a later round \<open>j\<close> whose parent closed at least the required time after round \<open>i\<close>; the operator supported it in
  both, and in no round in between did the server see the validators refuse it.
\<close>

theorem enabled_amendment_was_held:
  assumes "amend_ok (amendments_of (fst s))" and "amendment_status (fst s) a = Idle"
    and "\<forall>r \<in> set rounds. round_ok txID mt r" and "\<forall>a fl seq. txID a fl seq \<noteq> 0"
    and "voted_chain env nid txID rounds s = Some (view, app)" and "amendment_status view a = Active"
    and "V = round_view env nid txID s rounds"
  shows "\<exists>i j. i < j \<and> j < length rounds \<and> majority_vote a (V i) (rounds ! i) \<and> majority_vote a (V j) (rounds ! j)
    \<and> uint (snd (rounds ! i)) + mt \<le> uint (v_parentCloseTime (V j))
    \<and> (\<forall>m. i < m \<and> m < j \<longrightarrow> \<not> majority_lost a (V m) (rounds ! m))"
  using voted_chain_history [OF assms(1-5)] assms(6) unfolding assms(7) by blast

theorem enabled_amendment_was_held_witness:
  "\<exists>i j. i < j \<and> j < 3 \<and> uint (snd (demo_rounds ! i)) + 50
     \<le> uint (v_parentCloseTime (round_view demo_cenv 2025 demo_amendID (genesis, genesis_app) demo_rounds j))"
proof -
  obtain view app where vc: "voted_chain demo_cenv 2025 demo_amendID demo_rounds (genesis, genesis_app) = Some (view, app)"
    and ac: "amendment_status view 5 = Active"
  proof -
    have "case voted_chain demo_cenv 2025 demo_amendID demo_rounds (genesis, genesis_app) of None \<Rightarrow> False
      | Some (view, app) \<Rightarrow> amendment_status view 5 = Active" by code_simp
    then show thesis using that by (auto split: option.splits)
  qed
  have g: "amend_ok (amendments_of (fst (genesis, genesis_app)))" "amendment_status (fst (genesis, genesis_app)) 5 = Idle"
    using genesis_amend_ok by (simp_all add: amendment_status_def majority_list_def amendments_of_def genesis_def)
  have nz: "\<forall>a fl seq. demo_amendID a fl seq \<noteq> 0" using demo_amendID_ok(2) by blast
  have "length demo_rounds = 3" by (simp add: demo_rounds_def)
  then show ?thesis using enabled_amendment_was_held [OF g demo_rounds_ok nz vc ac refl] by auto
qed

end
