(* ===== verification/Manifest_Cache.thy ===== *)
theory Manifest_Cache
  imports Transactor
begin

text \<open>
  Keys of validators and of list publishers: \<^verbatim>\<open>src/xrpld/app/misc/Manifest.h\<close> and \<^verbatim>\<open>detail/Manifest.cpp\<close>, with the manifest
  tables of \<^verbatim>\<open>rdb/detail/Wallet.cpp\<close>. A manifest, signed with a master key, names the ephemeral key in use; the cache keeps the
  newest manifest of each master key.

  \<^verbatim>\<open>applyManifest\<close> checks a manifest under a shared lock and checks again and writes under an exclusive one. Both halves are
  operations here, and \<open>manifest_step\<close> lets any number of calls run between them. Reading an empty optional is \<open>None\<close>. The parser of
  serialised objects, the test of domain names and the signature checks are parameters.
\<close>

section \<open>Manifests\<close>

record Manifest =
  mf_serialized :: Blob
  mf_masterKey :: PublicKey
  mf_signingKey :: "PublicKey option"
  mf_sequence :: u32
  mf_domain :: string

text \<open>The fields of a serialised manifest that fits the template.\<close>

record ManifestObject =
  mo_Version :: "16 word option"
  mo_PublicKey :: Blob
  mo_Sequence :: u32
  mo_Domain :: "string option"
  mo_SigningPubKey :: "Blob option"
  mo_has_Signature :: bool

record ManifestEnv =
  me_parse :: "Blob \<Rightarrow> ManifestObject option"
  isProperlyFormedTomlDomain :: "string \<Rightarrow> bool"
  me_verify :: "Blob \<Rightarrow> PublicKey \<Rightarrow> bool"
  me_verifyMaster :: "Blob \<Rightarrow> PublicKey \<Rightarrow> bool"

definition revoked_sequence :: "u32 \<Rightarrow> bool" where
  "revoked_sequence seq \<longleftrightarrow> seq = 0xFFFFFFFF"

definition manifest_revoked :: "Manifest \<Rightarrow> bool" where
  "manifest_revoked m = revoked_sequence (mf_sequence m)"

definition deserializeManifest :: "ManifestEnv \<Rightarrow> Blob \<Rightarrow> Manifest option" where
  "deserializeManifest env s =
     (if s = [] then None
      else case me_parse env s of
             None \<Rightarrow> None
           | Some st \<Rightarrow>
               if (case mo_Version st of Some v \<Rightarrow> v \<noteq> 0 | None \<Rightarrow> False) then None
               else if publicKeyType (mo_PublicKey st) = None then None
               else let masterKey = mo_PublicKey st;
                        seq = mo_Sequence st;
                        domain = (case mo_Domain st of Some d \<Rightarrow> d | None \<Rightarrow> [])
                    in if mo_Domain st \<noteq> None \<and> \<not> isProperlyFormedTomlDomain env domain then None
                       else if revoked_sequence seq
                       then (if mo_SigningPubKey st \<noteq> None then None
                             else if mo_has_Signature st then None
                             else Some \<lparr>mf_serialized = s, mf_masterKey = masterKey, mf_signingKey = None,
                                        mf_sequence = seq, mf_domain = domain\<rparr>)
                       else (case mo_SigningPubKey st of
                               None \<Rightarrow> None
                             | Some spk \<Rightarrow>
                                 if \<not> mo_has_Signature st then None
                                 else if publicKeyType spk = None then None
                                 else if spk = masterKey then None
                                 else Some \<lparr>mf_serialized = s, mf_masterKey = masterKey, mf_signingKey = Some spk,
                                            mf_sequence = seq, mf_domain = domain\<rparr>))"

definition manifest_verify :: "ManifestEnv \<Rightarrow> Manifest \<Rightarrow> bool" where
  "manifest_verify env m =
     (if \<not> manifest_revoked m \<and> mf_signingKey m = None then False
      else if \<not> manifest_revoked m \<and> \<not> me_verify env (mf_serialized m) (the (mf_signingKey m)) then False
      else me_verifyMaster env (mf_serialized m) (mf_masterKey m))"

section \<open>The cache\<close>

datatype ManifestDisposition = md_accepted | md_stale | md_badMasterKey | md_badEphemeralKey | md_invalid

record ManifestCache =
  mc_map :: "(PublicKey \<times> Manifest) list"
  signingToMasterKeys :: "(PublicKey \<times> PublicKey) list"
  mc_seq :: u32

definition new_ManifestCache :: ManifestCache where
  "new_ManifestCache = \<lparr>mc_map = [], signingToMasterKeys = [], mc_seq = 0\<rparr>"

definition getSigningKey :: "PublicKey \<Rightarrow> ManifestCache \<Rightarrow> PublicKey option" where
  "getSigningKey pk c =
     (case map_of (mc_map c) pk of
        Some m \<Rightarrow> if \<not> manifest_revoked m then mf_signingKey m else Some pk
      | None \<Rightarrow> Some pk)"

definition getMasterKey :: "PublicKey \<Rightarrow> ManifestCache \<Rightarrow> PublicKey" where
  "getMasterKey pk c = (case map_of (signingToMasterKeys c) pk of Some k \<Rightarrow> k | None \<Rightarrow> pk)"

definition current_manifest :: "PublicKey \<Rightarrow> ManifestCache \<Rightarrow> Manifest option" where
  "current_manifest pk c =
     (case map_of (mc_map c) pk of Some m \<Rightarrow> if \<not> manifest_revoked m then Some m else None | None \<Rightarrow> None)"

definition getSequence :: "PublicKey \<Rightarrow> ManifestCache \<Rightarrow> u32 option" where
  "getSequence pk c = map_option mf_sequence (current_manifest pk c)"

definition getDomain :: "PublicKey \<Rightarrow> ManifestCache \<Rightarrow> string option" where
  "getDomain pk c = map_option mf_domain (current_manifest pk c)"

definition getManifest :: "PublicKey \<Rightarrow> ManifestCache \<Rightarrow> Blob option" where
  "getManifest pk c = map_option mf_serialized (current_manifest pk c)"

definition revoked :: "PublicKey \<Rightarrow> ManifestCache \<Rightarrow> bool" where
  "revoked pk c = (case map_of (mc_map c) pk of Some m \<Rightarrow> manifest_revoked m | None \<Rightarrow> False)"

definition prewriteCheck :: "ManifestEnv \<Rightarrow> bool \<Rightarrow> Manifest \<Rightarrow> ManifestCache \<Rightarrow> ManifestDisposition option" where
  "prewriteCheck env checkSignature m c =
     (if (case map_of (mc_map c) (mf_masterKey m) of Some old \<Rightarrow> mf_sequence m \<le> mf_sequence old | None \<Rightarrow> False)
      then Some md_stale
      else if checkSignature \<and> \<not> manifest_verify env m then Some md_invalid
      else if mf_masterKey m \<in> keys (signingToMasterKeys c) then Some md_badMasterKey
      else if manifest_revoked m then None
      else (case mf_signingKey m of
              None \<Rightarrow> Some md_invalid
            | Some sk \<Rightarrow>
                if sk \<in> keys (signingToMasterKeys c) then Some md_badEphemeralKey
                else if sk \<in> keys (mc_map c) then Some md_badEphemeralKey
                else None))"

definition emplace_signing :: "Manifest \<Rightarrow> (PublicKey \<times> PublicKey) list \<Rightarrow> (PublicKey \<times> PublicKey) list option" where
  "emplace_signing m s =
     (if manifest_revoked m then Some s
      else case mf_signingKey m of
             None \<Rightarrow> None
           | Some sk \<Rightarrow> Some (if sk \<in> keys s then s else AList.update sk (mf_masterKey m) s))"

text \<open>The second half of \<^verbatim>\<open>applyManifest\<close>, under the exclusive lock.\<close>

definition writeManifest :: "ManifestEnv \<Rightarrow> Manifest \<Rightarrow> ManifestCache \<Rightarrow> (ManifestDisposition \<times> ManifestCache) option" where
  "writeManifest env m c =
     (case prewriteCheck env False m c of
        Some d \<Rightarrow> Some (d, c)
      | None \<Rightarrow>
          (case map_of (mc_map c) (mf_masterKey m) of
             None \<Rightarrow>
               (case emplace_signing m (signingToMasterKeys c) of
                  None \<Rightarrow> None
                | Some s \<Rightarrow> Some (md_accepted, c\<lparr>signingToMasterKeys := s, mc_map := AList.update (mf_masterKey m) m (mc_map c)\<rparr>))
           | Some old \<Rightarrow>
               (case mf_signingKey old of
                  None \<Rightarrow> None
                | Some oldKey \<Rightarrow>
                    (case emplace_signing m (AList.delete oldKey (signingToMasterKeys c)) of
                       None \<Rightarrow> None
                     | Some s \<Rightarrow> Some (md_accepted, c\<lparr>signingToMasterKeys := s,
                                 mc_map := AList.update (mf_masterKey m) m (mc_map c), mc_seq := mc_seq c + 1\<rparr>)))))"

definition applyManifest :: "ManifestEnv \<Rightarrow> Manifest \<Rightarrow> ManifestCache \<Rightarrow> (ManifestDisposition \<times> ManifestCache) option" where
  "applyManifest env m c =
     (case prewriteCheck env True m c of Some d \<Rightarrow> Some (d, c) | None \<Rightarrow> writeManifest env m c)"

text \<open>Loading a table, and saving one. A row is a serialised manifest.\<close>

fun getManifests :: "ManifestEnv \<Rightarrow> Blob list \<Rightarrow> ManifestCache \<Rightarrow> ManifestCache option" where
  "getManifests env [] c = Some c"
| "getManifests env (row # rows) c =
     (case deserializeManifest env row of
        None \<Rightarrow> getManifests env rows c
      | Some m \<Rightarrow>
          if \<not> manifest_verify env m then getManifests env rows c
          else (case applyManifest env m c of None \<Rightarrow> None | Some (_, c') \<Rightarrow> getManifests env rows c'))"

definition saveManifests :: "(PublicKey \<Rightarrow> bool) \<Rightarrow> ManifestCache \<Rightarrow> Blob list" where
  "saveManifests isTrusted c =
     map (\<lambda>(_, m). mf_serialized m)
       (filter (\<lambda>(_, m). \<not> (\<not> manifest_revoked m \<and> \<not> isTrusted (mf_masterKey m))) (mc_map c))"

text \<open>The manifest and the revocation of the configuration file come decoded; an absent entry is \<open>None\<close>.\<close>

definition load_manifests ::
  "ManifestEnv \<Rightarrow> Blob list \<Rightarrow> Blob option \<Rightarrow> Blob option \<Rightarrow> ManifestCache \<Rightarrow> (bool \<times> ManifestCache) option" where
  "load_manifests env rows configManifest configRevocation c =
     (case getManifests env rows c of
        None \<Rightarrow> None
      | Some c \<Rightarrow>
          (case (case configManifest of
                   None \<Rightarrow> Some (True, c)
                 | Some s \<Rightarrow>
                     (case deserializeManifest env s of
                        None \<Rightarrow> Some (False, c)
                      | Some m \<Rightarrow> map_option (\<lambda>(d, c'). (d \<noteq> md_invalid, c')) (applyManifest env m c))) of
             None \<Rightarrow> None
           | Some (False, c) \<Rightarrow> Some (False, c)
           | Some (True, c) \<Rightarrow>
               (case configRevocation of
                  None \<Rightarrow> Some (True, c)
                | Some s \<Rightarrow>
                    (case deserializeManifest env s of
                       None \<Rightarrow> Some (False, c)
                     | Some m \<Rightarrow>
                         if \<not> manifest_revoked m then Some (False, c)
                         else map_option (\<lambda>(d, c'). (d \<noteq> md_invalid, c')) (applyManifest env m c)))))"

section \<open>Invariant\<close>

definition manifest_wf :: "Manifest \<Rightarrow> bool" where
  "manifest_wf m \<longleftrightarrow> (if manifest_revoked m then mf_signingKey m = None
     else \<exists>sk. mf_signingKey m = Some sk \<and> sk \<noteq> mf_masterKey m)"

definition cache_ok :: "ManifestEnv \<Rightarrow> ManifestCache \<Rightarrow> bool" where
  "cache_ok env c \<longleftrightarrow> distinct_keys (mc_map c) \<and> distinct_keys (signingToMasterKeys c)
     \<and> (\<forall>k m. map_of (mc_map c) k = Some m \<longrightarrow> mf_masterKey m = k \<and> manifest_wf m \<and> manifest_verify env m)
     \<and> (\<forall>sk k. map_of (signingToMasterKeys c) sk = Some k \<longleftrightarrow>
          (\<exists>m. map_of (mc_map c) k = Some m \<and> mf_signingKey m = Some sk))
     \<and> keys (signingToMasterKeys c) \<inter> keys (mc_map c) = {}"

lemma deserialize_wf: "deserializeManifest env s = Some m \<Longrightarrow> manifest_wf m"
  by (auto simp: deserializeManifest_def manifest_wf_def manifest_revoked_def Let_def split: if_splits option.splits)

lemma deserialize_master_key: "deserializeManifest env s = Some m \<Longrightarrow> publicKeyType (mf_masterKey m) \<noteq> None"
  by (auto simp: deserializeManifest_def Let_def split: if_splits option.splits)

lemma cache_ok_new: "cache_ok env new_ManifestCache"
  by (simp add: cache_ok_def new_ManifestCache_def)

lemma revoked_max: "manifest_revoked m \<Longrightarrow> x \<le> mf_sequence m"
proof -
  assume "manifest_revoked m"
  then have "mf_sequence m = - 1" by (simp add: manifest_revoked_def revoked_sequence_def)
  then show ?thesis by simp
qed

text \<open>What \<^verbatim>\<open>prewriteCheck\<close> lets through.\<close>

lemma prewrite_passed:
  assumes "prewriteCheck env chk m c = None" and "manifest_wf m"
  shows "map_of (mc_map c) (mf_masterKey m) = Some old \<Longrightarrow> mf_sequence old < mf_sequence m"
    and "mf_masterKey m \<notin> keys (signingToMasterKeys c)"
    and "mf_signingKey m = Some sk \<Longrightarrow> sk \<notin> keys (signingToMasterKeys c) \<and> sk \<notin> keys (mc_map c) \<and> sk \<noteq> mf_masterKey m"
    and "chk \<Longrightarrow> manifest_verify env m"
  using assms by (auto simp: prewriteCheck_def manifest_wf_def not_le split: if_splits option.splits)

lemma cache_ok_manifest:
  assumes "cache_ok env c" and "map_of (mc_map c) k = Some m"
  shows "mf_masterKey m = k" "manifest_wf m" "manifest_verify env m"
  using assms by (simp_all add: cache_ok_def)

lemma cache_ok_signing:
  assumes "cache_ok env c"
  shows "map_of (signingToMasterKeys c) sk = Some k \<longleftrightarrow> (\<exists>m. map_of (mc_map c) k = Some m \<and> mf_signingKey m = Some sk)"
  using assms by (simp add: cache_ok_def)

text \<open>The caches that a write can leave: \<open>old\<close> is the ephemeral key that the manifest replaces.\<close>

definition replaced :: "Manifest \<Rightarrow> PublicKey option \<Rightarrow> ManifestCache \<Rightarrow> ManifestCache \<Rightarrow> bool" where
  "replaced m old c c' \<longleftrightarrow> mc_map c' = AList.update (mf_masterKey m) m (mc_map c)
     \<and> (let s = (case old of None \<Rightarrow> signingToMasterKeys c | Some k \<Rightarrow> AList.delete k (signingToMasterKeys c))
        in signingToMasterKeys c' = (case mf_signingKey m of None \<Rightarrow> s | Some sk \<Rightarrow> AList.update sk (mf_masterKey m) s))"

lemma writeManifest_cases:
  assumes ok: "cache_ok env c" and wf: "manifest_wf m"
  shows "(\<exists>d. prewriteCheck env False m c = Some d \<and> writeManifest env m c = Some (d, c))
    \<or> prewriteCheck env False m c = None \<and> (\<exists>c'. writeManifest env m c = Some (md_accepted, c')
        \<and> replaced m (case map_of (mc_map c) (mf_masterKey m) of None \<Rightarrow> None | Some old \<Rightarrow> mf_signingKey old) c c')"
proof (cases "prewriteCheck env False m c")
  case (Some d)
  then show ?thesis by (simp add: writeManifest_def)
next
  case pass: None
  have em: "emplace_signing m s = Some (case mf_signingKey m of None \<Rightarrow> s | Some sk \<Rightarrow> AList.update sk (mf_masterKey m) s)"
    if "\<And>sk. mf_signingKey m = Some sk \<Longrightarrow> sk \<notin> keys s" for s
    using wf that by (auto simp: emplace_signing_def manifest_wf_def split: option.splits if_splits)
  have new: "\<And>sk. mf_signingKey m = Some sk \<Longrightarrow> sk \<notin> keys (signingToMasterKeys c)"
    using prewrite_passed(3) [OF pass wf] by blast
  show ?thesis
  proof (cases "map_of (mc_map c) (mf_masterKey m)")
    case None
    then show ?thesis using pass em [OF new] by (simp add: writeManifest_def replaced_def Let_def)
  next
    case (Some old)
    have "mf_sequence old < mf_sequence m" by (rule prewrite_passed(1) [OF pass wf Some])
    then have "\<not> manifest_revoked old" using revoked_max [of old "mf_sequence m"] by auto
    then obtain k where k: "mf_signingKey old = Some k"
      using cache_ok_manifest(2) [OF ok Some] by (auto simp: manifest_wf_def)
    have "\<And>sk. mf_signingKey m = Some sk \<Longrightarrow> sk \<notin> keys (AList.delete k (signingToMasterKeys c))" using new by auto
    from em [OF this] show ?thesis using pass Some k by (simp add: writeManifest_def replaced_def Let_def)
  qed
qed

lemma cache_ok_replaced:
  assumes ok: "cache_ok env c" and wf: "manifest_wf m" and ver: "manifest_verify env m"
    and pass: "prewriteCheck env chk m c = None"
    and r: "replaced m (case map_of (mc_map c) (mf_masterKey m) of None \<Rightarrow> None | Some old \<Rightarrow> mf_signingKey old) c c'"
  shows "cache_ok env c'"
proof -
  let ?old = "case map_of (mc_map c) (mf_masterKey m) of None \<Rightarrow> None | Some old \<Rightarrow> mf_signingKey old"
  let ?s = "case ?old of None \<Rightarrow> signingToMasterKeys c | Some k \<Rightarrow> AList.delete k (signingToMasterKeys c)"
  note pp = prewrite_passed [OF pass wf]
  have mm: "mc_map c' = AList.update (mf_masterKey m) m (mc_map c)"
    and ss: "signingToMasterKeys c' = (case mf_signingKey m of None \<Rightarrow> ?s | Some sk \<Rightarrow> AList.update sk (mf_masterKey m) ?s)"
    using r by (simp_all add: replaced_def Let_def)
  have d: "distinct_keys (mc_map c')" "distinct_keys (signingToMasterKeys c')"
    using ok by (auto simp: mm ss cache_ok_def split: option.split)
  have s: "map_of ?s sk = Some k \<longleftrightarrow> k \<noteq> mf_masterKey m \<and> map_of (signingToMasterKeys c) sk = Some k" for sk k
  proof -
    have "map_of (signingToMasterKeys c) sk = Some (mf_masterKey m) \<longleftrightarrow> ?old = Some sk"
      using cache_ok_signing [OF ok, of sk "mf_masterKey m"] by (auto split: option.splits)
    then show ?thesis by (cases ?old) auto
  qed
  have b: "map_of (signingToMasterKeys c') sk = Some k \<longleftrightarrow> (\<exists>m'. map_of (mc_map c') k = Some m' \<and> mf_signingKey m' = Some sk)" for sk k
  proof (cases "mf_signingKey m")
    case None
    then show ?thesis using s [of sk k] cache_ok_signing [OF ok, of sk k] by (auto simp: mm ss)
  next
    case (Some new)
    have "map_of (signingToMasterKeys c) new = None" using pp(3) [OF Some] by (simp add: map_of_eq_None)
    then show ?thesis using s [of sk k] cache_ok_signing [OF ok, of sk k] Some by (auto simp: mm ss)
  qed
  have "keys ?s \<subseteq> keys (signingToMasterKeys c)" by (auto split: option.split)
  then have "keys (signingToMasterKeys c') \<inter> keys (mc_map c') = {}"
    using ok pp(2,3) by (auto simp: mm ss cache_ok_def split: option.splits)
  moreover have "\<forall>k m'. map_of (mc_map c') k = Some m' \<longrightarrow> mf_masterKey m' = k \<and> manifest_wf m' \<and> manifest_verify env m'"
    using cache_ok_manifest [OF ok] wf ver by (auto simp: mm)
  ultimately show ?thesis using d b by (simp add: cache_ok_def)
qed

section \<open>Interleaved calls\<close>

text \<open>A cache with the manifests that have passed the first check and wait for the exclusive lock.\<close>

inductive manifest_step :: "ManifestEnv \<Rightarrow> ManifestCache \<times> Manifest list \<Rightarrow> ManifestCache \<times> Manifest list \<Rightarrow> bool" for env where
  checked: "deserializeManifest env s = Some m \<Longrightarrow> prewriteCheck env True m c = None
    \<Longrightarrow> manifest_step env (c, waiting) (c, m # waiting)"
| written: "m \<in> set waiting \<Longrightarrow> writeManifest env m c = Some (d, c')
    \<Longrightarrow> manifest_step env (c, waiting) (c', remove1 m waiting)"

definition waiting_ok :: "ManifestEnv \<Rightarrow> Manifest list \<Rightarrow> bool" where
  "waiting_ok env waiting \<longleftrightarrow> (\<forall>m \<in> set waiting. manifest_wf m \<and> manifest_verify env m)"

lemma write_keeps:
  assumes "cache_ok env c" and "manifest_wf m" and "manifest_verify env m" and "writeManifest env m c = Some (d, c')"
  shows "cache_ok env c'"
    and "map_of (mc_map c) k = Some m0 \<Longrightarrow> \<exists>m1. map_of (mc_map c') k = Some m1 \<and> mf_sequence m0 \<le> mf_sequence m1"
proof -
  have "cache_ok env c' \<and> (map_of (mc_map c) k = Some m0 \<longrightarrow>
      (\<exists>m1. map_of (mc_map c') k = Some m1 \<and> mf_sequence m0 \<le> mf_sequence m1))"
  proof (cases "c' = c")
    case True
    then show ?thesis using assms(1) by simp
  next
    case False
    then have pass: "prewriteCheck env False m c = None"
      and r: "replaced m (case map_of (mc_map c) (mf_masterKey m) of None \<Rightarrow> None | Some old \<Rightarrow> mf_signingKey old) c c'"
      using writeManifest_cases [OF assms(1,2)] assms(4) by auto
    have "\<exists>m1. map_of (mc_map c') k = Some m1 \<and> mf_sequence m0 \<le> mf_sequence m1" if "map_of (mc_map c) k = Some m0"
      using that r prewrite_passed(1) [OF pass assms(2), of m0] by (auto simp: replaced_def)
    then show ?thesis using cache_ok_replaced [OF assms(1-3) pass r] by blast
  qed
  then show "cache_ok env c'"
    and "map_of (mc_map c) k = Some m0 \<Longrightarrow> \<exists>m1. map_of (mc_map c') k = Some m1 \<and> mf_sequence m0 \<le> mf_sequence m1"
    by blast+
qed

definition newer :: "ManifestCache \<Rightarrow> ManifestCache \<Rightarrow> bool" where
  "newer c c' \<longleftrightarrow> (\<forall>k m. map_of (mc_map c) k = Some m \<longrightarrow>
     (\<exists>m'. map_of (mc_map c') k = Some m' \<and> mf_sequence m \<le> mf_sequence m'))"

lemma newer_refl [simp]: "newer c c"
  by (simp add: newer_def)

lemma newer_trans: "newer c c' \<Longrightarrow> newer c' c'' \<Longrightarrow> newer c c''"
  unfolding newer_def by (meson order_trans)

lemma newer_revoked: "newer c c' \<Longrightarrow> revoked k c \<Longrightarrow> revoked k c'"
proof -
  assume n: "newer c c'" and "revoked k c"
  then obtain m where m: "map_of (mc_map c) k = Some m" "manifest_revoked m"
    by (auto simp: revoked_def split: option.splits)
  then obtain m' where m': "map_of (mc_map c') k = Some m'" "mf_sequence m \<le> mf_sequence m'"
    using n by (auto simp: newer_def)
  have "mf_sequence m = - 1" using m(2) by (simp add: manifest_revoked_def revoked_sequence_def)
  then have "mf_sequence m' = - 1" using m'(2) by (simp add: word_order.extremum_unique)
  then show "revoked k c'" using m'(1) by (simp add: revoked_def manifest_revoked_def revoked_sequence_def)
qed

lemma manifest_step_keeps:
  assumes "manifest_step env s s'" and "cache_ok env (fst s)" and "waiting_ok env (snd s)"
  shows "cache_ok env (fst s') \<and> waiting_ok env (snd s') \<and> newer (fst s) (fst s')"
  using assms
proof cases
  case (checked s0 m c waiting)
  then show ?thesis
    using assms(2,3) deserialize_wf prewrite_passed(4) [of env True m c] by (auto simp: waiting_ok_def)
next
  case (written m waiting c d c')
  then have m: "cache_ok env c" "manifest_wf m" "manifest_verify env m" using assms(2,3) by (auto simp: waiting_ok_def)
  have "waiting_ok env (remove1 m waiting)" using assms(3) written notin_set_remove1 by (fastforce simp: waiting_ok_def)
  then show ?thesis using written write_keeps [OF m written(4)] by (auto simp: newer_def)
qed

lemma manifest_steps_keep:
  assumes "(manifest_step env)\<^sup>*\<^sup>* s s'" and "cache_ok env (fst s)" and "waiting_ok env (snd s)"
  shows "cache_ok env (fst s') \<and> waiting_ok env (snd s') \<and> newer (fst s) (fst s')"
  using assms(1)
proof (induction rule: rtranclp_induct)
  case base
  then show ?case using assms(2,3) by simp
next
  case (step s1 s2)
  then show ?case using manifest_step_keeps newer_trans by blast
qed

lemma manifest_reach:
  assumes "(manifest_step env)\<^sup>*\<^sup>* (new_ManifestCache, []) (c, waiting)"
  shows "cache_ok env c" and "waiting_ok env waiting"
  using manifest_steps_keep [OF assms] cache_ok_new by (simp_all add: waiting_ok_def)

section \<open>A store of keys\<close>

text \<open>Several manifests, one after the other.\<close>

primrec apply_all :: "(Manifest \<Rightarrow> 'c \<Rightarrow> (ManifestDisposition \<times> 'c) option) \<Rightarrow> Manifest list \<Rightarrow> 'c \<Rightarrow> 'c option" where
  "apply_all f [] c = Some c"
| "apply_all f (m # ms) c = (case f m c of None \<Rightarrow> None | Some (_, c') \<Rightarrow> apply_all f ms c')"

text \<open>
  What the users of the cache rely on: a manifest can always be applied, the store stays sound, a revoked key stays revoked, and an
  ephemeral key leads back to the master key that has it.
\<close>

locale key_store =
  fixes ok :: "'c \<Rightarrow> bool" and apply_one :: "Manifest \<Rightarrow> 'c \<Rightarrow> (ManifestDisposition \<times> 'c) option"
    and is_revoked :: "PublicKey \<Rightarrow> 'c \<Rightarrow> bool" and signing_key :: "PublicKey \<Rightarrow> 'c \<Rightarrow> PublicKey option"
    and master_key :: "PublicKey \<Rightarrow> 'c \<Rightarrow> PublicKey"
  assumes apply_ok: "ok c \<Longrightarrow> manifest_wf m \<Longrightarrow> \<exists>d c'. apply_one m c = Some (d, c') \<and> ok c' \<and> (\<forall>k. is_revoked k c \<longrightarrow> is_revoked k c')"
    and signing_ok: "ok c \<Longrightarrow> \<exists>s. signing_key k c = Some s \<and> (s = k \<or> master_key s c = k)"
begin

lemma apply_all_ok:
  "ok c \<Longrightarrow> \<forall>m \<in> set ms. manifest_wf m \<Longrightarrow>
     \<exists>c'. apply_all apply_one ms c = Some c' \<and> ok c' \<and> (\<forall>k. is_revoked k c \<longrightarrow> is_revoked k c')"
proof (induction ms arbitrary: c)
  case (Cons m ms)
  obtain d c1 where c1: "apply_one m c = Some (d, c1)" "ok c1" "\<forall>k. is_revoked k c \<longrightarrow> is_revoked k c1"
    using apply_ok [OF Cons.prems(1)] Cons.prems(2) by fastforce
  obtain c' where "apply_all apply_one ms c1 = Some c'" "ok c'" "\<forall>k. is_revoked k c1 \<longrightarrow> is_revoked k c'"
    using Cons.IH [OF c1(2)] Cons.prems(2) by auto
  then show ?case using c1 by auto
qed simp

end

lemma applyManifest_keeps:
  assumes "cache_ok env c" and "manifest_wf m"
  shows "\<exists>d c'. applyManifest env m c = Some (d, c') \<and> cache_ok env c' \<and> newer c c'"
proof (cases "prewriteCheck env True m c")
  case None
  obtain d c' where w: "writeManifest env m c = Some (d, c')" using writeManifest_cases [OF assms] by auto
  have "manifest_verify env m" using prewrite_passed(4) [OF None assms(2)] by simp
  then show ?thesis using None w write_keeps [OF assms _ w] by (auto simp: applyManifest_def newer_def)
qed (use assms(1) in \<open>simp add: applyManifest_def\<close>)

lemma getSigningKey_cases:
  assumes "cache_ok env c"
  shows "\<exists>s. getSigningKey k c = Some s \<and> (s = k \<or> getMasterKey s c = k)"
proof (cases "current_manifest k c")
  case None
  then have "getSigningKey k c = Some k" by (auto simp: getSigningKey_def current_manifest_def split: option.splits if_splits)
  then show ?thesis by simp
next
  case (Some m)
  then have m: "map_of (mc_map c) k = Some m" "\<not> manifest_revoked m"
    by (auto simp: current_manifest_def split: option.splits if_splits)
  then obtain sk where sk: "mf_signingKey m = Some sk"
    using cache_ok_manifest(2) [OF assms m(1)] by (auto simp: manifest_wf_def)
  then have "map_of (signingToMasterKeys c) sk = Some k" using cache_ok_signing [OF assms] m(1) by blast
  then show ?thesis using m sk by (simp add: getSigningKey_def getMasterKey_def)
qed

interpretation mcs: key_store "cache_ok env" "applyManifest env" revoked getSigningKey getMasterKey for env
proof unfold_locales
  fix c m assume "cache_ok env c" "manifest_wf m"
  from applyManifest_keeps [OF this]
  show "\<exists>d c'. applyManifest env m c = Some (d, c') \<and> cache_ok env c' \<and> (\<forall>k. revoked k c \<longrightarrow> revoked k c')"
    using newer_revoked by blast
next
  fix c k assume "cache_ok env c"
  then show "\<exists>s. getSigningKey k c = Some s \<and> (s = k \<or> getMasterKey s c = k)" by (rule getSigningKey_cases)
qed

lemma getManifests_eq:
  "getManifests env rows c = apply_all (applyManifest env)
     (filter (manifest_verify env) (List.map_filter (deserializeManifest env) rows)) c"
proof (induction rows arbitrary: c)
  case (Cons row rows)
  then show ?case
    by (cases "deserializeManifest env row") (auto simp: map_filter_simps split: option.split prod.split)
qed (simp add: map_filter_simps)

lemma getManifests_keeps:
  assumes "cache_ok env c"
  shows "\<exists>c'. getManifests env rows c = Some c' \<and> cache_ok env c'"
proof -
  have "\<forall>m \<in> set (filter (manifest_verify env) (List.map_filter (deserializeManifest env) rows)). manifest_wf m"
    by (auto simp: map_filter_def dest: deserialize_wf)
  from mcs.apply_all_ok [OF assms this] show ?thesis by (auto simp: getManifests_eq)
qed

lemma load_manifests_keeps:
  assumes "cache_ok env c"
  shows "\<exists>b c'. load_manifests env rows cm cr c = Some (b, c') \<and> cache_ok env c'"
proof -
  obtain c1 where c1: "getManifests env rows c = Some c1" "cache_ok env c1" using getManifests_keeps [OF assms] by blast
  obtain b c2 where c2: "(case cm of None \<Rightarrow> Some (True, c1)
                 | Some s \<Rightarrow>
                     (case deserializeManifest env s of
                        None \<Rightarrow> Some (False, c1)
                      | Some m \<Rightarrow> map_option (\<lambda>(d, c'). (d \<noteq> md_invalid, c')) (applyManifest env m c1))) = Some (b, c2)"
    and ok2: "cache_ok env c2"
  proof -
    have "\<exists>b c2. (case cm of None \<Rightarrow> Some (True, c1)
                 | Some s \<Rightarrow>
                     (case deserializeManifest env s of
                        None \<Rightarrow> Some (False, c1)
                      | Some m \<Rightarrow> map_option (\<lambda>(d, c'). (d \<noteq> md_invalid, c')) (applyManifest env m c1))) = Some (b, c2) \<and> cache_ok env c2"
      using c1(2) applyManifest_keeps [OF c1(2) deserialize_wf] by (fastforce split: option.split)
    then show thesis using that by blast
  qed
  show ?thesis
  proof (cases b)
    case False
    then show ?thesis using c1(1) c2 ok2 by (auto simp: load_manifests_def)
  next
    case True
    have "\<exists>b c'. (case cr of None \<Rightarrow> Some (True, c2)
                | Some s \<Rightarrow>
                    (case deserializeManifest env s of
                       None \<Rightarrow> Some (False, c2)
                     | Some m \<Rightarrow>
                         if \<not> manifest_revoked m then Some (False, c2)
                         else map_option (\<lambda>(d, c'). (d \<noteq> md_invalid, c')) (applyManifest env m c2))) = Some (b, c') \<and> cache_ok env c'"
      using ok2 applyManifest_keeps [OF ok2 deserialize_wf] by (fastforce split: option.split)
    then show ?thesis using True c1(1) c2 by (simp add: load_manifests_def)
  qed
qed

section \<open>Saving and loading\<close>

text \<open>Every manifest that is stored or waits can be parsed again from its serialised form.\<close>

definition parsed :: "ManifestEnv \<Rightarrow> ManifestCache \<Rightarrow> Manifest list \<Rightarrow> bool" where
  "parsed env c waiting \<longleftrightarrow> (\<forall>m \<in> set waiting. deserializeManifest env (mf_serialized m) = Some m)
     \<and> (\<forall>k m. map_of (mc_map c) k = Some m \<longrightarrow> deserializeManifest env (mf_serialized m) = Some m)"

lemma deserialize_again: "deserializeManifest env s = Some m \<Longrightarrow> deserializeManifest env (mf_serialized m) = Some m"
proof -
  assume d: "deserializeManifest env s = Some m"
  then have "mf_serialized m = s" by (auto simp: deserializeManifest_def Let_def split: if_splits option.splits)
  then show ?thesis using d by simp
qed

lemma write_map:
  assumes "cache_ok env c" and "manifest_wf m" and "writeManifest env m c = Some (d, c')"
  shows "mc_map c' = mc_map c \<or> mc_map c' = AList.update (mf_masterKey m) m (mc_map c)"
  using writeManifest_cases [OF assms(1,2)] assms(3) by (auto simp: replaced_def)

lemma parsed_steps:
  assumes "(manifest_step env)\<^sup>*\<^sup>* (new_ManifestCache, []) s"
  shows "parsed env (fst s) (snd s)"
  using assms
proof (induction rule: rtranclp_induct)
  case base
  show ?case by (simp add: parsed_def new_ManifestCache_def)
next
  case (step s1 s2)
  have ok: "cache_ok env (fst s1)" "waiting_ok env (snd s1)" using manifest_reach [of env "fst s1" "snd s1"] step.hyps(1) by simp_all
  show ?case using step.hyps(2)
  proof cases
    case (checked s0 m c waiting)
    then show ?thesis using step.IH deserialize_again by (auto simp: parsed_def)
  next
    case (written m waiting c d c')
    have "manifest_wf m" using ok(2) written by (simp add: waiting_ok_def)
    from write_map [OF _ this written(4)] ok(1) written(1)
    have "mc_map c' = mc_map c \<or> mc_map c' = AList.update (mf_masterKey m) m (mc_map c)" by simp
    then show ?thesis using step.IH written(1-3) by (auto simp: parsed_def dest: notin_set_remove1 split: if_splits)
  qed
qed

text \<open>A manifest of a sound cache can be added to any part of that cache.\<close>

lemma apply_part:
  assumes ok: "cache_ok env c" "cache_ok env c0" and part: "map_of (mc_map c0) \<subseteq>\<^sub>m map_of (mc_map c)"
    and m: "map_of (mc_map c) k = Some m" and new: "k \<notin> keys (mc_map c0)"
  shows "\<exists>c1. applyManifest env m c0 = Some (md_accepted, c1) \<and> cache_ok env c1 \<and> map_of (mc_map c1) = (map_of (mc_map c0))(k \<mapsto> m)"
proof -
  note mk = cache_ok_manifest [OF ok(1) m]
  have up: "map_of (mc_map c) j = Some x" if "map_of (mc_map c0) j = Some x" for j x
    using part that by (force simp: map_le_def)
  have signing: "map_of (signingToMasterKeys c) sk = Some j" if s: "map_of (signingToMasterKeys c0) sk = Some j" for sk j
  proof -
    obtain x where "map_of (mc_map c0) j = Some x" "mf_signingKey x = Some sk" using s cache_ok_signing [OF ok(2), of sk j] by auto
    then show ?thesis using up [of j x] cache_ok_signing [OF ok(1), of sk j] by auto
  qed
  have keys: "keys (mc_map c0) \<subseteq> keys (mc_map c)" "keys (signingToMasterKeys c0) \<subseteq> keys (signingToMasterKeys c)"
  proof -
    have "map_of (signingToMasterKeys c0) \<subseteq>\<^sub>m map_of (signingToMasterKeys c)" using signing by (force simp: map_le_def)
    from map_le_implies_dom_le [OF part] map_le_implies_dom_le [OF this]
    show "keys (mc_map c0) \<subseteq> keys (mc_map c)" "keys (signingToMasterKeys c0) \<subseteq> keys (signingToMasterKeys c)"
      by (simp_all add: dom_map_of_conv_image_fst)
  qed
  have dis: "keys (signingToMasterKeys c) \<inter> keys (mc_map c) = {}" using ok(1) by (simp add: cache_ok_def)
  have "k \<in> keys (mc_map c)" using m by (metis map_of_eq_None option.distinct(1))
  then have master: "k \<notin> keys (signingToMasterKeys c0)" using dis keys(2) by blast
  have ephemeral: "sk \<notin> keys (signingToMasterKeys c0) \<and> sk \<notin> keys (mc_map c0)" if "mf_signingKey m = Some sk" for sk
  proof -
    have s: "map_of (signingToMasterKeys c) sk = Some k" using m that cache_ok_signing [OF ok(1)] by blast
    have "map_of (signingToMasterKeys c0) sk \<noteq> Some j" for j
    proof
      assume a: "map_of (signingToMasterKeys c0) sk = Some j"
      then have "j = k" using signing s by force
      then have "k \<in> keys (mc_map c0)" using a cache_ok_signing [OF ok(2)] by (metis map_of_eq_None option.distinct(1))
      then show False using new by simp
    qed
    then have "sk \<notin> keys (signingToMasterKeys c0)" by (metis map_of_eq_None option.exhaust)
    moreover have "sk \<in> keys (signingToMasterKeys c)" using s by (metis map_of_eq_None option.distinct(1))
    ultimately show ?thesis using dis keys(1) by blast
  qed
  have free: "map_of (mc_map c0) k = None" using new by (simp add: map_of_eq_None)
  have pass: "prewriteCheck env chk m c0 = None" for chk
    using free mk master ephemeral by (auto simp: prewriteCheck_def manifest_wf_def split: option.split if_splits)
  obtain c1 where w: "writeManifest env m c0 = Some (md_accepted, c1)" and r: "replaced m None c0 c1"
    using writeManifest_cases [OF ok(2) mk(2)] pass free mk(1) by auto
  have "cache_ok env c1" using write_keeps(1) [OF ok(2) mk(2,3) w] .
  moreover have "map_of (mc_map c1) = (map_of (mc_map c0))(k \<mapsto> m)" using r mk(1) by (auto simp: replaced_def update_conv')
  ultimately show ?thesis using pass w by (simp add: applyManifest_def)
qed

lemma mset_map_rows:
  "mset rows = image_mset f (mset xs) \<Longrightarrow> \<exists>ys. mset ys = mset xs \<and> rows = map f ys"
proof (induction rows arbitrary: xs)
  case (Cons r rows)
  then have "r \<in> f ` set xs" by (metis list.set_intros(1) set_mset_mset set_image_mset)
  then obtain x where x: "x \<in> set xs" "r = f x" by blast
  then have xs: "mset xs = add_mset x (mset (remove1 x xs))" by simp
  have "add_mset (f x) (mset rows) = add_mset (f x) (image_mset f (mset (remove1 x xs)))"
    using Cons.prems x(2) unfolding xs by simp
  then have "mset rows = image_mset f (mset (remove1 x xs))" by simp
  from Cons.IH [OF this] obtain ys where ys: "mset ys = mset (remove1 x xs)" "rows = map f ys" by blast
  have "mset (x # ys) = mset xs" using xs [symmetric] ys(1) by (simp only: mset.simps)
  moreover have "r # rows = map f (x # ys)" using ys(2) x(2) by simp
  ultimately show ?case by (intro exI [of _ "x # ys"] conjI)
qed simp

lemma load_part:
  assumes ok: "cache_ok env c" and p: "parsed env c []"
  shows "cache_ok env c0 \<Longrightarrow> map_of (mc_map c0) \<subseteq>\<^sub>m map_of (mc_map c) \<Longrightarrow>
    \<forall>(k, m) \<in> set l. map_of (mc_map c) k = Some m \<Longrightarrow> distinct_keys l \<Longrightarrow> keys l \<inter> keys (mc_map c0) = {} \<Longrightarrow>
    \<exists>c1. getManifests env (map (\<lambda>(_, m). mf_serialized m) l) c0 = Some c1 \<and> map_of (mc_map c1) = map_of (mc_map c0) ++ map_of l"
proof (induction l arbitrary: c0)
  case (Cons x l)
  obtain k m where x: "x = (k, m)" by force
  have m: "map_of (mc_map c) k = Some m" and new: "k \<notin> keys (mc_map c0)" "k \<notin> keys l" using Cons.prems(3-5) x by auto
  obtain c1 where c1: "applyManifest env m c0 = Some (md_accepted, c1)" "cache_ok env c1"
    and up: "map_of (mc_map c1) = (map_of (mc_map c0))(k \<mapsto> m)"
    using apply_part [OF ok Cons.prems(1,2) m new(1)] by blast
  have part: "map_of (mc_map c1) \<subseteq>\<^sub>m map_of (mc_map c)" using Cons.prems(2) m up by (auto simp: map_le_def)
  have "keys (mc_map c1) = insert k (keys (mc_map c0))" using up by (metis dom_fun_upd dom_map_of_conv_image_fst option.distinct(1))
  then have "keys l \<inter> keys (mc_map c1) = {}" using Cons.prems(5) new(2) x by auto
  from Cons.IH [OF c1(2) part _ _ this] Cons.prems(3,4) x
  obtain c2 where c2: "getManifests env (map (\<lambda>(_, m). mf_serialized m) l) c1 = Some c2" "map_of (mc_map c2) = map_of (mc_map c1) ++ map_of l"
    by auto
  have "deserializeManifest env (mf_serialized m) = Some m" "manifest_verify env m"
    using p m cache_ok_manifest(3) [OF ok m] by (simp_all add: parsed_def)
  moreover have "(map_of (mc_map c0))(k \<mapsto> m) ++ map_of l = map_of (mc_map c0) ++ map_of (x # l)"
  proof -
    have "map_of l k = None" using new(2) by (simp add: map_of_eq_None)
    then show ?thesis by (auto simp: x map_add_def fun_eq_iff split: option.split)
  qed
  ultimately show ?case using c1(1) c2 up x by (simp del: map_of.simps)
qed simp

section \<open>A run\<close>

text \<open>Two manifests and a revocation for one master key; all three pass the first check before any is written.\<close>

definition demo_pk :: "u8 \<Rightarrow> PublicKey" where
  "demo_pk b = 0xED # b # replicate 31 0"

definition demo_menv :: ManifestEnv where
  "demo_menv = \<lparr>me_parse = (\<lambda>s.
       if s = [1] \<or> s = [2] then Some \<lparr>mo_Version = None, mo_PublicKey = demo_pk 1, mo_Sequence = ucast (hd s), mo_Domain = None,
                         mo_SigningPubKey = Some (demo_pk (10 + hd s)), mo_has_Signature = True\<rparr>
       else if s = [3] then Some \<lparr>mo_Version = None, mo_PublicKey = demo_pk 1, mo_Sequence = 0xFFFFFFFF, mo_Domain = None,
                         mo_SigningPubKey = None, mo_has_Signature = False\<rparr>
       else None),
     isProperlyFormedTomlDomain = (\<lambda>_. True), me_verify = (\<lambda>_ _. True), me_verifyMaster = (\<lambda>_ _. True)\<rparr>"

definition demo_manifest :: "u8 \<Rightarrow> Manifest" where
  "demo_manifest b = the (deserializeManifest demo_menv [b])"

definition demo_written :: "u8 \<Rightarrow> ManifestCache \<Rightarrow> ManifestCache" where
  "demo_written b c = snd (the (writeManifest demo_menv (demo_manifest b) c))"

lemma demo_deserialize:
  "deserializeManifest demo_menv [1] = Some (demo_manifest 1)" "deserializeManifest demo_menv [2] = Some (demo_manifest 2)"
  "deserializeManifest demo_menv [3] = Some (demo_manifest 3)"
proof -
  have "deserializeManifest demo_menv [1] \<noteq> None" "deserializeManifest demo_menv [2] \<noteq> None" "deserializeManifest demo_menv [3] \<noteq> None"
    by code_simp+
  then show "deserializeManifest demo_menv [1] = Some (demo_manifest 1)" "deserializeManifest demo_menv [2] = Some (demo_manifest 2)"
    "deserializeManifest demo_menv [3] = Some (demo_manifest 3)"
    by (auto simp: demo_manifest_def)
qed

lemma demo_checked:
  "(manifest_step demo_menv)\<^sup>*\<^sup>* (new_ManifestCache, [])
     (new_ManifestCache, [demo_manifest 3, demo_manifest 2, demo_manifest 1])"
proof -
  have c: "prewriteCheck demo_menv True (demo_manifest 1) new_ManifestCache = None"
    "prewriteCheck demo_menv True (demo_manifest 2) new_ManifestCache = None"
    "prewriteCheck demo_menv True (demo_manifest 3) new_ManifestCache = None"
    by code_simp+
  have "manifest_step demo_menv (new_ManifestCache, []) (new_ManifestCache, [demo_manifest 1])"
    using checked [OF demo_deserialize(1) c(1)] .
  moreover have "manifest_step demo_menv (new_ManifestCache, [demo_manifest 1]) (new_ManifestCache, [demo_manifest 2, demo_manifest 1])"
    using checked [OF demo_deserialize(2) c(2)] .
  moreover have "manifest_step demo_menv (new_ManifestCache, [demo_manifest 2, demo_manifest 1])
      (new_ManifestCache, [demo_manifest 3, demo_manifest 2, demo_manifest 1])"
    using checked [OF demo_deserialize(3) c(3)] .
  ultimately show ?thesis
    by (blast intro: converse_rtranclp_into_rtranclp)
qed

lemma demo_write_step:
  assumes "manifest_wf (demo_manifest b)" and "cache_ok demo_menv c"
  shows "manifest_step demo_menv (c, demo_manifest b # waiting) (demo_written b c, waiting)"
proof -
  obtain d c' where "writeManifest demo_menv (demo_manifest b) c = Some (d, c')"
    using writeManifest_cases [OF assms(2,1)] by auto
  then show ?thesis using written [of "demo_manifest b" "demo_manifest b # waiting" demo_menv c d c'] by (simp add: demo_written_def)
qed

lemma demo_revoked:
  "(manifest_step demo_menv)\<^sup>*\<^sup>* (new_ManifestCache, []) (demo_written 3 new_ManifestCache, [demo_manifest 2, demo_manifest 1])"
  using demo_checked demo_write_step [OF deserialize_wf [OF demo_deserialize(3)] cache_ok_new] by (rule rtranclp.rtrancl_into_rtrancl)

section \<open>Properties\<close>

text \<open>
  C24. Keys stay consistent, however calls of \<^verbatim>\<open>applyManifest\<close> interleave between their two locks. Every stored manifest carries valid
  signatures. Each master key in use has one ephemeral key of its own, different from all master keys, which leads back to it,
  and no other ephemeral key does. A call that waits for the lock never reads a missing key.
\<close>

theorem manifest_keys_consistent:
  assumes "(manifest_step env)\<^sup>*\<^sup>* (new_ManifestCache, []) (c, waiting)"
  shows "(\<forall>k m. map_of (mc_map c) k = Some m \<longrightarrow> mf_masterKey m = k \<and> manifest_verify env m)
    \<and> (\<forall>k sk. sk \<noteq> k \<longrightarrow> getSigningKey k c = Some sk \<longleftrightarrow> getMasterKey sk c = k)
    \<and> (\<forall>sk. getMasterKey sk c \<noteq> sk \<longrightarrow> sk \<notin> keys (mc_map c))
    \<and> (\<forall>m \<in> set waiting. writeManifest env m c \<noteq> None)"
proof -
  note ok = manifest_reach [OF assms]
  have signing: "getSigningKey k c = Some sk \<longleftrightarrow> getMasterKey sk c = k" if "sk \<noteq> k" for k sk
  proof
    assume "getSigningKey k c = Some sk"
    then show "getMasterKey sk c = k" using getSigningKey_cases [OF ok(1), of k] that by auto
  next
    assume "getMasterKey sk c = k"
    then have "map_of (signingToMasterKeys c) sk = Some k" using that by (auto simp: getMasterKey_def split: option.splits)
    then obtain m where m: "map_of (mc_map c) k = Some m" "mf_signingKey m = Some sk" using cache_ok_signing [OF ok(1)] by blast
    then have "\<not> manifest_revoked m" using cache_ok_manifest(2) [OF ok(1) m(1)] by (auto simp: manifest_wf_def split: if_splits)
    then show "getSigningKey k c = Some sk" using m by (simp add: getSigningKey_def)
  qed
  have master: "sk \<notin> keys (mc_map c)" if "getMasterKey sk c \<noteq> sk" for sk
  proof -
    have "sk \<in> keys (signingToMasterKeys c)" using that by (auto simp: getMasterKey_def split: option.splits)
        (metis map_of_eq_None option.distinct(1))
    then show ?thesis using ok(1) by (auto simp: cache_ok_def)
  qed
  have writes: "writeManifest env m c \<noteq> None" if "m \<in> set waiting" for m
  proof -
    have "manifest_wf m" using ok(2) that by (simp add: waiting_ok_def)
    from writeManifest_cases [OF ok(1) this] show ?thesis by auto
  qed
  show ?thesis
    by (intro conjI allI impI ballI) (use signing master writes cache_ok_manifest [OF ok(1)] in \<open>simp_all only: not_False_eq_True\<close>)
qed

theorem manifest_keys_consistent_witness:
  "writeManifest demo_menv (demo_manifest 2) (demo_written 3 new_ManifestCache) \<noteq> None
    \<and> manifest_verify demo_menv (demo_manifest 3)"
proof -
  have "map_of (mc_map (demo_written 3 new_ManifestCache)) (demo_pk 1) = Some (demo_manifest 3)" by code_simp
  then show ?thesis using manifest_keys_consistent [OF demo_revoked] by auto
qed

text \<open>
  C25. A newer manifest is never displaced by an older one, and a revocation is final: whatever calls follow, the sequence number of a
  master key does not decrease, and a revoked master key never gets an ephemeral key again.
\<close>

theorem revocation_is_final:
  assumes "(manifest_step env)\<^sup>*\<^sup>* (new_ManifestCache, []) (c, waiting)" and "(manifest_step env)\<^sup>*\<^sup>* (c, waiting) (c', waiting')"
  shows "(\<forall>k m. map_of (mc_map c) k = Some m \<longrightarrow> (\<exists>m'. map_of (mc_map c') k = Some m' \<and> mf_sequence m \<le> mf_sequence m'))
    \<and> (\<forall>k. revoked k c \<longrightarrow> revoked k c' \<and> (\<forall>sk. sk \<noteq> k \<longrightarrow> getMasterKey sk c' \<noteq> k))"
proof -
  note ok = manifest_reach [OF assms(1)]
  have c': "cache_ok env c'" and n: "newer c c'" using manifest_steps_keep [OF assms(2)] ok by simp_all
  have "getMasterKey sk c' \<noteq> k" if "revoked k c'" "sk \<noteq> k" for k sk
  proof
    assume "getMasterKey sk c' = k"
    then have "map_of (signingToMasterKeys c') sk = Some k" using that(2) by (auto simp: getMasterKey_def split: option.splits)
    then obtain m where m: "map_of (mc_map c') k = Some m" "mf_signingKey m = Some sk" using cache_ok_signing [OF c'] by blast
    then show False using cache_ok_manifest(2) [OF c' m(1)] that(1) by (auto simp: manifest_wf_def revoked_def)
  qed
  then show ?thesis using n newer_revoked [OF n] by (auto simp: newer_def)
qed

theorem revocation_is_final_witness:
  "revoked (demo_pk 1) (demo_written 2 (demo_written 3 new_ManifestCache))
    \<and> getMasterKey (demo_pk 12) (demo_written 2 (demo_written 3 new_ManifestCache)) \<noteq> demo_pk 1"
proof -
  have r: "revoked (demo_pk 1) (demo_written 3 new_ManifestCache)" and n: "demo_pk 12 \<noteq> demo_pk 1" by code_simp+
  have "(manifest_step demo_menv)\<^sup>*\<^sup>* (demo_written 3 new_ManifestCache, [demo_manifest 2, demo_manifest 1])
      (demo_written 2 (demo_written 3 new_ManifestCache), [demo_manifest 1])"
    using demo_write_step [OF deserialize_wf [OF demo_deserialize(2)] manifest_reach(1) [OF demo_revoked]] by (rule r_into_rtranclp)
  from revocation_is_final [OF demo_revoked this] show ?thesis using r n by blast
qed

text \<open>
  C26. Saving and loading. The table that \<^verbatim>\<open>saveManifests\<close> writes restores, in a fresh cache, exactly the revocations and the manifests
  of trusted validators; no row is refused, in whatever order the rows are read.
\<close>

theorem manifests_survive_restart:
  assumes "(manifest_step env)\<^sup>*\<^sup>* (new_ManifestCache, []) (c, waiting)" and "mset rows = mset (saveManifests isTrusted c)"
  shows "\<exists>c'. getManifests env rows new_ManifestCache = Some c' \<and> (\<forall>k. map_of (mc_map c') k =
    (case map_of (mc_map c) k of None \<Rightarrow> None | Some m \<Rightarrow> if manifest_revoked m \<or> isTrusted k then Some m else None))"
proof -
  note ok = manifest_reach(1) [OF assms(1)]
  have p: "parsed env c []" using parsed_steps [OF assms(1)] by (simp add: parsed_def)
  let ?keep = "\<lambda>(_, m). \<not> (\<not> manifest_revoked m \<and> \<not> isTrusted (mf_masterKey m))"
  let ?l = "filter ?keep (mc_map c)"
  obtain l where l: "mset l = mset ?l" "rows = map (\<lambda>(_, m). mf_serialized m) l"
  proof -
    have "mset rows = image_mset (\<lambda>(_, m). mf_serialized m) (mset ?l)" using assms(2) by (simp add: saveManifests_def)
    from mset_map_rows [OF this] show thesis using that by blast
  qed
  have dk: "distinct_keys (mc_map c)" using ok by (simp add: cache_ok_def)
  have "mset (map fst l) = mset (map fst ?l)" using l(1) by simp
  from mset_eq_imp_distinct_iff [OF this] have dl: "distinct_keys l" using distinct_map_filter [OF dk, of ?keep] by blast
  have mem: "(k, m) \<in> set l \<longleftrightarrow> map_of (mc_map c) k = Some m \<and> (manifest_revoked m \<or> isTrusted k)" for k m
    using mset_eq_setD [OF l(1)] dk cache_ok_manifest(1) [OF ok, of k m] by (auto simp: map_of_eq_Some_iff)
  have "\<forall>(k, m) \<in> set l. map_of (mc_map c) k = Some m" using mem by auto
  from load_part [OF ok p cache_ok_new _ this dl] obtain c' where
    c': "getManifests env rows new_ManifestCache = Some c'" "map_of (mc_map c') = map_of l"
    using l(2) by (auto simp: new_ManifestCache_def)
  have "map_of l k = (case map_of (mc_map c) k of None \<Rightarrow> None | Some m \<Rightarrow> if manifest_revoked m \<or> isTrusted k then Some m else None)" for k
  proof -
    have iff: "map_of l k = Some m \<longleftrightarrow> map_of (mc_map c) k = Some m \<and> (manifest_revoked m \<or> isTrusted k)" for m
      using mem [of k m] map_of_eq_Some_iff [OF dl, of k m] by blast
    show ?thesis
    proof (cases "map_of l k")
      case None
      then show ?thesis using iff by (auto split: option.split)
    next
      case (Some m)
      then show ?thesis using iff [of m] by auto
    qed
  qed
  then show ?thesis using c' by auto
qed

theorem manifests_survive_restart_witness:
  "\<exists>c'. getManifests demo_menv (saveManifests (\<lambda>_. False) (demo_written 3 new_ManifestCache)) new_ManifestCache = Some c'
    \<and> map_of (mc_map c') (demo_pk 1) = Some (demo_manifest 3)"
proof -
  have m: "map_of (mc_map (demo_written 3 new_ManifestCache)) (demo_pk 1) = Some (demo_manifest 3)"
    and r: "manifest_revoked (demo_manifest 3)" by code_simp+
  obtain c' where c': "getManifests demo_menv (saveManifests (\<lambda>_. False) (demo_written 3 new_ManifestCache)) new_ManifestCache = Some c'"
    and k: "\<forall>k. map_of (mc_map c') k = (case map_of (mc_map (demo_written 3 new_ManifestCache)) k of None \<Rightarrow> None
      | Some m \<Rightarrow> if manifest_revoked m \<or> False then Some m else None)"
    using manifests_survive_restart [OF demo_revoked refl, of "\<lambda>_. False"] by (elim exE conjE) (rule that)
  have "map_of (mc_map c') (demo_pk 1) = Some (demo_manifest 3)" using k [rule_format, of "demo_pk 1", unfolded m] r by simp
  then show ?thesis using c' by blast
qed

end
