(* ===== verification/Transactor_Call.thy ===== *)
theory Transactor_Call
  imports Change_Tx
begin

text \<open>
  How a pseudo-transaction is carried out: \<^verbatim>\<open>Transactor::operator()\<close> of \<^verbatim>\<open>src/xrpld/app/tx/detail/Transactor.cpp\<close> with \<^verbatim>\<open>apply\<close>,
  \<^verbatim>\<open>payFee\<close>, \<^verbatim>\<open>consumeSeqProxy\<close> and \<^verbatim>\<open>reset\<close>, the invariant step of \<^verbatim>\<open>ApplyContext.cpp\<close>, and \<^verbatim>\<open>doApply\<close> of \<^verbatim>\<open>applySteps.cpp\<close>.
  The operation works on a copy of the ledger, which is committed or discarded; what it does to the rest of the server is
  done at once. A result can still turn into a failure after the operation: when the metadata is too large, or when an
  invariant check refuses the changes.

  The size of the metadata, the verdict of the invariant checkers and the removal of a ticket are arguments. A failed assertion
  is \<open>None\<close>. The work that is done again for the codes \<^verbatim>\<open>tecKILLED\<close>, \<^verbatim>\<open>tecINCOMPLETE\<close> and \<^verbatim>\<open>tecEXPIRED\<close>, which no
  pseudo-transaction returns, is left out, as is the removal of unfunded offers: these operations delete no entry. The field
  \<^verbatim>\<open>sfAccountTxnID\<close> of an account is not part of \<open>AccountRoot\<close>, and the fee that \<^verbatim>\<open>destroyXRP\<close> takes from the total in the ledger's
  header is not kept: preflight demands a fee of zero. \<open>process_change\<close> of
  \<open>Change_Tx\<close> is the case in which neither the size nor the invariants object and account zero has no ledger entry
  (\<open>process_tx_common\<close>).
\<close>

section \<open>Result codes\<close>

definition isTecClaim :: "ter \<Rightarrow> bool" where
  "isTecClaim r \<longleftrightarrow> r = tecDIR_FULL \<or> r = tecOVERSIZE \<or> r = tecINVARIANT_FAILED"

record ApplyContext =
  ac_retry :: bool
  ac_failHard :: bool
  ac_dryRun :: bool
  ac_oversize :: "View \<Rightarrow> View \<Rightarrow> bool"
  ac_invariants :: "ter \<Rightarrow> int \<Rightarrow> View \<Rightarrow> View \<Rightarrow> bool"
  ac_ticketDelete :: "View \<Rightarrow> ter \<times> View"

definition isTecClaimHardFail :: "ApplyContext \<Rightarrow> ter \<Rightarrow> bool" where
  "isTecClaimHardFail ac r \<longleftrightarrow> isTecClaim r \<and> \<not> ac_retry ac"

definition failInvariantCheck :: "ter \<Rightarrow> ter" where
  "failInvariantCheck result =
     (if result = tecINVARIANT_FAILED \<or> result = tefINVARIANT_FAILED then tefINVARIANT_FAILED else tecINVARIANT_FAILED)"

definition check_invariants :: "ApplyContext \<Rightarrow> ter \<Rightarrow> int \<Rightarrow> View \<Rightarrow> View \<Rightarrow> ter" where
  "check_invariants ac result fee base view = (if ac_invariants ac result fee base view then result else failInvariantCheck result)"

section \<open>Fee and sequence number\<close>

definition set_account :: "AccountID \<Rightarrow> (AccountRoot \<Rightarrow> AccountRoot) \<Rightarrow> View \<Rightarrow> View" where
  "set_account a f view = view\<lparr>v_accounts := (v_accounts view)(a := map_option f (v_accounts view a))\<rparr>"

definition consumeSeqProxy :: "ApplyContext \<Rightarrow> ChangeTx \<Rightarrow> View \<Rightarrow> ter \<times> View" where
  "consumeSeqProxy ac tx view =
     (if tx_Sequence tx \<noteq> 0 \<or> tx_TicketSequence tx = None
      then (tesSUCCESS, set_account (tx_Account tx) (\<lambda>ar. ar\<lparr>ar_Sequence := tx_Sequence tx + 1\<rparr>) view)
      else ac_ticketDelete ac view)"

definition payFee :: "ChangeTx \<Rightarrow> View \<Rightarrow> ter \<times> View" where
  "payFee tx view =
     (let payer = (case tx_Delegate tx of Some d \<Rightarrow> d | None \<Rightarrow> tx_Account tx)
      in if v_accounts view payer = None then (tefINTERNAL, view)
         else (tesSUCCESS, set_account payer (\<lambda>ar. ar\<lparr>ar_Balance := ar_Balance ar - tx_fee tx\<rparr>) view))"

definition transactor_apply ::
  "ApplyContext \<Rightarrow> ChangeEnv \<Rightarrow> ChangeTx \<Rightarrow> View \<Rightarrow> AppState \<Rightarrow> (ter \<times> View \<times> AppState) option" where
  "transactor_apply ac env tx view app =
     (if v_accounts view (tx_Account tx) = None
      then (if tx_Account tx = 0 then Some (doApply env tx view app) else None)
      else let (r, view1) = consumeSeqProxy ac tx view
           in if r \<noteq> tesSUCCESS then Some (r, view1, app)
              else let (r, view2) = payFee tx view1
                   in if r \<noteq> tesSUCCESS then Some (r, view2, app) else Some (doApply env tx view2 app))"

text \<open>\<open>base\<close> is the ledger without the changes. The result is the code, the fee that can be charged, and the ledger with the charge.\<close>

definition reset :: "ApplyContext \<Rightarrow> ChangeTx \<Rightarrow> int \<Rightarrow> View \<Rightarrow> (ter \<times> int \<times> View) option" where
  "reset ac tx fee base =
     (case v_accounts base (tx_Account tx) of
        None \<Rightarrow> Some (tefINTERNAL, 0, base)
      | Some _ \<Rightarrow>
          let payer = (case tx_Delegate tx of Some d \<Rightarrow> d | None \<Rightarrow> tx_Account tx)
          in (case v_accounts base payer of
                None \<Rightarrow> Some (tefINTERNAL, 0, base)
              | Some p \<Rightarrow>
                  let balance = ar_Balance p; fee' = (if balance < fee then balance else fee)
                  in if \<not> (balance \<noteq> 0 \<and> (\<not> v_open base \<or> fee \<le> balance)) then None
                     else let (r, view) = consumeSeqProxy ac tx (set_account payer (\<lambda>ar. ar\<lparr>ar_Balance := balance - fee'\<rparr>) base)
                          in if r \<noteq> tesSUCCESS then None else Some (tesSUCCESS, fee', view)))"

section \<open>The call\<close>

text \<open>The state between the steps: the code, whether the changes are to be committed, the fee, and the changed ledger.\<close>

definition claim_step ::
  "ApplyContext \<Rightarrow> ChangeTx \<Rightarrow> View \<Rightarrow> ter \<times> bool \<times> int \<times> View \<Rightarrow> (ter \<times> bool \<times> int \<times> View) option" where
  "claim_step ac tx base = (\<lambda>(result, applied, fee, view).
     if isTecClaim result \<and> ac_failHard ac then Some (result, False, fee, base)
     else if result = tecOVERSIZE \<or> isTecClaimHardFail ac result
     then (case reset ac tx fee base of
             None \<Rightarrow> None
           | Some (r, fee', view') \<Rightarrow>
               let result' = (if r \<noteq> tesSUCCESS then r else result) in Some (result', isTecClaim result', fee', view'))
     else Some (result, applied, fee, view))"

definition invariant_step ::
  "ApplyContext \<Rightarrow> ChangeTx \<Rightarrow> View \<Rightarrow> ter \<times> bool \<times> int \<times> View \<Rightarrow> (ter \<times> bool \<times> int \<times> View) option" where
  "invariant_step ac tx base = (\<lambda>(result, applied, fee, view).
     if \<not> applied then Some (result, applied, fee, view)
     else let result1 = check_invariants ac result fee base view
          in (case (if result1 = tecINVARIANT_FAILED
                    then (case reset ac tx fee base of
                            None \<Rightarrow> None
                          | Some (r, fee', view') \<Rightarrow>
                              let result2 = (if r \<noteq> tesSUCCESS then r else result1)
                              in Some (if result2 = tesSUCCESS \<or> isTecClaim result2
                                       then check_invariants ac result2 fee' base view' else result2, fee', view'))
                    else Some (result1, fee, view)) of
                None \<Rightarrow> None
              | Some (result3, fee3, view3) \<Rightarrow> Some (result3, isTecClaim result3 \<or> result3 = tesSUCCESS, fee3, view3)))"

text \<open>A negative fee is an exception, which the caller turns into \<^verbatim>\<open>tefEXCEPTION\<close>.\<close>

definition commit_step :: "ApplyContext \<Rightarrow> View \<Rightarrow> ter \<times> bool \<times> int \<times> View \<Rightarrow> ter \<times> bool \<times> View" where
  "commit_step ac base = (\<lambda>(result, applied, fee, view).
     if applied \<and> fee < 0 then (tefEXCEPTION, False, base)
     else if applied \<and> \<not> ac_dryRun ac then (result, True, view)
     else (result, False, base))"

definition transactor_call ::
  "ApplyContext \<Rightarrow> ChangeEnv \<Rightarrow> ChangeTx \<Rightarrow> ter \<Rightarrow> View \<Rightarrow> AppState \<Rightarrow> (ter \<times> bool \<times> View \<times> AppState) option" where
  "transactor_call ac env tx preclaimResult base app =
     (case (if preclaimResult = tesSUCCESS then transactor_apply ac env tx base app else Some (preclaimResult, base, app)) of
        None \<Rightarrow> None
      | Some (result, view, app') \<Rightarrow>
          let applied = (result = tesSUCCESS);
              result1 = (if ac_oversize ac base view then tecOVERSIZE else result)
          in (case claim_step ac tx base (result1, applied, tx_fee tx, view) of
                None \<Rightarrow> None
              | Some s \<Rightarrow>
                  (case invariant_step ac tx base s of
                     None \<Rightarrow> None
                   | Some s' \<Rightarrow> (case commit_step ac base s' of (r, b, view') \<Rightarrow> Some (r, b, view', app')))))"

text \<open>Preflight, preclaim and the call, as \<^verbatim>\<open>apply\<close> chains them.\<close>

definition process_tx ::
  "ApplyContext \<Rightarrow> ChangeEnv \<Rightarrow> u32 \<Rightarrow> ChangeTx \<Rightarrow> View \<times> AppState \<Rightarrow> (ter \<times> bool \<times> View \<times> AppState) option" where
  "process_tx ac env nodeNID tx = (\<lambda>(view, app).
     let ret = invokePreflight_Change (v_rules view) nodeNID tx in
     if ret \<noteq> tesSUCCESS then Some (ret, False, view, app)
     else let ret = preclaim view tx in
          if \<not> (ret = tesSUCCESS \<or> isTecClaimHardFail ac ret) then Some (ret, False, view, app)
          else transactor_call ac env tx ret view app)"

section \<open>Pseudo-transactions\<close>

text \<open>What preflight has checked: account zero, no fee and no sequence number.\<close>

lemma preflight_pseudo:
  assumes "invokePreflight_Change rules nid tx = tesSUCCESS"
  shows "tx_Account tx = 0" "tx_fee tx = 0" "tx_Sequence tx = 0"
  using assms by (auto simp: invokePreflight_Change_def Let_def split: if_splits)

lemma preclaim_codes: "preclaim view tx = tesSUCCESS \<or> \<not> isTecClaim (preclaim view tx)"
  by (auto simp: preclaim_def preclaim_fee_def isTecClaim_def split: TxType.split ChangeBody.split)


definition charged :: "View \<Rightarrow> View" where
  "charged view = set_account 0 (\<lambda>ar. ar\<lparr>ar_Sequence := 1\<rparr>) view"

lemma charged_missing: "v_accounts view 0 = None \<Longrightarrow> charged view = view"
  by (simp add: charged_def set_account_def fun_upd_idem)

definition plain_pseudo :: "ChangeTx \<Rightarrow> bool" where
  "plain_pseudo tx \<longleftrightarrow> tx_Account tx = 0 \<and> tx_fee tx = 0 \<and> tx_Sequence tx = 0 \<and> tx_TicketSequence tx = None \<and> tx_Delegate tx = None"

lemma transactor_apply_pseudo:
  assumes "plain_pseudo tx"
  shows "transactor_apply ac env tx view app = Some (doApply env tx (charged view) app)"
proof (cases "v_accounts view 0")
  case None
  then show ?thesis using assms by (simp add: transactor_apply_def plain_pseudo_def charged_missing)
next
  case (Some ar)
  have "(v_accounts view)(0 := Some ar) = v_accounts view" using Some by (simp add: fun_upd_idem)
  then show ?thesis
    using assms Some by (simp add: transactor_apply_def plain_pseudo_def consumeSeqProxy_def payFee_def charged_def set_account_def)
qed





text \<open>Where nothing objects, this is \<open>process_change\<close>.\<close>

lemma process_tx_common:
  assumes "\<And>v. \<not> ac_oversize ac view v" and "\<And>r fee v. ac_invariants ac r fee view v" and "\<not> ac_dryRun ac"
    and "v_accounts view 0 = None" and "tx_TicketSequence tx = None" and "tx_Delegate tx = None"
  shows "\<exists>r applied. process_tx ac env nodeNID tx (view, app) = Some (r, applied, snd (process_change env nodeNID tx (view, app)))"
proof (cases "invokePreflight_Change (v_rules view) nodeNID tx = tesSUCCESS \<and> preclaim view tx = tesSUCCESS")
  case False
  then show ?thesis
    using preclaim_codes [of view tx] by (auto simp: process_tx_def process_change_def isTecClaimHardFail_def Let_def)
next
  case True
  have plain: "plain_pseudo tx" using preflight_pseudo [OF conjunct1 [OF True]] assms(5,6) by (simp add: plain_pseudo_def)
  obtain r1 view1 app1 where d: "doApply env tx view app = (r1, view1, app1)" by (metis prod_cases3)
  have reset: "reset ac tx 0 view = Some (tefINTERNAL, 0, view)" using plain assms(4) by (simp add: reset_def plain_pseudo_def)
  have "process_tx ac env nodeNID tx (view, app) = transactor_call ac env tx tesSUCCESS view app"
    using True by (simp add: process_tx_def)
  moreover have "snd (process_change env nodeNID tx (view, app)) = (if r1 = tesSUCCESS then view1 else view, app1)"
    using True d by (simp add: process_change_def)
  moreover have "\<exists>r applied. transactor_call ac env tx tesSUCCESS view app
      = Some (r, applied, if r1 = tesSUCCESS then view1 else view, app1)"
    using plain d assms(1-3) reset transactor_apply_pseudo [OF plain, of ac env view app] charged_missing [OF assms(4)]
    by (cases "r1 = tesSUCCESS")
      (auto simp: transactor_call_def plain_pseudo_def claim_step_def invariant_step_def commit_step_def check_invariants_def
        isTecClaim_def isTecClaimHardFail_def Let_def)
  ultimately show ?thesis by auto
qed

section \<open>Properties\<close>




end
