(* ===== verification/Exclusion_Votes.thy ===== *)
theory Exclusion_Votes
  imports Change_Tx Validator_Exclusions
begin

text \<open>
  From a validator's wishes to its list on the ledger. \<^verbatim>\<open>ValidatorExclusionManager\<close> hands out one change at a time, a vote
  transaction carries it, and \<^verbatim>\<open>Change::applyValidatorVote\<close> applies it to the validator's account. A round here is one
  question to the manager followed, if it hands out a change, by its application to the ledger. The ledger list takes at most 100
  entries and drops an addition that does not fit; the manager hands out all additions before the first removal.
\<close>

section \<open>Rounds\<close>

definition vote_round ::
  "AccountID \<Rightarrow> u32 \<Rightarrow> ValidatorExclusionManager \<times> View \<times> ExclusionManager \<Rightarrow> ValidatorExclusionManager \<times> View \<times> ExclusionManager" where
  "vote_round account seq = (\<lambda>(vem, view, em).
     case getExclusionChange seq (Some (v_accounts view)) vem em of
       (None, vem', em') \<Rightarrow> (vem', view, em')
     | (Some (add, remove), vem', em') \<Rightarrow>
         (case applyExclusionChange add remove account view em' of (view', em'') \<Rightarrow> (vem', view', em'')))"

definition ledger_change :: "bool \<times> AccountID \<Rightarrow> AccountID option list \<Rightarrow> AccountID option list" where
  "ledger_change = (\<lambda>(isAdd, a). if isAdd then change_list (Some a) None else change_list None (Some a))"

text \<open>The manager is ready and has seen the last modification of the remote lists.\<close>

definition settled :: "ValidatorExclusionManager \<Rightarrow> bool" where
  "settled vem \<longleftrightarrow> vem_initialized vem \<and> fetcher_ready (remoteFetcher vem)
     \<and> (\<forall>f. remoteFetcher vem = Some f \<longrightarrow> \<not> hasModifications f)"

lemma refreshPending_settled:
  assumes "settled vem"
  shows "refreshPending l vem em = (vem, em)"
proof (cases "remoteFetcher vem")
  case None
  then show ?thesis by (simp add: refreshPending_def)
next
  case (Some f)
  then have "f\<lparr>hasModifications := False\<rparr> = f" using assms by (cases f) (simp add: settled_def)
  moreover have "vem\<lparr>remoteFetcher := Some f\<rparr> = vem" using Some by (cases vem) simp
  ultimately show ?thesis using Some assms by (simp add: refreshPending_def hasBeenModified_def settled_def)
qed

lemma vote_round_settled:
  assumes "settled vem" and "lastChangeLedger vem + CHANGE_INTERVAL \<le> seq \<or> pendingChanges vem = []"
  shows "\<exists>vem' view' em'. vote_round account seq (vem, view, em) = (vem', view', em') \<and> settled vem'
    \<and> pendingChanges vem' = drop 1 (pendingChanges vem)
    \<and> stored_list (v_accounts view' account) = fold ledger_change (take 1 (pendingChanges vem)) (stored_list (v_accounts view account))
    \<and> (lastChangeLedger vem' = seq \<or> pendingChanges vem' = [])"
proof (cases "pendingChanges vem")
  case Nil
  then have "getExclusionChange seq (Some (v_accounts view)) vem em = (None, vem, em)"
    using assms by (simp add: getExclusionChange_def refreshPending_settled)
  then show ?thesis using Nil assms(1) by (simp add: vote_round_def)
next
  case (Cons c rest)
  obtain isAdd a where c: "c = (isAdd, a)" by (cases c)
  let ?vem = "vem\<lparr>pendingChanges := rest, lastChangeLedger := seq\<rparr>"
  let ?add = "if isAdd then Some a else None" and ?rem = "if isAdd then None else Some a"
  have g: "getExclusionChange seq (Some (v_accounts view)) vem em = (Some (?add, ?rem), ?vem, em)"
    using assms Cons c by (simp add: getExclusionChange_def refreshPending_settled settled_def not_less [symmetric])
  obtain view' em' where ap: "applyExclusionChange ?add ?rem account view em = (view', em')" by fastforce
  have "settled ?vem" using assms(1) by (simp add: settled_def)
  moreover have "vote_round account seq (vem, view, em) = (?vem, view', em')" by (simp add: vote_round_def g ap)
  moreover have "stored_list (v_accounts view' account) = ledger_change c (stored_list (v_accounts view account))"
    using applyExclusionChange_stored(1) [OF ap, of account] by (simp add: ledger_change_def c)
  ultimately show ?thesis using Cons by simp
qed

definition spaced :: "u32 \<Rightarrow> u32 list \<Rightarrow> bool" where
  "spaced q seqs \<longleftrightarrow> successively (\<lambda>a b. unat a + 10 \<le> unat b) (q # seqs)"

lemma spaced_first:
  assumes "spaced q (seq # seqs)"
  shows "q + CHANGE_INTERVAL \<le> seq" and "spaced seq seqs"
proof -
  have le: "unat q + 10 \<le> unat seq" using assms by (simp add: spaced_def)
  then have "unat q + unat CHANGE_INTERVAL < 2 ^ LENGTH(32)"
    using unsigned_less [of seq, where 'a = nat] by (simp add: CHANGE_INTERVAL_def)
  then have "unat (q + CHANGE_INTERVAL) = unat q + unat CHANGE_INTERVAL" using unat_add_lem by blast
  then show "q + CHANGE_INTERVAL \<le> seq" using le by (simp add: word_le_nat_alt CHANGE_INTERVAL_def)
  show "spaced seq seqs" using assms by (simp add: spaced_def)
qed

lemma vote_rounds_settled:
  "settled vem \<Longrightarrow> spaced q seqs \<Longrightarrow> lastChangeLedger vem = q \<or> pendingChanges vem = [] \<Longrightarrow>
   \<exists>vem' view' em'. fold (vote_round account) seqs (vem, view, em) = (vem', view', em')
    \<and> pendingChanges vem' = drop (length seqs) (pendingChanges vem)
    \<and> stored_list (v_accounts view' account)
      = fold ledger_change (take (length seqs) (pendingChanges vem)) (stored_list (v_accounts view account))"
proof (induction seqs arbitrary: vem view em q)
  case (Cons seq seqs)
  note sp = spaced_first [OF Cons.prems(2)]
  have "lastChangeLedger vem + CHANGE_INTERVAL \<le> seq \<or> pendingChanges vem = []" using Cons.prems(3) sp(1) by blast
  from vote_round_settled [OF Cons.prems(1) this, of account view em] obtain vem1 view1 em1 where
    r: "vote_round account seq (vem, view, em) = (vem1, view1, em1)" and st: "settled vem1"
    and p: "pendingChanges vem1 = drop 1 (pendingChanges vem)"
    and l: "stored_list (v_accounts view1 account) = fold ledger_change (take 1 (pendingChanges vem)) (stored_list (v_accounts view account))"
    and q: "lastChangeLedger vem1 = seq \<or> pendingChanges vem1 = []" by (elim exE conjE) (rule that)
  from Cons.IH [OF st sp(2) q, of view1 em1] obtain vem2 view2 em2 where
    "fold (vote_round account) seqs (vem1, view1, em1) = (vem2, view2, em2)"
    "pendingChanges vem2 = drop (length seqs) (pendingChanges vem1)"
    "stored_list (v_accounts view2 account)
      = fold ledger_change (take (length seqs) (pendingChanges vem1)) (stored_list (v_accounts view1 account))" by blast
  then show ?case using r p l by (cases "pendingChanges vem") simp_all
qed simp

section \<open>What the ledger list becomes\<close>

lemma fold_additions:
  "distinct xs \<Longrightarrow> set (map Some xs) \<inter> set es = {} \<Longrightarrow> length es \<le> 100 \<Longrightarrow>
   fold ledger_change (map (Pair True) xs) es = es @ map Some (take (100 - length es) xs)"
proof (induction xs arbitrary: es)
  case (Cons x xs)
  show ?case
  proof (cases "length es < 100")
    case True
    then have "ledger_change (True, x) es = es @ [Some x]"
      using Cons.prems(2) by (auto simp: ledger_change_def change_list_def)
    moreover have "fold ledger_change (map (Pair True) xs) (es @ [Some x])
        = (es @ [Some x]) @ map Some (take (100 - length (es @ [Some x])) xs)"
      using Cons.prems True by (intro Cons.IH) auto
    moreover have "100 - length es = Suc (99 - length es)" using True by simp
    ultimately show ?thesis by simp
  next
    case False
    then have "ledger_change (True, x) es = es" by (simp add: ledger_change_def change_list_def)
    then show ?thesis using Cons.IH [of es] Cons.prems False by simp
  qed
qed simp

lemma fold_removals:
  "fold ledger_change (map (Pair False) xs) es = filter (\<lambda>e. e \<notin> Some ` set xs) es"
proof (induction xs arbitrary: es)
  case (Cons x xs)
  have "ledger_change (False, x) es = filter (\<lambda>e. e \<noteq> Some x) es" by (simp add: ledger_change_def change_list_def)
  then show ?case using Cons.IH by (simp add: conj_commute)
qed simp

definition wanted_additions :: "AccountID list \<Rightarrow> ValidatorExclusionManager \<Rightarrow> AccountID list" where
  "wanted_additions current vem = filter (\<lambda>a. a \<notin> set current) (allExclusions vem)"

lemma read_entries_length:
  assumes "entries_ok es"
  shows "length (read_entries es []) = length es"
proof -
  let ?l = "read_entries es []"
  have "Some ` set ?l = set es"
    using assms by (auto simp: entries_ok_def image_iff) (metis not_None_eq)
  then have "card (set ?l) = card (set es)" using card_image [of Some "set ?l"] by simp
  then show ?thesis using assms distinct_card [of ?l] distinct_card [of es] by (simp add: entries_ok_def)
qed

lemma queue_on_ledger:
  assumes "entries_ok es" and "current = read_entries es []" and "distinct (configuredExclusions vem)"
    and "fetcher_ready (remoteFetcher vem)"
  shows "set (read_entries (fold ledger_change (pendingChanges (updatePendingChanges current vem)) es) [])
    = set current \<inter> set (allExclusions vem) \<union> set (take (100 - length current) (wanted_additions current vem))"
proof -
  let ?w = "allExclusions vem" and ?adds = "wanted_additions current vem"
  let ?rem = "filter (\<lambda>a. a \<notin> set ?w) current"
  have es: "distinct es" "None \<notin> set es" "length es \<le> 100" using assms(1) by (simp_all add: entries_ok_def)
  have cur: "set current = {a. Some a \<in> set es}" by (simp add: assms(2))
  have len: "length current = length es" using read_entries_length [OF assms(1)] by (simp add: assms(2))
  have q: "pendingChanges (updatePendingChanges current vem) = map (Pair True) ?adds @ map (Pair False) ?rem"
    using assms(4) by (simp add: updatePendingChanges_def wanted_additions_def)
  have "fold ledger_change (map (Pair True) ?adds) es = es @ map Some (take (100 - length es) ?adds)"
    using allExclusions_distinct [OF assms(3)] cur es(3) by (intro fold_additions) (auto simp: wanted_additions_def)
  then have f: "fold ledger_change (pendingChanges (updatePendingChanges current vem)) es
      = filter (\<lambda>e. e \<notin> Some ` set ?rem) (es @ map Some (take (100 - length es) ?adds))"
    by (simp add: q fold_removals)
  have "set (take n ?adds) \<subseteq> set ?w" for n
    using set_take_subset [of n ?adds] by (auto simp: wanted_additions_def)
  then show ?thesis unfolding f len using cur by auto
qed

section \<open>Properties\<close>

text \<open>
  C33. A validator's list on the ledger follows its wishes as far as it fits. Take a manager just initialised from the ledger, whose
  remote lists are available and do not change any more. Once it has been asked at as many ledgers, ten or more apart, as there are
  differences, each change being applied before the next question, nothing is pending and the list consists of
  the old entries that are wanted and of the wanted additions that had room beside all the old entries. So the list is the wanted set
  exactly if old entries and additions together are at most 100: additions go first, one that finds the list full is
  dropped although removals are waiting, and it is not asked for again.
\<close>

theorem ledger_list_follows_wishes:
  assumes "vem = initialize calc getTrusted getListed True key (v_accounts view) vem0" and "\<not> vem_initialized vem0"
    and "fetcher_ready (remoteFetcher vem0)" and "\<forall>f. remoteFetcher vem0 = Some f \<longrightarrow> \<not> hasModifications f"
    and "distinct (configuredExclusions vem0)" and "lists_ok view" and "validatorAccount vem = Some account"
    and "current = read_exclusions (v_accounts view account)" and "adds = wanted_additions current vem"
    and "spaced (lastChangeLedger vem0) seqs" and "length (pendingChanges vem) \<le> length seqs"
    and "fold (vote_round account) seqs (vem, view, em) = (vem', view', em')"
    and "final = set (read_exclusions (v_accounts view' account))"
  shows "pendingChanges vem' = []
    \<and> final = set current \<inter> set (allExclusions vem) \<union> set (take (100 - length current) adds)
    \<and> (final = set (allExclusions vem) \<longleftrightarrow> length current + length adds \<le> 100)"
proof -
  let ?vem1 = "vem0\<lparr>validatorAccount := Some account\<rparr>"
  have vem: "vem = (updatePendingChanges current ?vem1)\<lparr>vem_initialized := True\<rparr>"
    using assms(1,2,7,8) by (simp add: initialize_def Let_def updatePendingChanges_def split: if_splits)
  have st: "settled vem" using assms(3,4) by (simp add: settled_def vem)
  have all: "allExclusions vem = allExclusions ?vem1" by (simp add: vem)
  have q: "lastChangeLedger vem = lastChangeLedger vem0" by (simp add: vem)
  let ?es = "stored_list (v_accounts view account)"
  have es: "entries_ok ?es" using assms(6) by (simp add: lists_ok_def)
  have cur: "current = read_entries ?es []" using assms(8) by (simp add: read_exclusions_stored)
  have p: "pendingChanges vem = pendingChanges (updatePendingChanges current ?vem1)" by (simp add: vem)
  have run: "pendingChanges vem' = [] \<and> stored_list (v_accounts view' account) = fold ledger_change (pendingChanges vem) ?es"
    using vote_rounds_settled [OF st assms(10), of account view em] q assms(11,12) by auto
  have adds: "adds = wanted_additions current ?vem1" using assms(9) all by (simp add: wanted_additions_def)
  have fin: "final = set current \<inter> set (allExclusions vem) \<union> set (take (100 - length current) adds)"
    using queue_on_ledger [OF es cur, of ?vem1] run assms(3,5,13) p all adds by (simp add: read_exclusions_stored)
  have len: "length current \<le> 100" using es read_entries_length [OF es] by (simp add: cur entries_ok_def)
  have d: "distinct adds" "set adds \<inter> set current = {}" "set (allExclusions vem) = set current \<inter> set (allExclusions vem) \<union> set adds"
    using allExclusions_distinct [of ?vem1] assms(5) adds all by (auto simp: wanted_additions_def)
  have "final = set (allExclusions vem) \<longleftrightarrow> set (take (100 - length current) adds) = set adds"
    using fin d set_take_subset [of "100 - length current" adds] by blast
  also have "\<dots> \<longleftrightarrow> length adds \<le> 100 - length current"
    using d(1) distinct_card [of adds] distinct_card [of "take (100 - length current) adds"] by (auto simp: distinct_take)
  finally show ?thesis using run fin len by auto
qed

text \<open>The manager \<open>demo_vem\<close> wants 7 and 8; its account 1 lists 8 and 9.\<close>

definition demo_list_view :: View where
  "demo_list_view = genesis\<lparr>v_accounts := Validator_Exclusions.demo_ledger\<rparr>"

theorem ledger_list_follows_wishes_witness:
  "set (read_exclusions (v_accounts (fst (snd (fold (vote_round 1) [10, 20] (demo_vem1, demo_list_view, new_ExclusionManager)))) 1))
    = {7, 8}"
proof -
  obtain vem' view' em' where run: "fold (vote_round 1) [10, 20] (demo_vem1, demo_list_view, new_ExclusionManager) = (vem', view', em')"
    by (metis prod_cases3)
  have v: "demo_vem1 = initialize (\<lambda>_. 1) Some (\<lambda>_. None) True ([] :: PublicKey) (v_accounts demo_list_view) demo_vem"
    by (simp add: demo_vem1_def demo_list_view_def)
  have r: "fetcher_ready (remoteFetcher demo_vem)" "\<forall>f. remoteFetcher demo_vem = Some f \<longrightarrow> \<not> hasModifications f"
    "distinct (configuredExclusions demo_vem)" by (simp_all add: fetcher_ready_def)
  have l: "lists_ok demo_list_view"
    by (simp add: lists_ok_def entries_ok_def stored_list_def demo_list_view_def Validator_Exclusions.demo_ledger_def demo_account_def)
  have a: "validatorAccount demo_vem1 = Some 1" by (simp add: demo_vem1_def initialize_def Let_def)
  have sp: "spaced (lastChangeLedger demo_vem) [10, 20]" by (simp add: spaced_def)
  have n: "length (pendingChanges demo_vem1) \<le> length [10, 20 :: u32]" by (simp add: demo_vem1_simps)
  have all: "allExclusions demo_vem1 = [7, 8]" by (simp add: allExclusions_def demo_vem1_def initialize_def Let_def)
  have cur: "read_exclusions (v_accounts demo_list_view 1) = [9, 8]"
    by (simp add: read_exclusions_def demo_list_view_def Validator_Exclusions.demo_ledger_def demo_account_def)
  show ?thesis
    using ledger_list_follows_wishes [OF v _ r l a cur [symmetric] refl sp n run refl] run
    by (simp add: all wanted_additions_def)
qed

end
