(* ===== verification/Spec2Isabelle.thy ===== *)
theory Spec2Isabelle
  imports Consensus_Proposals Validator_Exclusions Fork_Choice Negative_UNL_Vote Fee_Vote Amendment_Voting Manifest_Cache
    Transactor_Call Exclusion_Votes
begin

text \<open>
  \<^bold>\<open>A verification of postfiatd\<close>

  postfiatd is a server of a replicated ledger, derived from rippled. Servers agree on one ledger after another: they
  exchange proposals for the next set of transactions (\<^emph>\<open>consensus\<close>), build the ledger, sign it (\<^emph>\<open>validation\<close>) and follow the
  branch most validators sign (\<^emph>\<open>fork choice\<close>). Validators also vote: on fees, on amendments, on validators that are
  off-line (the negative UNL), and, in this code base, on accounts to exclude from the network. Votes enter a ledger as
  pseudo-transactions. The development follows these parts. Source paths are relative to \<^verbatim>\<open>src/src/xrpld\<close>.

  \<^bold>\<open>Conventions.\<close> The model is a shallow embedding of the C++ source: classes are records, enumerations datatypes, methods functions on
  the record; integers that may wrap are words, others \<open>int\<close> or \<open>nat\<close>; hash maps are association lists, whose order stands for the
  iteration order; exceptions and failed assertions are \<open>None\<close> or a result code. Clocks, hashes, signature checks and network
  replies are arguments. Theorems quantify over all histories of operations, as inductive reachability or as lists
  of operations. Properties carry identifiers \<open>C\<^sub>i\<close> (written C1, C2, and so on, in the text before each).

  \<^bold>\<open>Consensus\<close> (\<^verbatim>\<open>consensus/\<close>)
  \<^item> \<open>Consensus_Parms\<close>: \<^verbatim>\<open>ConsensusParms.h\<close>, the constants and the avalanche table; \<open>Ledger_Timing\<close>: \<^verbatim>\<open>LedgerTiming.h\<close>, close times
    and their resolution; \<open>Disputed_Tx\<close>: \<^verbatim>\<open>DisputedTx.h\<close>, the votes on one transaction; \<open>Consensus_Decision\<close>: \<^verbatim>\<open>Consensus.cpp\<close>,
    when to close a ledger and when consensus is reached.
  \<^item> \<open>Consensus_Round\<close>: \<^verbatim>\<open>Consensus.h\<close>, \<^verbatim>\<open>ConsensusProposal.h\<close>, \<^verbatim>\<open>ConsensusTypes.h\<close>. The whole state machine of a round as a record
    \<open>Consensus\<close> with one function per method; the queries to the rest of the server are the record \<open>Adaptor\<close>, its notifications are
    events. \<open>Consensus_Disputes\<close>, \<open>Consensus_View\<close> and \<open>Consensus_Invariant\<close> show that every method keeps the invariant, \<open>Consensus_Reach\<close>
    that it holds in all reachable states (assertions never fail, disputes are exact), \<open>Consensus_Accept\<close> what
    accepting a ledger implies, that the methods return, and that a round ends, and \<open>Consensus_Proposals\<close> that what a server announces
    follows the proposer's protocol, so that its peers take every new position.
  \<^item> \<^emph>\<open>Bounds.\<close> \<open>timerEntry\<close> and \<open>startRoundInternal\<close> call each other; the depth is a fuel argument. Two levels are enough and more change
    nothing, which is a theorem (with the stated behaviour of the adaptor). The hash of transaction sets is assumed injective on the
    subsets of one finite set of transactions, which covers every run.

  \<^bold>\<open>Validations and fork choice\<close> (\<^verbatim>\<open>consensus/LedgerTrie.h\<close>, \<^verbatim>\<open>consensus/Validations.h\<close>, \<^verbatim>\<open>app/consensus/RCLValidations\<close>)
  \<^item> \<open>Ledger_Ancestry\<close>: ledgers with their ancestors, the locale of ledger histories and its interpretation on
    \<^verbatim>\<open>RCLValidatedLedger\<close>; \<open>Ledger_Trie\<close>, \<open>Ledger_Trie_Support\<close>: the compressed trie and that it implements a bag of ledgers;
    \<open>Preferred_Ledger\<close>: the choice of a branch; \<open>Validations\<close>: the store of validations with expiry, trust changes and acquisition;
    \<open>Fork_Choice\<close>: each validator counts once, sequences increase, and a server leaves a branch that two thirds of
    the validators have left.

  \<^bold>\<open>Exclusions\<close> (\<^verbatim>\<open>app/misc/\<close>)
  \<^item> \<open>Remote_Fetcher\<close>: \<^verbatim>\<open>RemoteExclusionListFetcher\<close>, signed lists from configured sources; \<open>Exclusion_Manager\<close>: \<^verbatim>\<open>ExclusionManager\<close>, the
    cache of excluded accounts with its 67% rule; \<open>Validator_Exclusions\<close>: \<^verbatim>\<open>ValidatorExclusionManager\<close>, the changes a validator asks for;
    \<open>Vote_Tracker\<close>: \<^verbatim>\<open>ValidatorVoteTracker\<close>, votes seen in validations; \<open>Exclusion_Votes\<close>: a validator's wishes, handed out one by
    one, on its list on the ledger.

  \<^bold>\<open>Ledger changes\<close> (\<^verbatim>\<open>app/tx/detail/\<close>, \<^verbatim>\<open>app/ledger/\<close>)
  \<^item> \<open>Ledger_Objects\<close>: the ledger entries used; \<open>Transactor\<close>: preflight of every transaction, with the exclusion check; \<open>Change_Tx\<close>:
    \<^verbatim>\<open>Change.cpp\<close>, the pseudo-transactions, and the building of a ledger from them. Its properties compose the ledger with the exclusion cache.
    A change there is committed if its operation succeeds; \<open>Transactor_Call\<close> has the whole of \<^verbatim>\<open>Transactor::operator()\<close> for
    pseudo-transactions, with the size limit and the invariant checks that can still refuse it, and shows what a failure leaves behind.
  \<^item> \<open>Negative_UNL_Vote\<close>: \<^verbatim>\<open>NegativeUNLVote\<close>, on top of the validation store and of \<open>Change_Tx\<close>; \<open>Fee_Vote\<close>: \<^verbatim>\<open>FeeVoteImpl\<close>, likewise. Both show
    that what a server votes for takes effect on the ledger.
  \<^item> \<open>Amendment_Table\<close>: \<^verbatim>\<open>AmendmentTable\<close>, the votes of validators and of the operator, with the operator's votes in the wallet database
    (\<^verbatim>\<open>app/rdb/detail/Wallet.cpp\<close>); when an amendment passes, and that votes survive a restart. \<open>Amendment_Voting\<close>: its
    pseudo-transactions on the ledger, and that an enabled amendment has held its majority for the required time.

  \<^bold>\<open>Trust\<close> (\<^verbatim>\<open>app/misc/\<close>)
  \<^item> \<open>Manifest_Cache\<close>: \<^verbatim>\<open>Manifest.h\<close>, \<^verbatim>\<open>detail/Manifest.cpp\<close> and the manifest tables of the wallet database. Master keys of validators, the
    ephemeral keys they sign with, revocation, and the interleaving of concurrent writes.

  \<open>Prelude\<close> holds the shared types, association lists and counting maps.

  \<^bold>\<open>Not modelled.\<close> Threads, locks, jobs, sockets, files, databases, logging and JSON output (\<^verbatim>\<open>app/main\<close>, \<^verbatim>\<open>core\<close>, \<^verbatim>\<open>overlay\<close>,
  \<^verbatim>\<open>nodestore\<close>, \<^verbatim>\<open>rpc\<close>, \<^verbatim>\<open>app/rdb\<close>, most of \<^verbatim>\<open>app/ledger/detail\<close>): they are effects outside a functional model. The payment engine,
  the AMM, lending, tokens, offers and most transactors rest on decimal amounts, directories and trust lines, which are not
  modelled; the invariant checkers, which span all of these, are a parameter. The lists of validators that publishers
  sign are not modelled either: trust is an argument of the modelled parts. Cryptography and third-party code under \<^verbatim>\<open>src/external\<close> are parameters.
\<close>

end
